(* ===== verification/Prelude.thy ===== *)
theory Prelude
  imports Main "HOL-Library.Word"
begin

text \<open>
  What every component of the development shares: the undefined behaviours of C and C++ as
  values, the sum type of a computation that may run into one of them, the composition of such
  computations, the width of the C type int, and a few facts on lists and maps.
\<close>

section \<open>Undefined behaviour as a value\<close>

text \<open>
  A source expression whose behaviour the language leaves undefined (an access outside an array,
  a null or dangling pointer, a read of an indeterminate value, a signed overflow, unlocking a mutex
  another thread holds) evaluates to
  an element of this type; nothing that follows it is executed in the model.
\<close>

datatype ub =
    NullDeref
  | UseAfterFree
  | OutOfBounds
  | UninitRead
  | SignedOverflow
  | NotOwner

type_synonym 'a res = "ub + 'a"

definition bind_res :: "'a res \<Rightarrow> ('a \<Rightarrow> 'b res) \<Rightarrow> 'b res" where
  "bind_res m f = (case m of Inl e \<Rightarrow> Inl e | Inr x \<Rightarrow> f x)"

definition map_res :: "('a \<Rightarrow> 'b) \<Rightarrow> 'a res \<Rightarrow> 'b res" where
  "map_res f m = (case m of Inl e \<Rightarrow> Inl e | Inr x \<Rightarrow> Inr (f x))"

named_theorems res_simps \<open>evaluation of computations that may be undefined\<close>

lemma bind_res_simps [simp, res_simps]:
  "bind_res (Inl e) f = Inl e"
  "bind_res (Inr x) f = f x"
  by (simp_all add: bind_res_def)

lemma map_res_simps [simp, res_simps]:
  "map_res g (Inl e) = Inl e"
  "map_res g (Inr x) = Inr (g x)"
  by (simp_all add: map_res_def)

lemma bind_res_assoc: "bind_res (bind_res m f) g = bind_res m (\<lambda>x. bind_res (f x) g)"
  by (cases m) simp_all

lemma bind_res_Inr_iff: "bind_res m f = Inr y \<longleftrightarrow> (\<exists>x. m = Inr x \<and> f x = Inr y)"
  by (cases m) auto

lemma bind_res_InrE [elim]:
  assumes "bind_res m f = Inr y"
  obtains x where "m = Inr x" and "f x = Inr y"
  using assms by (auto simp: bind_res_Inr_iff)

lemma bind_res_Inl_iff:
  "bind_res m f = Inl e \<longleftrightarrow> m = Inl e \<or> (\<exists>x. m = Inr x \<and> f x = Inl e)"
  by (cases m) auto

lemma map_res_Inr_iff: "map_res g m = Inr y \<longleftrightarrow> (\<exists>x. m = Inr x \<and> y = g x)"
  by (cases m) auto

lemma map_res_Inl_iff: "map_res g m = Inl e \<longleftrightarrow> m = Inl e"
  by (cases m) auto

text \<open>
  A computation with loops is an option of such a result, None when it does not return.
\<close>

definition bind_run :: "'a res option \<Rightarrow> ('a \<Rightarrow> 'b res option) \<Rightarrow> 'b res option" where
  "bind_run m f = (case m of None \<Rightarrow> None | Some (Inl e) \<Rightarrow> Some (Inl e) | Some (Inr x) \<Rightarrow> f x)"

lemma bind_run_simps [simp, res_simps]:
  "bind_run None f = None"
  "bind_run (Some (Inl e)) f = Some (Inl e)"
  "bind_run (Some (Inr x)) f = f x"
  by (simp_all add: bind_run_def)

section \<open>The C type int\<close>

definition INT_MAX :: int where
  "INT_MAX = 2147483647"

definition INT_MIN :: int where
  "INT_MIN = -2147483648"

text \<open>Signed addition: undefined when the sum does not fit.\<close>

definition add_int :: "int \<Rightarrow> int \<Rightarrow> int res" where
  "add_int a b = (if INT_MIN \<le> a + b \<and> a + b \<le> INT_MAX then Inr (a + b) else Inl SignedOverflow)"

text \<open>Conversion of a long to an int keeps the low 32 bits, read as two's complement.\<close>

definition int_of_long :: "int \<Rightarrow> int" where
  "int_of_long x = (x + 2147483648) mod 4294967296 - 2147483648"

lemma int_of_long_id: "INT_MIN \<le> x \<Longrightarrow> x \<le> INT_MAX \<Longrightarrow> int_of_long x = x"
  by (simp add: int_of_long_def INT_MIN_def INT_MAX_def)

lemma int_of_long_range: "INT_MIN \<le> int_of_long x \<and> int_of_long x \<le> INT_MAX"
  by (simp add: int_of_long_def INT_MIN_def INT_MAX_def)

text \<open>The value of a C comparison: 1 or 0.\<close>

definition c_bool :: "bool \<Rightarrow> int" where
  "c_bool b = (if b then 1 else 0)"

section \<open>Lists\<close>

lemma sum_list_update:
  fixes w :: "'a \<Rightarrow> 'b::comm_monoid_add"
  assumes "t < length xs"
  shows "sum_list (map w (xs[t := x])) + w (xs ! t) = sum_list (map w xs) + w x"
  using assms
proof (induction xs arbitrary: t)
  case (Cons y ys)
  show ?case
  proof (cases t)
    case 0
    then show ?thesis by (simp add: ac_simps)
  next
    case (Suc k)
    with Cons.IH [of k] Cons.prems show ?thesis by (simp add: add.assoc)
  qed
qed simp

lemma sum_list_ge_nth:
  fixes w :: "'a \<Rightarrow> nat"
  assumes "t < length xs"
  shows "w (xs ! t) \<le> sum_list (map w xs)"
  using assms by (intro member_le_sum_list) auto

lemma sum_list_pos:
  fixes w :: "'a \<Rightarrow> nat"
  assumes "0 < sum_list (map w xs)"
  obtains t where "t < length xs" and "0 < w (xs ! t)"
proof -
  from assms obtain x where "x \<in> set xs" "0 < w x" by (induction xs) auto
  with that show thesis by (metis in_set_conv_nth)
qed

lemma sorted_insert_between:
  fixes k :: "'a \<Rightarrow> 'b::linorder"
  assumes "sorted (map k xs)"
  shows "sorted (map k (takeWhile (\<lambda>y. \<not> k x < k y) xs @ x # dropWhile (\<lambda>y. \<not> k x < k y) xs))"
  using assms by (induction xs) (auto simp: not_less dest: set_takeWhileD set_dropWhileD)

end
