(* ===== verification/CStrings.thy ===== *)
theory CStrings
  imports Prelude
begin

text \<open>
  The part of the C library that the HTTP parser uses, on byte buffers with bounds: a buffer is a
  list of characters of fixed length, a pointer into it an offset, and every access outside the
  buffer is undefined behaviour. Each function scans the bytes in the order the C function reads
  them, so a string without a terminator is undefined only where the scan really leaves the buffer.
\<close>

section \<open>Buffers\<close>

type_synonym buf = "char list"

abbreviation NUL :: char where "NUL \<equiv> CHR 0x00"
abbreviation CR :: char where "CR \<equiv> CHR 0x0D"
abbreviation LF :: char where "LF \<equiv> CHR 0x0A"
abbreviation TAB :: char where "TAB \<equiv> CHR 0x09"
abbreviation SP :: char where "SP \<equiv> CHR 0x20"

definition bget :: "buf \<Rightarrow> int \<Rightarrow> char res" where
  "bget b i = (if 0 \<le> i \<and> i < int (length b) then Inr (b ! nat i) else Inl OutOfBounds)"

definition bset :: "buf \<Rightarrow> int \<Rightarrow> char \<Rightarrow> buf res" where
  "bset b i c = (if 0 \<le> i \<and> i < int (length b) then Inr (b[nat i := c]) else Inl OutOfBounds)"

text \<open>The bytes from offset p on; the one-past-the-end pointer is valid and sees no byte.\<close>

definition suffix_at :: "buf \<Rightarrow> int \<Rightarrow> char list res" where
  "suffix_at b p = (if 0 \<le> p \<and> p \<le> int (length b) then Inr (drop (nat p) b) else Inl OutOfBounds)"

section \<open>String functions\<close>

fun scan_len :: "char list \<Rightarrow> nat res" where
  "scan_len [] = Inl OutOfBounds"
| "scan_len (c # cs) = (if c = NUL then Inr 0 else map_res Suc (scan_len cs))"

definition strlen :: "buf \<Rightarrow> int \<Rightarrow> nat res" where
  "strlen b p = bind_res (suffix_at b p) scan_len"

text \<open>The characters of the string at p, as \<^verbatim>\<open>printf("%s")\<close> reads them.\<close>

definition cstr :: "buf \<Rightarrow> int \<Rightarrow> char list res" where
  "cstr b p = bind_res (suffix_at b p) (\<lambda>s. map_res (\<lambda>n. take n s) (scan_len s))"

fun scan_pbrk :: "char list \<Rightarrow> char list \<Rightarrow> nat option res" where
  "scan_pbrk acc [] = Inl OutOfBounds"
| "scan_pbrk acc (c # cs) =
     (if c = NUL then Inr None
      else if c \<in> set acc then Inr (Some 0)
      else map_res (map_option Suc) (scan_pbrk acc cs))"

definition strpbrk :: "buf \<Rightarrow> int \<Rightarrow> char list \<Rightarrow> int option res" where
  "strpbrk b p acc =
     bind_res (suffix_at b p) (\<lambda>s. map_res (map_option (\<lambda>k. p + int k)) (scan_pbrk acc s))"

definition strchr :: "buf \<Rightarrow> int \<Rightarrow> char \<Rightarrow> int option res" where
  "strchr b p c = strpbrk b p [c]"

fun scan_spn :: "char list \<Rightarrow> char list \<Rightarrow> nat res" where
  "scan_spn acc [] = Inl OutOfBounds"
| "scan_spn acc (c # cs) =
     (if c \<noteq> NUL \<and> c \<in> set acc then map_res Suc (scan_spn acc cs) else Inr 0)"

definition strspn :: "buf \<Rightarrow> int \<Rightarrow> char list \<Rightarrow> int res" where
  "strspn b p acc = bind_res (suffix_at b p) (\<lambda>s. map_res int (scan_spn acc s))"

text \<open>Case folding in the C locale: only the letters A to Z change.\<close>

definition tolower :: "char \<Rightarrow> char" where
  "tolower c = (if 65 \<le> (of_char c :: nat) \<and> (of_char c :: nat) \<le> 90
                then char_of ((of_char c :: nat) + 32) else c)"

text \<open>
  Whether \<open>strcasecmp\<close> (and, for the first n bytes, \<open>strncasecmp\<close>) of the string at p and of
  a literal is 0. The literal's terminator is the end of its list.
\<close>

fun scan_casecmp :: "char list \<Rightarrow> char list \<Rightarrow> bool res" where
  "scan_casecmp [] ds = Inl OutOfBounds"
| "scan_casecmp (c # cs) [] = Inr (c = NUL)"
| "scan_casecmp (c # cs) (d # ds) =
     (if c \<noteq> NUL \<and> tolower c = tolower d then scan_casecmp cs ds else Inr False)"

definition strcasecmp_eq :: "buf \<Rightarrow> int \<Rightarrow> char list \<Rightarrow> bool res" where
  "strcasecmp_eq b p lit = bind_res (suffix_at b p) (\<lambda>s. scan_casecmp s lit)"

fun scan_ncasecmp :: "nat \<Rightarrow> char list \<Rightarrow> char list \<Rightarrow> bool res" where
  "scan_ncasecmp 0 cs ds = Inr True"
| "scan_ncasecmp (Suc n) [] ds = Inl OutOfBounds"
| "scan_ncasecmp (Suc n) (c # cs) [] = Inr (c = NUL)"
| "scan_ncasecmp (Suc n) (c # cs) (d # ds) =
     (if c \<noteq> NUL \<and> tolower c = tolower d then scan_ncasecmp n cs ds else Inr False)"

definition strncasecmp_eq :: "buf \<Rightarrow> int \<Rightarrow> char list \<Rightarrow> nat \<Rightarrow> bool res" where
  "strncasecmp_eq b p lit n = bind_res (suffix_at b p) (\<lambda>s. scan_ncasecmp n s lit)"

section \<open>Numbers\<close>

definition is_digit :: "char \<Rightarrow> bool" where
  "is_digit c \<longleftrightarrow> 48 \<le> (of_char c :: nat) \<and> (of_char c :: nat) \<le> 57"

definition digit_val :: "char \<Rightarrow> int" where
  "digit_val c = int (of_char c) - 48"

definition is_space :: "char \<Rightarrow> bool" where
  "is_space c \<longleftrightarrow> c = SP \<or> (9 \<le> (of_char c :: nat) \<and> (of_char c :: nat) \<le> 13)"

fun scan_digits :: "int \<Rightarrow> char list \<Rightarrow> int res" where
  "scan_digits acc [] = Inl OutOfBounds"
| "scan_digits acc (c # cs) =
     (if is_digit c then scan_digits (10 * acc + digit_val c) cs else Inr acc)"

fun scan_number :: "char list \<Rightarrow> int res" where
  "scan_number [] = Inl OutOfBounds"
| "scan_number (c # cs) =
     (if is_space c then scan_number cs
      else if c = CHR ''-'' then map_res uminus (scan_digits 0 cs)
      else if c = CHR ''+'' then scan_digits 0 cs
      else scan_digits 0 (c # cs))"

text \<open>A value that a 64-bit long cannot hold makes \<open>atol\<close> undefined.\<close>

definition atol :: "buf \<Rightarrow> int \<Rightarrow> int res" where
  "atol b p = bind_res (suffix_at b p) (\<lambda>s. bind_res (scan_number s) (\<lambda>v.
     if - (2 ^ 63) \<le> v \<and> v < 2 ^ 63 then Inr v else Inl SignedOverflow))"

function show_nat :: "nat \<Rightarrow> char list" where
  "show_nat n = (if n < 10 then [char_of (48 + n)] else show_nat (n div 10) @ [char_of (48 + n mod 10)])"
  by pat_completeness auto
termination
  by (relation "measure id") auto

declare show_nat.simps [simp del]

text \<open>The conversion \<^verbatim>\<open>%d\<close> of printf.\<close>

definition show_int :: "int \<Rightarrow> char list" where
  "show_int i = (if i < 0 then CHR ''-'' # show_nat (nat (- i)) else show_nat (nat i))"

section \<open>Writing strings\<close>

text \<open>
  \<open>vsnprintf\<close> of a rendered text s into at most n bytes from offset p: n - 1 characters and a
  terminator, nothing when n is 0. The result is the length of s, whether it fitted or not.
\<close>

definition put_bytes :: "buf \<Rightarrow> int \<Rightarrow> char list \<Rightarrow> buf res" where
  "put_bytes b p s = (if 0 \<le> p \<and> p + int (length s) \<le> int (length b)
     then Inr (take (nat p) b @ s @ drop (nat p + length s) b) else Inl OutOfBounds)"

definition vsnprintf :: "buf \<Rightarrow> int \<Rightarrow> nat \<Rightarrow> char list \<Rightarrow> (int \<times> buf) res" where
  "vsnprintf b p n s =
     (if n = 0 then Inr (int (length s), b)
      else map_res (Pair (int (length s))) (put_bytes b p (take (n - 1) s @ [NUL])))"

definition strcpy_lit :: "buf \<Rightarrow> int \<Rightarrow> char list \<Rightarrow> buf res" where
  "strcpy_lit b p lit = put_bytes b p (lit @ [NUL])"

text \<open>
  \<open>strncpy\<close>: at most n bytes of the source are read; exactly n bytes are written, the rest of a
  shorter source as terminators.
\<close>

fun scan_ncpy :: "nat \<Rightarrow> char list \<Rightarrow> char list res" where
  "scan_ncpy 0 cs = Inr []"
| "scan_ncpy (Suc n) [] = Inl OutOfBounds"
| "scan_ncpy (Suc n) (c # cs) =
     (if c = NUL then Inr (replicate (Suc n) NUL) else map_res ((#) c) (scan_ncpy n cs))"

definition strncpy :: "buf \<Rightarrow> int \<Rightarrow> buf \<Rightarrow> int \<Rightarrow> nat \<Rightarrow> buf res" where
  "strncpy dst d src p n =
     bind_res (suffix_at src p) (\<lambda>s. bind_res (scan_ncpy n s) (put_bytes dst d))"

section \<open>The string at an offset\<close>

definition str_at :: "buf \<Rightarrow> int \<Rightarrow> char list \<Rightarrow> bool" where
  "str_at b p s \<longleftrightarrow> 0 \<le> p \<and> (\<exists>r. drop (nat p) b = s @ NUL # r) \<and> NUL \<notin> set s"

lemma str_atE:
  assumes "str_at b p s"
  obtains r where "suffix_at b p = Inr (s @ NUL # r)" and "drop (nat p) b = s @ NUL # r"
    and "NUL \<notin> set s" and "0 \<le> p"
proof -
  from assms obtain r where r: "drop (nat p) b = s @ NUL # r" and "NUL \<notin> set s" and "0 \<le> p"
    by (auto simp: str_at_def)
  from r have "nat p < length b"
    by (metis append_is_Nil_conv drop_all leI list.distinct(1))
  with r \<open>0 \<le> p\<close> have "suffix_at b p = Inr (s @ NUL # r)"
    by (simp add: suffix_at_def)
  with r \<open>NUL \<notin> set s\<close> \<open>0 \<le> p\<close> that show thesis by blast
qed

lemma scan_len_str [simp]: "NUL \<notin> set s \<Longrightarrow> scan_len (s @ NUL # r) = Inr (length s)"
  by (induction s) auto

lemma scan_len_Inr: "scan_len xs = Inr n \<Longrightarrow> \<exists>r. xs = take n xs @ NUL # r \<and> NUL \<notin> set (take n xs)"
proof (induction xs arbitrary: n)
  case (Cons c cs)
  then show ?case by (cases "c = NUL") (auto simp: map_res_Inr_iff)
qed simp

lemma scan_pbrk_str:
  "NUL \<notin> set s \<Longrightarrow> scan_pbrk acc (s @ NUL # r) =
     Inr (if set s \<inter> set acc = {} then None else Some (length (takeWhile (\<lambda>c. c \<notin> set acc) s)))"
  by (induction s) auto

lemma scan_spn_str:
  "NUL \<notin> set s \<Longrightarrow> scan_spn acc (s @ NUL # r) = Inr (length (takeWhile (\<lambda>c. c \<in> set acc) s))"
  by (induction s) auto

lemma scan_casecmp_str:
  "NUL \<notin> set s \<Longrightarrow> scan_casecmp (s @ NUL # r) lit = Inr (map tolower s = map tolower lit)"
proof (induction s arbitrary: lit)
  case Nil
  then show ?case by (cases lit) auto
next
  case (Cons c s)
  then show ?case by (cases lit) auto
qed

lemma scan_ncasecmp_str:
  "\<lbrakk> NUL \<notin> set s; n = length lit \<rbrakk> \<Longrightarrow>
   scan_ncasecmp n (s @ NUL # r) lit = Inr (map tolower (take n s) = map tolower lit)"
proof (induction s arbitrary: lit n)
  case Nil
  then show ?case by (cases lit) auto
next
  case (Cons c s)
  then show ?case by (cases lit) auto
qed

lemma scan_ncpy_str:
  "NUL \<notin> set s \<Longrightarrow> scan_ncpy n (s @ NUL # r) = Inr (take n (s @ replicate n NUL))"
proof (induction s arbitrary: n)
  case Nil
  then show ?case by (cases n) auto
next
  case (Cons c s)
  then show ?case
    by (cases n) (auto simp: take_Cons' replicate_append_same [symmetric])
qed

named_theorems str_simps \<open>the library functions on a terminated string\<close>

lemma cstr_iff: "cstr b p = Inr s \<longleftrightarrow> str_at b p s"
proof
  assume "cstr b p = Inr s"
  then show "str_at b p s"
    by (auto simp: cstr_def str_at_def suffix_at_def bind_res_Inr_iff map_res_Inr_iff
        split: if_splits dest: scan_len_Inr)
next
  assume "str_at b p s"
  then show "cstr b p = Inr s" by (rule str_atE) (simp add: cstr_def)
qed

lemma cstr_str [str_simps]: "str_at b p s \<Longrightarrow> cstr b p = Inr s"
  by (simp add: cstr_iff)

lemma strlen_str [str_simps]: "str_at b p s \<Longrightarrow> strlen b p = Inr (length s)"
  by (erule str_atE) (simp add: strlen_def)

lemma strpbrk_str [str_simps]:
  "str_at b p s \<Longrightarrow> strpbrk b p acc =
     Inr (if set s \<inter> set acc = {} then None
          else Some (p + int (length (takeWhile (\<lambda>c. c \<notin> set acc) s))))"
  by (erule str_atE) (simp add: strpbrk_def scan_pbrk_str)

lemma strchr_str [str_simps]:
  "str_at b p s \<Longrightarrow> strchr b p c =
     Inr (if c \<in> set s then Some (p + int (length (takeWhile (\<lambda>d. d \<noteq> c) s))) else None)"
  by (simp add: strchr_def strpbrk_str)

lemma strspn_str [str_simps]:
  "str_at b p s \<Longrightarrow> strspn b p acc = Inr (int (length (takeWhile (\<lambda>c. c \<in> set acc) s)))"
  by (erule str_atE) (simp add: strspn_def scan_spn_str)

lemma strcasecmp_str [str_simps]:
  "str_at b p s \<Longrightarrow> strcasecmp_eq b p lit = Inr (map tolower s = map tolower lit)"
  by (erule str_atE) (simp add: strcasecmp_eq_def scan_casecmp_str)

lemma strncasecmp_str [str_simps]:
  "\<lbrakk> str_at b p s; n = length lit \<rbrakk> \<Longrightarrow>
   strncasecmp_eq b p lit n = Inr (map tolower (take n s) = map tolower lit)"
  by (erule str_atE) (simp add: strncasecmp_eq_def scan_ncasecmp_str)

section \<open>Moving in a string and cutting it\<close>

lemma str_at_bound: "str_at b p s \<Longrightarrow> p + int (length s) < int (length b)"
proof (erule str_atE)
  fix r
  assume d: "drop (nat p) b = s @ NUL # r" and p: "0 \<le> p"
  have "length (drop (nat p) b) > length s" by (simp add: d)
  with p show "p + int (length s) < int (length b)" by simp
qed

lemma str_at_drop:
  assumes "str_at b p (x @ y)"
  shows "str_at b (p + int (length x)) y"
proof -
  from assms obtain r where r: "drop (nat p) b = (x @ y) @ NUL # r" and "NUL \<notin> set (x @ y)" and "0 \<le> p"
    by (auto simp: str_at_def)
  have "nat (p + int (length x)) = length x + nat p" using \<open>0 \<le> p\<close> by simp
  then have "drop (nat (p + int (length x))) b = drop (length x) (drop (nat p) b)"
    by (simp only: drop_drop)
  with r \<open>NUL \<notin> set (x @ y)\<close> \<open>0 \<le> p\<close> show ?thesis
    by (auto simp: str_at_def)
qed

lemma str_at_dropn:
  assumes "str_at b p s" and "n \<le> length s" and "q = p + int n"
  shows "str_at b q (drop n s)"
  using str_at_drop [of b p "take n s" "drop n s"] assms by simp

lemma str_at_unique: "str_at b p s \<Longrightarrow> str_at b p t \<Longrightarrow> s = t"
  by (metis Inr_inject cstr_iff)

text \<open>Overwriting one character of a string by a terminator leaves two strings.\<close>

lemma str_at_cut:
  assumes "str_at b p (x @ c # y)"
  obtains b' where "bset b (p + int (length x)) NUL = Inr b'"
    and "b' = b[nat (p + int (length x)) := NUL]"
    and "str_at b' p x" and "str_at b' (p + int (length x) + 1) y"
proof -
  from assms obtain r where r: "drop (nat p) b = (x @ c # y) @ NUL # r"
    and nn: "NUL \<notin> set (x @ c # y)" and p: "0 \<le> p"
    by (auto simp: str_at_def)
  let ?i = "nat (p + int (length x))" and ?b' = "b[nat (p + int (length x)) := NUL]"
  from str_at_bound [OF assms] p have i: "?i < length b" "?i = nat p + length x" by auto
  have "drop (nat p) ?b' = (drop (nat p) b)[length x := NUL]"
    using p i by (simp add: drop_update_swap)
  also have "\<dots> = x @ NUL # (y @ NUL # r)"
    by (simp add: r)
  finally have d: "drop (nat p) ?b' = x @ NUL # (y @ NUL # r)" .
  have "str_at ?b' p x" using d nn p by (auto simp: str_at_def)
  moreover have "drop (nat (p + int (length x) + 1)) ?b' = y @ NUL # r"
  proof -
    have "nat (p + int (length x) + 1) = Suc (length x) + nat p" using p by simp
    then have "drop (nat (p + int (length x) + 1)) ?b' = drop (Suc (length x)) (drop (nat p) ?b')"
      by (simp only: drop_drop)
    then show ?thesis by (simp add: d)
  qed
  then have "str_at ?b' (p + int (length x) + 1) y" using nn p by (auto simp: str_at_def)
  moreover have "bset b (p + int (length x)) NUL = Inr ?b'"
    using p i by (simp add: bset_def)
  ultimately show thesis using that by blast
qed

text \<open>A string is left alone by a write behind it or before it.\<close>

lemma str_at_update_outside:
  assumes "str_at b p s" and "i < nat p \<or> nat p + length s < i"
  shows "str_at (b[i := c]) p s"
proof -
  from assms(1) obtain r where r: "drop (nat p) b = s @ NUL # r" and nn: "NUL \<notin> set s" and p: "0 \<le> p"
    by (auto simp: str_at_def)
  from assms(2) show ?thesis
  proof
    assume "i < nat p"
    then have "drop (nat p) (b[i := c]) = drop (nat p) b" by (simp add: drop_update_cancel)
    with r nn p show ?thesis by (auto simp: str_at_def)
  next
    assume i: "nat p + length s < i"
    then have "drop (nat p) (b[i := c]) = (drop (nat p) b)[i - nat p := c]"
      by (simp add: drop_update_swap)
    also have "\<dots> = s @ NUL # (r[i - nat p - Suc (length s) := c])"
    proof -
      obtain k where k: "i - nat p = length s + Suc k"
        using i by (metis add_Suc_right diff_add_inverse less_imp_Suc_add add.assoc)
      then show ?thesis by (simp add: r list_update_append)
    qed
    finally show ?thesis using nn p by (auto simp: str_at_def)
  qed
qed

text \<open>A terminator at or after p makes p the start of a string.\<close>

lemma str_at_exists:
  assumes "0 \<le> p" and "nat p \<le> i" and "i < length b" and "b ! i = NUL"
  obtains s where "str_at b p s" and "nat p + length s \<le> i"
proof -
  let ?d = "drop (nat p) b" and ?s = "takeWhile (\<lambda>c. c \<noteq> NUL) (drop (nat p) b)"
  have mem: "?d ! (i - nat p) = NUL" "i - nat p < length ?d" using assms by auto
  then have le: "length ?s \<le> i - nat p"
    by (metis (mono_tags, lifting) leI nth_mem set_takeWhileD takeWhile_nth)
  with mem have lt: "length ?s < length ?d" by linarith
  have "?d ! length ?s = NUL"
    using nth_length_takeWhile [OF lt] by simp
  then have "?d = ?s @ NUL # drop (Suc (length ?s)) ?d"
    by (metis (no_types, lifting) id_take_nth_drop lt takeWhile_eq_take)
  then have "str_at b p ?s"
    using assms(1) by (auto simp: str_at_def dest: set_takeWhileD)
  moreover have "nat p + length ?s \<le> i" using le assms by linarith
  ultimately show thesis using that by blast
qed

lemma str_at_nth:
  assumes "str_at b p s" and "k < length s"
  shows "b ! (nat p + k) = s ! k"
proof -
  from assms(1) obtain r where r: "drop (nat p) b = s @ NUL # r" by (auto simp: str_at_def)
  have "b ! (nat p + k) = drop (nat p) b ! k"
    using str_at_bound [OF assms(1)] assms by (simp add: str_at_def)
  with r assms(2) show ?thesis by (simp add: nth_append)
qed

lemma str_at_end:
  assumes "str_at b p s"
  shows "b ! (nat p + length s) = NUL"
proof -
  from assms obtain r where r: "drop (nat p) b = s @ NUL # r" by (auto simp: str_at_def)
  have "b ! (nat p + length s) = drop (nat p) b ! length s"
    using str_at_bound [OF assms] assms by (simp add: str_at_def)
  with r show ?thesis by (simp add: nth_append)
qed

lemma str_at_bget_hd:
  assumes "str_at b p s"
  shows "bget b p = Inr (if s = [] then NUL else hd s)"
proof -
  from assms have "0 \<le> p" by (simp add: str_at_def)
  with str_at_bound [OF assms] str_at_end [OF assms] str_at_nth [OF assms, of 0]
  show ?thesis by (auto simp: bget_def hd_conv_nth)
qed

end
