(* ===== verification/Kernel.thy ===== *)
theory Kernel
  imports Prelude
begin

unbundle bit_operations_syntax

text \<open>
  The system interface the servers use. A system call that only has an effect (epoll_ctl, close,
  fcntl, send, munmap) is recorded, in program order, in a trace; a call whose answer the code looks
  at (fcntl, stat, open, mmap, recv, writev, accept) is answered by a parameter of the model.
  Constants are those of the Linux headers.
\<close>

section \<open>Flags\<close>

type_synonym flags = "32 word"

definition EPOLLIN :: flags where "EPOLLIN = 0x001"
definition EPOLLOUT :: flags where "EPOLLOUT = 0x004"
definition EPOLLERR :: flags where "EPOLLERR = 0x008"
definition EPOLLHUP :: flags where "EPOLLHUP = 0x010"
definition EPOLLRDHUP :: flags where "EPOLLRDHUP = 0x2000"
definition EPOLLONESHOT :: flags where "EPOLLONESHOT = 0x40000000"
definition EPOLLET :: flags where "EPOLLET = 0x80000000"
definition O_NONBLOCK :: flags where "O_NONBLOCK = 0x800"

definition S_IROTH :: flags where "S_IROTH = 0x4"
definition S_IFMT :: flags where "S_IFMT = 0xF000"
definition S_IFDIR :: flags where "S_IFDIR = 0x4000"

definition S_ISDIR :: "flags \<Rightarrow> bool" where
  "S_ISDIR mode \<longleftrightarrow> mode AND S_IFMT = S_IFDIR"

lemmas flag_defs = EPOLLIN_def EPOLLOUT_def EPOLLERR_def EPOLLHUP_def EPOLLRDHUP_def
  EPOLLONESHOT_def EPOLLET_def O_NONBLOCK_def S_IROTH_def S_IFMT_def S_IFDIR_def S_ISDIR_def

section \<open>Files and mappings\<close>

record file_stat =
  st_mode :: flags
  st_size :: int

text \<open>A pointer returned by mmap, or the indeterminate value it has before it is first assigned.\<close>

datatype map_ptr = MUninit | MNull | MFailed | Mapped nat

datatype iov_base = IovUninit | WriteBuf | FileMap map_ptr

record iovec =
  iov_base :: iov_base
  iov_len :: int

section \<open>Calls and answers\<close>

datatype syscall =
    Epoll_add int int flags
  | Epoll_mod int int flags
  | Epoll_del int int
  | Fcntl_setfl int flags
  | Close int
  | Send int "char list"
  | Munmap map_ptr int
  | Writev int "iovec list" int
  | Alarm int
  | Send_int int int
  | Kill int nat

text \<open>The answers of the system: file status flags, stat, open and mmap.\<close>

record os =
  os_getfl :: "int \<Rightarrow> flags"
  os_stat :: "char list \<Rightarrow> file_stat option"
  os_open :: "char list \<Rightarrow> int"
  os_mmap :: "int \<Rightarrow> int \<Rightarrow> map_ptr"

datatype recv_answer = Recv_bytes "char list" | Recv_eof | Recv_again | Recv_error

text \<open>
  The answers of recv, by the number of the call and the size of the free space it was given. The
  documented behaviour of recv that the code relies on: it never delivers more than was asked for,
  and a result of 0 bytes is the end of the stream.
\<close>

type_synonym recv_fun = "nat \<Rightarrow> nat \<Rightarrow> recv_answer"

definition recv_ok :: "recv_fun \<Rightarrow> bool" where
  "recv_ok recv \<longleftrightarrow>
     (\<forall>k n bs. recv k n = Recv_bytes bs \<longrightarrow> 0 < length bs \<and> length bs \<le> n)"

datatype writev_answer = Sent int | Writev_again | Writev_error

section \<open>The epoll table\<close>

text \<open>
  What a trace of calls leaves registered in the epoll instance ep: adding a descriptor that is already
  there and modifying or removing one that is not fail without an effect, as does a call on another
  descriptor than ep; closing a descriptor removes it.
\<close>

fun epoll_step :: "int \<Rightarrow> (int \<Rightarrow> flags option) \<Rightarrow> syscall \<Rightarrow> (int \<Rightarrow> flags option)" where
  "epoll_step ep t (Epoll_add e fd ev) = (if e = ep \<and> t fd = None then t(fd \<mapsto> ev) else t)"
| "epoll_step ep t (Epoll_mod e fd ev) = (if e \<noteq> ep \<or> t fd = None then t else t(fd \<mapsto> ev))"
| "epoll_step ep t (Epoll_del e fd) = (if e = ep then t(fd := None) else t)"
| "epoll_step ep t (Close fd) = t(fd := None)"
| "epoll_step ep t _ = t"

definition epoll_table :: "int \<Rightarrow> syscall list \<Rightarrow> (int \<Rightarrow> flags option)" where
  "epoll_table ep cs = foldl (epoll_step ep) (\<lambda>_. None) cs"

lemma epoll_table_Nil [simp]: "epoll_table ep [] = (\<lambda>_. None)"
  by (simp add: epoll_table_def)

lemma epoll_table_append [simp]: "epoll_table ep (cs @ ss) = foldl (epoll_step ep) (epoll_table ep cs) ss"
  by (simp add: epoll_table_def)

end
