(* ===== verification/Http_Types.thy ===== *)
theory Http_Types
  imports CStrings Kernel
begin

unbundle bit_operations_syntax

text \<open>
  The class http_conn of \<^verbatim>\<open>src/src/httpConn/http_conn.h\<close>: its constants, enumerations and
  members, the initialisation and the closing of a connection, and the epoll helpers of
  \<^verbatim>\<open>http_conn.cpp\<close>. Pointers into the read buffer are offsets; a null pointer is None.
\<close>

section \<open>Constants and enumerations\<close>

definition FILENAME_LEN :: nat where "FILENAME_LEN = 200"
definition READ_BUFFER_SIZE :: nat where "READ_BUFFER_SIZE = 2048"
definition WRITE_BUFFER_SIZE :: nat where "WRITE_BUFFER_SIZE = 1024"

datatype METHOD = GET | POST | HEAD | PUT | DELETE | TRACE | OPTIONS | CONNECT | PATCH

datatype CHECK_STATE = CHECK_STATE_REQUESTLINE | CHECK_STATE_HEADER | CHECK_STATE_CONTENT

datatype HTTP_CODE =
    NO_REQUEST | GET_REQUEST | BAD_REQUEST | NO_RESOURCE | FORBIDDEN_REQUEST
  | FILE_REQUEST | INTERNAL_ERROR | CLOSE_CONNECTION

datatype LINE_STATUS = LINE_OK | LINE_BAD | LINE_OPEN

text \<open>The values of the enumerators of LINE_STATUS, which the code compares with a truth value.\<close>

fun line_status_value :: "LINE_STATUS \<Rightarrow> int" where
  "line_status_value LINE_OK = 0"
| "line_status_value LINE_BAD = 1"
| "line_status_value LINE_OPEN = 2"

section \<open>The connection\<close>

record http_conn =
  m_sockfd :: int
  m_address :: nat
  m_read_buf :: buf
  m_read_idx :: int
  m_checked_idx :: int
  m_start_line :: int
  m_write_buf :: buf
  m_write_idx :: int
  m_check_state :: CHECK_STATE
  m_method :: METHOD
  m_real_file :: buf
  m_url :: "int option"
  m_version :: "int option"
  m_host :: "int option"
  m_content_length :: int
  m_linger :: bool
  m_file_address :: map_ptr
  m_file_state :: file_stat
  m_iv :: "iovec list"
  m_iv_count :: nat

text \<open>The static members, and the trace of the calls made so far.\<close>

record world =
  m_epollfd :: int
  m_user_count :: int
  calls :: "syscall list"

definition emit :: "syscall \<Rightarrow> world \<Rightarrow> world" where
  "emit s w = w\<lparr>calls := calls w @ [s]\<rparr>"

text \<open>The numbers written to pipes, and those written to one pipe between two states.\<close>

definition reports :: "syscall list \<Rightarrow> (int \<times> int) list" where
  "reports cs = concat (map (\<lambda>c. case c of Send_int fd v \<Rightarrow> [(fd, v)] | _ \<Rightarrow> []) cs)"

lemma reports_append [simp]: "reports (cs @ ds) = reports cs @ reports ds"
  by (simp add: reports_def)

definition sent_to :: "int \<Rightarrow> world \<Rightarrow> world \<Rightarrow> int list" where
  "sent_to fd w w' = map snd (filter (\<lambda>r. fst r = fd) (reports (drop (length (calls w)) (calls w'))))"

lemma emit_simps [simp]:
  "calls (emit s w) = calls w @ [s]"
  "m_epollfd (emit s w) = m_epollfd w"
  "m_user_count (emit s w) = m_user_count w"
  by (simp_all add: emit_def)

section \<open>Epoll helpers\<close>

definition setnonblocking :: "os \<Rightarrow> int \<Rightarrow> world \<Rightarrow> flags \<times> world" where
  "setnonblocking os fd w =
     (let old_opt = os_getfl os fd;
          new_opt = old_opt OR O_NONBLOCK
      in (old_opt, emit (Fcntl_setfl fd new_opt) w))"

definition addfd :: "os \<Rightarrow> int \<Rightarrow> int \<Rightarrow> bool \<Rightarrow> world \<Rightarrow> world" where
  "addfd os epollfd fd one_shot w =
     (let events = EPOLLIN OR EPOLLET OR EPOLLRDHUP;
          events = (if one_shot then events OR EPOLLONESHOT else events)
      in snd (setnonblocking os fd (emit (Epoll_add epollfd fd events) w)))"

definition removefd :: "int \<Rightarrow> int \<Rightarrow> world \<Rightarrow> world" where
  "removefd epollfd fd w = emit (Close fd) (emit (Epoll_del epollfd fd) w)"

definition modfd :: "int \<Rightarrow> int \<Rightarrow> flags \<Rightarrow> world \<Rightarrow> world" where
  "modfd epollfd fd ev w =
     emit (Epoll_mod epollfd fd (ev OR EPOLLET OR EPOLLONESHOT OR EPOLLRDHUP)) w"

lemma modfd_simps [simp]:
  "m_epollfd (modfd e fd ev w) = m_epollfd w"
  "m_user_count (modfd e fd ev w) = m_user_count w"
  "calls (modfd e fd ev w) =
     calls w @ [Epoll_mod e fd (ev OR EPOLLET OR EPOLLONESHOT OR EPOLLRDHUP)]"
  by (simp_all add: modfd_def)

lemma addfd_simps [simp]:
  "m_epollfd (addfd os e fd b w) = m_epollfd w"
  "m_user_count (addfd os e fd b w) = m_user_count w"
  by (simp_all add: addfd_def setnonblocking_def Let_def)

lemma removefd_simps [simp]:
  "m_epollfd (removefd e fd w) = m_epollfd w"
  "m_user_count (removefd e fd w) = m_user_count w"
  "calls (removefd e fd w) = calls w @ [Epoll_del e fd, Close fd]"
  by (simp_all add: removefd_def)

section \<open>Initialisation and closing\<close>

text \<open>
  The private \<open>init()\<close>. It does not assign the file pointer, the file status or the I/O vector:
  they keep what an earlier request or the constructor (nothing) left there.
\<close>

definition init_request :: "http_conn \<Rightarrow> http_conn" where
  "init_request c = c\<lparr>
     m_check_state := CHECK_STATE_REQUESTLINE,
     m_linger := False,
     m_method := GET,
     m_url := None,
     m_version := None,
     m_content_length := 0,
     m_host := None,
     m_start_line := 0,
     m_checked_idx := 0,
     m_read_idx := 0,
     m_write_idx := 0,
     m_read_buf := replicate READ_BUFFER_SIZE NUL,
     m_write_buf := replicate WRITE_BUFFER_SIZE NUL,
     m_real_file := replicate FILENAME_LEN NUL\<rparr>"

definition init_conn :: "os \<Rightarrow> int \<Rightarrow> nat \<Rightarrow> http_conn \<Rightarrow> world \<Rightarrow> http_conn \<times> world" where
  "init_conn os sockfd addr c w =
     (let c = c\<lparr>m_sockfd := sockfd, m_address := addr\<rparr>;
          w = addfd os (m_epollfd w) sockfd True w;
          w = w\<lparr>m_user_count := m_user_count w + 1\<rparr>
      in (init_request c, w))"

definition close_conn :: "bool \<Rightarrow> http_conn \<Rightarrow> world \<Rightarrow> http_conn \<times> world" where
  "close_conn real_close c w =
     (if real_close \<and> m_sockfd c \<noteq> -1
      then (let w = removefd (m_epollfd w) (m_sockfd c) w
            in (c\<lparr>m_sockfd := -1\<rparr>, w\<lparr>m_user_count := m_user_count w - 1\<rparr>))
      else (c, w))"

section \<open>Concrete connections\<close>

text \<open>
  A connection that has received a text since its last init; and, for closed instances of the
  theorems, an object as the constructor leaves it (the values stand for indeterminate ones).
\<close>

definition raw_conn :: http_conn where
  "raw_conn = \<lparr>m_sockfd = -1, m_address = 0, m_read_buf = replicate READ_BUFFER_SIZE NUL,
     m_read_idx = 0, m_checked_idx = 0, m_start_line = 0,
     m_write_buf = replicate WRITE_BUFFER_SIZE NUL, m_write_idx = 0,
     m_check_state = CHECK_STATE_REQUESTLINE, m_method = GET,
     m_real_file = replicate FILENAME_LEN NUL, m_url = None, m_version = None, m_host = None,
     m_content_length = 0, m_linger = False, m_file_address = MUninit,
     m_file_state = \<lparr>st_mode = 0, st_size = 0\<rparr>,
     m_iv = [\<lparr>iov_base = IovUninit, iov_len = 0\<rparr>, \<lparr>iov_base = IovUninit, iov_len = 0\<rparr>],
     m_iv_count = 0\<rparr>"

definition received :: "http_conn \<Rightarrow> char list \<Rightarrow> http_conn" where
  "received c s = (init_request c)\<lparr>
     m_read_buf := s @ replicate (READ_BUFFER_SIZE - length s) NUL,
     m_read_idx := int (length s)\<rparr>"

definition conn_with :: "char list \<Rightarrow> http_conn" where
  "conn_with s = received raw_conn s"

definition sample_os :: os where
  "sample_os = \<lparr>os_getfl = (\<lambda>_. 0), os_stat = (\<lambda>_. Some \<lparr>st_mode = 4, st_size = 10\<rparr>),
     os_open = (\<lambda>_. 9), os_mmap = (\<lambda>_ _. Mapped 1)\<rparr>"

definition sample_world :: world where
  "sample_world = \<lparr>m_epollfd = 5, m_user_count = 0, calls = []\<rparr>"

end
