(* ===== verification/Http_Parser.thy ===== *)
theory Http_Parser
  imports Http_Types
begin

text \<open>
  Reading and parsing a request: \<open>read\<close>, \<open>parse_line\<close>, \<open>parse_request_line\<close>,
  \<open>parse_headers\<close>, \<open>parse_content\<close>, \<open>do_request\<close> and the driver \<open>process_read\<close> of
  \<^verbatim>\<open>src/src/httpConn/http_conn.cpp\<close>, followed by their lemmas; the properties of the parser are in Http\_Request.
  A result is \<open>Inl\<close> of an undefined behaviour or \<open>Inr\<close> of the returned value and the new
  state; the two loops that need not end return None when they do not.
\<close>

section \<open>The model\<close>

subsection \<open>read\<close>

partial_function (option) read_loop ::
  "recv_fun \<Rightarrow> nat \<Rightarrow> http_conn \<Rightarrow> (bool \<times> http_conn) res option" where
  "read_loop recv k c =
     (case recv k (nat (int READ_BUFFER_SIZE - m_read_idx c)) of
        Recv_again \<Rightarrow> Some (Inr (True, c))
      | Recv_error \<Rightarrow> Some (Inr (False, c))
      | Recv_eof \<Rightarrow> Some (Inr (False, c))
      | Recv_bytes bs \<Rightarrow>
          (case put_bytes (m_read_buf c) (m_read_idx c) bs of
             Inl e \<Rightarrow> Some (Inl e)
           | Inr b \<Rightarrow> read_loop recv (Suc k)
               (c\<lparr>m_read_buf := b, m_read_idx := m_read_idx c + int (length bs)\<rparr>)))"

declare read_loop.simps [code]

definition read :: "recv_fun \<Rightarrow> http_conn \<Rightarrow> (bool \<times> http_conn) res option" where
  "read recv c =
     (if m_read_idx c \<ge> int READ_BUFFER_SIZE then Some (Inr (False, c)) else read_loop recv 0 c)"

subsection \<open>parse\_line\<close>

function parse_line :: "http_conn \<Rightarrow> (LINE_STATUS \<times> http_conn) res" where
  "parse_line c =
     (if m_checked_idx c < m_read_idx c then
        bind_res (bget (m_read_buf c) (m_checked_idx c)) (\<lambda>temp.
          if temp = CR then
            (if m_checked_idx c + 1 = m_read_idx c then Inr (LINE_OPEN, c)
             else bind_res (bget (m_read_buf c) (m_checked_idx c + 1)) (\<lambda>d.
               if d = LF then
                 bind_res (bset (m_read_buf c) (m_checked_idx c - 1) NUL) (\<lambda>b1.
                 bind_res (bset b1 (m_checked_idx c) NUL) (\<lambda>b2.
                   Inr (LINE_OK, c\<lparr>m_read_buf := b2, m_checked_idx := m_checked_idx c + 1\<rparr>)))
               else Inr (LINE_BAD, c)))
          else if temp = LF then
            bind_res (if m_checked_idx c > 1
                      then map_res (\<lambda>d. d = CR) (bget (m_read_buf c) (m_checked_idx c - 1))
                      else Inr False) (\<lambda>after_cr.
              if after_cr then
                 bind_res (bset (m_read_buf c) (m_checked_idx c - 1) NUL) (\<lambda>b1.
                 bind_res (bset b1 (m_checked_idx c) NUL) (\<lambda>b2.
                   Inr (LINE_OK, c\<lparr>m_read_buf := b2, m_checked_idx := m_checked_idx c + 1\<rparr>)))
              else Inr (LINE_BAD, c))
          else parse_line (c\<lparr>m_checked_idx := m_checked_idx c + 1\<rparr>))
      else Inr (LINE_OPEN, c))"
  by pat_completeness auto
termination
  by (relation "measure (\<lambda>c. nat (m_read_idx c - m_checked_idx c))") auto

declare parse_line.simps [simp del]

subsection \<open>parse\_request\_line\<close>

definition blank :: "char list" where "blank = [SP, TAB]"

definition parse_request_line :: "http_conn \<Rightarrow> int \<Rightarrow> (HTTP_CODE \<times> http_conn) res" where
  "parse_request_line c text =
     bind_res (strpbrk (m_read_buf c) text blank) (\<lambda>p. case p of
       None \<Rightarrow> Inr (BAD_REQUEST, c\<lparr>m_url := None\<rparr>)
     | Some sp \<Rightarrow>
     bind_res (bset (m_read_buf c) sp NUL) (\<lambda>b1.
     let url = sp + 1; c1 = c\<lparr>m_read_buf := b1, m_url := Some url\<rparr> in
     bind_res (strcasecmp_eq b1 text ''GET'') (\<lambda>is_get.
     if \<not> is_get then Inr (BAD_REQUEST, c1) else
     let c2 = c1\<lparr>m_method := GET\<rparr> in
     bind_res (strspn b1 url blank) (\<lambda>n.
     let url = url + n; c3 = c2\<lparr>m_url := Some url\<rparr> in
     bind_res (strpbrk b1 url blank) (\<lambda>q. case q of
       None \<Rightarrow> Inr (BAD_REQUEST, c3\<lparr>m_version := None\<rparr>)
     | Some sp2 \<Rightarrow>
     bind_res (bset b1 sp2 NUL) (\<lambda>b2.
     bind_res (strspn b2 (sp2 + 1) blank) (\<lambda>m.
     let version = sp2 + 1 + m;
         c4 = c3\<lparr>m_read_buf := b2, m_version := Some version\<rparr> in
     bind_res (strcasecmp_eq b2 version ''HTTP/1.1'') (\<lambda>is_11.
     if \<not> is_11 then Inr (BAD_REQUEST, c4) else
     bind_res (strncasecmp_eq b2 url ''http://'' 7) (\<lambda>absolute.
     bind_res (if absolute then strchr b2 (url + 7) (CHR ''/'') else Inr (Some url)) (\<lambda>u.
     let c5 = c4\<lparr>m_url := u\<rparr> in
     case u of
       None \<Rightarrow> Inr (BAD_REQUEST, c5)
     | Some v \<Rightarrow>
     bind_res (bget b2 v) (\<lambda>d.
     if d \<noteq> CHR ''/'' then Inr (BAD_REQUEST, c5)
     else Inr (NO_REQUEST, c5\<lparr>m_check_state := CHECK_STATE_HEADER\<rparr>))))))))))))"

subsection \<open>parse\_headers and parse\_content\<close>

definition parse_headers :: "http_conn \<Rightarrow> int \<Rightarrow> (HTTP_CODE \<times> http_conn) res" where
  "parse_headers c text =
     bind_res (bget (m_read_buf c) text) (\<lambda>d.
     if d = NUL then
       (if m_content_length c \<noteq> 0
        then Inr (NO_REQUEST, c\<lparr>m_check_state := CHECK_STATE_CONTENT\<rparr>)
        else Inr (GET_REQUEST, c))
     else
     bind_res (strncasecmp_eq (m_read_buf c) text ''Connection:'' 11) (\<lambda>is_conn.
     if is_conn then
       bind_res (strspn (m_read_buf c) (text + 11) [TAB]) (\<lambda>n.
       bind_res (strcasecmp_eq (m_read_buf c) (text + 11 + n) ''keep-alive'') (\<lambda>keep.
       Inr (NO_REQUEST, if keep then c\<lparr>m_linger := True\<rparr> else c)))
     else
     bind_res (strncasecmp_eq (m_read_buf c) text ''Content-Length:'' 15) (\<lambda>is_len.
     if is_len then
       bind_res (strspn (m_read_buf c) (text + 15) blank) (\<lambda>n.
       bind_res (atol (m_read_buf c) (text + 15 + n)) (\<lambda>v.
       Inr (NO_REQUEST, c\<lparr>m_content_length := int_of_long v\<rparr>)))
     else
     bind_res (strncasecmp_eq (m_read_buf c) text ''Host:'' 5) (\<lambda>is_host.
     if is_host then
       bind_res (strspn (m_read_buf c) (text + 5) blank) (\<lambda>n.
       Inr (NO_REQUEST, c\<lparr>m_host := Some (text + 5 + n)\<rparr>))
     else
       bind_res (cstr (m_read_buf c) text) (\<lambda>_. Inr (NO_REQUEST, c))))))"

definition parse_content :: "http_conn \<Rightarrow> int \<Rightarrow> (HTTP_CODE \<times> http_conn) res" where
  "parse_content c text =
     bind_res (add_int (m_content_length c) (m_checked_idx c)) (\<lambda>need.
     if m_read_idx c \<ge> need
     then bind_res (bset (m_read_buf c) (text + m_content_length c) NUL) (\<lambda>b.
            Inr (GET_REQUEST, c\<lparr>m_read_buf := b\<rparr>))
     else Inr (NO_REQUEST, c))"

subsection \<open>do\_request\<close>

definition doc_root :: "char list" where "doc_root = ''/var/www/html''"

definition null_or :: "int option \<Rightarrow> int res" where
  "null_or p = (case p of None \<Rightarrow> Inl NullDeref | Some i \<Rightarrow> Inr i)"

definition do_request ::
  "os \<Rightarrow> http_conn \<Rightarrow> world \<Rightarrow> (HTTP_CODE \<times> http_conn \<times> world) res" where
  "do_request os c w =
     bind_res (strcpy_lit (m_real_file c) 0 doc_root) (\<lambda>f1.
     let len = length doc_root in
     bind_res (null_or (m_url c)) (\<lambda>url.
     bind_res (strncpy f1 (int len) (m_read_buf c) url (FILENAME_LEN - len - 1)) (\<lambda>f2.
     let c1 = c\<lparr>m_real_file := f2\<rparr> in
     bind_res (cstr f2 0) (\<lambda>path.
     case os_stat os path of
       None \<Rightarrow> Inr (NO_RESOURCE, c1, w)
     | Some st \<Rightarrow>
     let c2 = c1\<lparr>m_file_state := st\<rparr> in
     if st_mode st AND S_IROTH = 0 then Inr (FORBIDDEN_REQUEST, c2, w)
     else if S_ISDIR (st_mode st) then Inr (BAD_REQUEST, c2, w)
     else let fd = os_open os path;
              c3 = c2\<lparr>m_file_address := os_mmap os (st_size st) fd\<rparr>
          in Inr (FILE_REQUEST, c3, emit (Close fd) w)))))"

subsection \<open>process\_read\<close>

text \<open>
  The loop condition of the source,
  \<^verbatim>\<open>((m_check_state == CHECK_STATE_CONTENT) && (line_status == LINE_OK)) ||
  ((line_status == parse_line()) == LINE_OK)\<close>: the second operand compares the truth value of
  \<^verbatim>\<open>line_status == parse_line()\<close> with the enumerator of value 0. It assigns nothing.
\<close>

definition loop_condition :: "LINE_STATUS \<Rightarrow> http_conn \<Rightarrow> (bool \<times> http_conn) res" where
  "loop_condition line_status c =
     (if m_check_state c = CHECK_STATE_CONTENT \<and> line_status = LINE_OK then Inr (True, c)
      else map_res (\<lambda>(st, c'). (c_bool (line_status = st) = line_status_value LINE_OK, c'))
             (parse_line c))"

text \<open>The body's first three statements: the line is read by printf as a terminated string.\<close>

definition take_line :: "http_conn \<Rightarrow> (int \<times> http_conn) res" where
  "take_line c =
     (let text = m_start_line c; c1 = c\<lparr>m_start_line := m_checked_idx c\<rparr>
      in bind_res (cstr (m_read_buf c1) text) (\<lambda>_. Inr (text, c1)))"

partial_function (option) process_read_loop ::
  "os \<Rightarrow> LINE_STATUS \<Rightarrow> http_conn \<Rightarrow> world \<Rightarrow> (HTTP_CODE \<times> http_conn \<times> world) res option" where
  "process_read_loop os line_status c w =
     (case loop_condition line_status c of
        Inl e \<Rightarrow> Some (Inl e)
      | Inr (enter, c1) \<Rightarrow>
        if \<not> enter then Some (Inr (NO_REQUEST, c1, w))
        else (case take_line c1 of
          Inl e \<Rightarrow> Some (Inl e)
        | Inr (text, c2) \<Rightarrow>
          (case m_check_state c2 of
             CHECK_STATE_REQUESTLINE \<Rightarrow>
               (case parse_request_line c2 text of
                  Inl e \<Rightarrow> Some (Inl e)
                | Inr (ret, c3) \<Rightarrow>
                    if ret = BAD_REQUEST then Some (Inr (BAD_REQUEST, c3, w))
                    else process_read_loop os line_status c3 w)
           | CHECK_STATE_HEADER \<Rightarrow>
               (case parse_headers c2 text of
                  Inl e \<Rightarrow> Some (Inl e)
                | Inr (ret, c3) \<Rightarrow>
                    if ret = BAD_REQUEST then Some (Inr (BAD_REQUEST, c3, w))
                    else if ret = GET_REQUEST then Some (do_request os c3 w)
                    else process_read_loop os line_status c3 w)
           | CHECK_STATE_CONTENT \<Rightarrow>
               (case parse_content c2 text of
                  Inl e \<Rightarrow> Some (Inl e)
                | Inr (ret, c3) \<Rightarrow>
                    if ret = GET_REQUEST then Some (do_request os c3 w)
                    else process_read_loop os LINE_OPEN c3 w))))"

declare process_read_loop.simps [code]

definition process_read ::
  "os \<Rightarrow> http_conn \<Rightarrow> world \<Rightarrow> (HTTP_CODE \<times> http_conn \<times> world) res option" where
  "process_read os c w = process_read_loop os LINE_OK c w"

section \<open>The parser's invariant and the line scan\<close>

definition conn_ok :: "http_conn \<Rightarrow> bool" where
  "conn_ok c \<longleftrightarrow> length (m_read_buf c) = READ_BUFFER_SIZE \<and>
     0 \<le> m_start_line c \<and> m_start_line c \<le> m_checked_idx c \<and> m_checked_idx c \<le> m_read_idx c \<and>
     m_read_idx c \<le> int READ_BUFFER_SIZE \<and>
     (\<forall>i. nat (m_read_idx c) \<le> i \<and> i < READ_BUFFER_SIZE \<longrightarrow> m_read_buf c ! i = NUL)"

lemma conn_ok_init: "conn_ok (init_request c)"
  by (simp add: conn_ok_def init_request_def)

lemma parse_line_skip:
  assumes "0 \<le> m_checked_idx c" and "m_checked_idx c \<le> k" and "k \<le> m_read_idx c"
    and "m_read_idx c \<le> int (length (m_read_buf c))"
    and "\<forall>i. m_checked_idx c \<le> int i \<and> int i < k \<longrightarrow> m_read_buf c ! i \<notin> {CR, LF}"
  shows "parse_line c = parse_line (c\<lparr>m_checked_idx := k\<rparr>)"
  using assms
proof (induction c rule: parse_line.induct)
  case (1 c)
  show ?case
  proof (cases "m_checked_idx c = k")
    case False
    with 1 have lt: "m_checked_idx c < k" by simp
    let ?t = "m_read_buf c ! nat (m_checked_idx c)"
    from 1 lt have g: "bget (m_read_buf c) (m_checked_idx c) = Inr ?t"
      by (simp add: bget_def)
    from "1.prems"(1,5) lt have t: "?t \<notin> {CR, LF}"
      by (metis int_nat_eq order_refl)
    from lt "1.prems"(3) g t have "parse_line c = parse_line (c\<lparr>m_checked_idx := m_checked_idx c + 1\<rparr>)"
      by (simp add: parse_line.simps [of c])
    also have "\<dots> = parse_line (c\<lparr>m_checked_idx := m_checked_idx c + 1\<rparr>\<lparr>m_checked_idx := k\<rparr>)"
      by (rule "1.IH" [of ?t]) (use "1.prems" lt g t in auto)
    finally show ?thesis by simp
  next
    case True
    then have "c\<lparr>m_checked_idx := k\<rparr> = c" by auto
    then show ?thesis by simp
  qed
qed


lemma parse_line_at_CR:
  assumes "conn_ok c" and "m_checked_idx c = int k" and "int k < m_read_idx c" and "m_read_buf c ! k = CR"
  shows "parse_line c =
    (if int k + 1 = m_read_idx c then Inr (LINE_OPEN, c)
     else if m_read_buf c ! (k + 1) \<noteq> LF then Inr (LINE_BAD, c)
     else if k = 0 then Inl OutOfBounds
     else Inr (LINE_OK, c\<lparr>m_read_buf := (m_read_buf c)[k - 1 := NUL, k := NUL], m_checked_idx := int k + 1\<rparr>))"
proof -
  have k: "nat (int k + 1) = k + 1" "nat (int k - 1) = k - 1" by auto
  from assms show ?thesis
    by (simp add: parse_line.simps [of c] bget_def bset_def conn_ok_def k READ_BUFFER_SIZE_def)
qed

lemma parse_line_at_LF:
  assumes "conn_ok c" and "m_checked_idx c = int k" and "int k < m_read_idx c" and "m_read_buf c ! k = LF"
  shows "parse_line c =
    (if 1 < k \<and> m_read_buf c ! (k - 1) = CR
     then Inr (LINE_OK, c\<lparr>m_read_buf := (m_read_buf c)[k - 1 := NUL, k := NUL], m_checked_idx := int k + 1\<rparr>)
     else Inr (LINE_BAD, c))"
proof -
  have k: "nat (int k - 1) = k - 1" by auto
  from assms show ?thesis
    by (simp add: parse_line.simps [of c] bget_def bset_def conn_ok_def k READ_BUFFER_SIZE_def)
qed

lemma parse_line_no_eol:
  assumes "conn_ok c"
    and "\<forall>i. m_checked_idx c \<le> int i \<and> int i < m_read_idx c \<longrightarrow> m_read_buf c ! i \<notin> {CR, LF}"
  shows "parse_line c = Inr (LINE_OPEN, c\<lparr>m_checked_idx := m_read_idx c\<rparr>)"
  using assms parse_line_skip [of c "m_read_idx c"] parse_line.simps [of "c\<lparr>m_checked_idx := m_read_idx c\<rparr>"]
  by (simp add: conn_ok_def)

lemma first_eol:
  assumes "0 \<le> lo" and "\<not> (\<forall>i. lo \<le> int i \<and> int i < hi \<longrightarrow> P i)"
  obtains k where "lo \<le> int k" and "int k < hi" and "\<not> P k" and "\<forall>i. lo \<le> int i \<and> i < k \<longrightarrow> P i"
proof -
  define Q where "Q i \<longleftrightarrow> lo \<le> int i \<and> int i < hi \<and> \<not> P i" for i
  define k where "k = (LEAST i. Q i)"
  from assms(2) obtain i where "Q i" by (auto simp: Q_def)
  then have k: "Q k" unfolding k_def by (rule LeastI)
  have less: "\<not> Q i" if "i < k" for i using that not_less_Least unfolding k_def by blast
  have "\<forall>i. lo \<le> int i \<and> i < k \<longrightarrow> P i"
  proof (intro allI impI)
    fix i
    assume i: "lo \<le> int i \<and> i < k"
    with k have "int i < hi" by (auto simp: Q_def)
    with i less show "P i" by (auto simp: Q_def)
  qed
  with k that show thesis by (auto simp: Q_def)
qed

text \<open>The scan stops at the end of the data or at the first CR or LF.\<close>

lemma parse_line_cases:
  assumes "conn_ok c"
  obtains (end_of_data)
      "\<forall>i. m_checked_idx c \<le> int i \<and> int i < m_read_idx c \<longrightarrow> m_read_buf c ! i \<notin> {CR, LF}"
      and "parse_line c = Inr (LINE_OPEN, c\<lparr>m_checked_idx := m_read_idx c\<rparr>)"
  | (line_end) k where "m_checked_idx c \<le> int k" and "int k < m_read_idx c"
      and "m_read_buf c ! k = CR \<or> m_read_buf c ! k = LF"
      and "conn_ok (c\<lparr>m_checked_idx := int k\<rparr>)"
      and "parse_line c = parse_line (c\<lparr>m_checked_idx := int k\<rparr>)"
proof (cases "\<forall>i. m_checked_idx c \<le> int i \<and> int i < m_read_idx c \<longrightarrow> m_read_buf c ! i \<notin> {CR, LF}")
  case True
  with assms show thesis by (intro end_of_data parse_line_no_eol) auto
next
  case False
  from assms have "0 \<le> m_checked_idx c" by (simp add: conn_ok_def)
  from first_eol [OF this False] obtain k where k: "m_checked_idx c \<le> int k" "int k < m_read_idx c"
    "m_read_buf c ! k \<in> {CR, LF}" "\<forall>i. m_checked_idx c \<le> int i \<and> i < k \<longrightarrow> m_read_buf c ! i \<notin> {CR, LF}"
    by metis
  from assms k have "conn_ok (c\<lparr>m_checked_idx := int k\<rparr>)" by (simp add: conn_ok_def)
  moreover from assms k have "parse_line c = parse_line (c\<lparr>m_checked_idx := int k\<rparr>)"
    by (intro parse_line_skip) (auto simp: conn_ok_def)
  ultimately show thesis using k line_end by blast
qed

lemma parse_line_frame:
  assumes "conn_ok c" and "parse_line c = Inr (st, c')"
  shows "c' = c\<lparr>m_read_buf := m_read_buf c', m_checked_idx := m_checked_idx c'\<rparr> \<and> conn_ok c' \<and>
    m_checked_idx c \<le> m_checked_idx c'"
  using assms(1)
proof (cases rule: parse_line_cases)
  case end_of_data
  with assms show ?thesis by (auto simp: conn_ok_def)
next
  case (line_end k)
  let ?c = "c\<lparr>m_checked_idx := int k\<rparr>"
  have upd: "conn_ok (?c\<lparr>m_read_buf := (m_read_buf c)[k - 1 := NUL, k := NUL], m_checked_idx := int k + 1\<rparr>)"
    using line_end by (auto simp: conn_ok_def nth_list_update)
  from line_end(3) show ?thesis
  proof
    assume "m_read_buf c ! k = CR"
    with line_end parse_line_at_CR [of ?c k] assms(2) upd show ?thesis by (auto split: if_splits)
  next
    assume "m_read_buf c ! k = LF"
    with line_end parse_line_at_LF [of ?c k] assms(2) upd show ?thesis by (auto split: if_splits)
  qed
qed

lemma parse_line_undefined:
  assumes "conn_ok c"
  shows "parse_line c = Inl e \<longleftrightarrow> e = OutOfBounds \<and>
    m_checked_idx c = 0 \<and> 2 \<le> m_read_idx c \<and> m_read_buf c ! 0 = CR \<and> m_read_buf c ! 1 = LF"
  using assms
proof (cases rule: parse_line_cases)
  case end_of_data
  have "m_checked_idx c = 0 \<Longrightarrow> 2 \<le> m_read_idx c \<Longrightarrow> m_read_buf c ! 0 \<noteq> CR"
    using end_of_data(1) by auto
  with end_of_data(2) show ?thesis by auto
next
  case (line_end k)
  let ?c = "c\<lparr>m_checked_idx := int k\<rparr>"
  have first: "m_checked_idx c = 0 \<Longrightarrow> m_read_buf c ! 0 = CR \<Longrightarrow> 2 \<le> m_read_idx c \<Longrightarrow> m_read_buf c ! 1 = LF \<Longrightarrow> parse_line c = Inl OutOfBounds"
    using parse_line_at_CR [of c 0] assms by simp
  have "0 \<le> m_checked_idx c" using assms by (simp add: conn_ok_def)
  with line_end(1) have k0: "k = 0 \<Longrightarrow> m_checked_idx c = 0" by simp
  from line_end(3) show ?thesis
  proof
    assume "m_read_buf c ! k = CR"
    with line_end parse_line_at_CR [of ?c k] first k0 show ?thesis by (auto split: if_splits)
  next
    assume "m_read_buf c ! k = LF"
    with line_end parse_line_at_LF [of ?c k] first k0 show ?thesis by (auto split: if_splits)
  qed
qed

section \<open>The request line\<close>

definition nonblank :: "char \<Rightarrow> bool" where "nonblank c \<longleftrightarrow> c \<notin> set blank"

definition same_word :: "char list \<Rightarrow> char list \<Rightarrow> bool" where
  "same_word s lit \<longleftrightarrow> map tolower s = map tolower lit"

definition origin_form :: "char list \<Rightarrow> char list" where
  "origin_form url =
     (if same_word (take 7 url) ''http://'' then dropWhile (\<lambda>c. c \<noteq> CHR ''/'') (drop 7 url) else url)"

definition request_target :: "char list \<Rightarrow> char list option" where
  "request_target s =
     (let mtd = takeWhile nonblank s;
          r1 = dropWhile nonblank s;
          r2 = dropWhile (\<lambda>c. \<not> nonblank c) r1;
          url = takeWhile nonblank r2;
          r3 = dropWhile nonblank r2;
          version = dropWhile (\<lambda>c. \<not> nonblank c) r3;
          target = origin_form url
      in if r1 = [] \<or> \<not> same_word mtd ''GET'' then None
         else if r3 = [] \<or> \<not> same_word version ''HTTP/1.1'' then None
         else if target = [] \<or> hd target \<noteq> CHR ''/'' then None
         else Some target)"

definition blanked :: "buf \<Rightarrow> buf \<Rightarrow> bool" where
  "blanked b b' \<longleftrightarrow> length b' = length b \<and>
     (\<forall>i < length b. b' ! i = b ! i \<or> b ! i \<in> set blank \<and> b' ! i = NUL)"

lemma blanked_refl: "blanked b b"
  by (simp add: blanked_def)

lemma blanked_step: "blanked b b' \<Longrightarrow> b' ! i \<in> set blank \<Longrightarrow> blanked b (b'[i := NUL])"
  by (cases "i < length b'") (auto simp: blanked_def nth_list_update blank_def list_update_beyond)

definition line_frame :: "http_conn \<Rightarrow> http_conn \<Rightarrow> bool" where
  "line_frame c c' \<longleftrightarrow>
     c' = c\<lparr>m_read_buf := m_read_buf c', m_method := m_method c', m_url := m_url c',
            m_version := m_version c', m_check_state := m_check_state c'\<rparr> \<and>
     blanked (m_read_buf c) (m_read_buf c')"

lemma takeWhile_hd_dropWhile:
  assumes "\<not> (\<forall>c \<in> set s. P c)"
  obtains d y where "s = takeWhile P s @ d # y" and "\<not> P d" and "dropWhile P s = d # y"
proof -
  from assms have "dropWhile P s \<noteq> []" by (simp add: dropWhile_eq_Nil_conv)
  then obtain d y where dy: "dropWhile P s = d # y" by (cases "dropWhile P s") auto
  then have "\<not> P d" using hd_dropWhile [of P s] by simp
  with dy that show thesis by (metis takeWhile_dropWhile_id)
qed

text \<open>The two cuts: the word before the first blank, and the rest behind the blanks.\<close>

lemma str_at_word:
  assumes "str_at b p s" and "\<not> (\<forall>c \<in> set s. nonblank c)"
  obtains b' q k where
      "strpbrk b p blank = Inr (Some q)" and "bset b q NUL = Inr b'" and "blanked b b'"
      and "str_at b' p (takeWhile nonblank s)"
      and "strspn b' (q + 1) blank = Inr k"
      and "str_at b' (q + 1 + k) (dropWhile (\<lambda>c. \<not> nonblank c) (dropWhile nonblank s))"
      and "p \<le> q" and "b' = b[nat q := NUL]" and "0 \<le> k"
proof -
  let ?x = "takeWhile nonblank s"
  obtain d y where s: "s = ?x @ d # y" and d: "\<not> nonblank d" and dw: "dropWhile nonblank s = d # y"
    using takeWhile_hd_dropWhile [OF assms(2)] by metis
  let ?q = "p + int (length ?x)"
  have at: "str_at b p (?x @ d # y)" using assms(1) s by simp
  obtain b' where b': "bset b ?q NUL = Inr b'" "b' = b[nat ?q := NUL]" "str_at b' p ?x" "str_at b' (?q + 1) y"
    using str_at_cut [OF at] by metis
  have p0: "0 \<le> p" using assms(1) by (simp add: str_at_def)
  have nth: "b ! nat ?q = d"
    using str_at_nth [OF at, of "length ?x"] p0 by (simp add: nth_append nat_add_distrib)
  have "blanked b b'"
    unfolding b'(2) using blanked_step [OF blanked_refl, of b "nat ?q"] nth d by (simp add: nonblank_def)
  moreover have "strpbrk b p blank = Inr (Some ?q)"
  proof -
    have "set s \<inter> set blank \<noteq> {}" using assms(2) by (auto simp: nonblank_def)
    then show ?thesis using strpbrk_str [OF assms(1)] by (simp add: nonblank_def [abs_def])
  qed
  moreover have k: "strspn b' (?q + 1) blank = Inr (int (length (takeWhile (\<lambda>c. \<not> nonblank c) y)))"
    using strspn_str [OF b'(4)] by (simp add: nonblank_def)
  moreover have "str_at b' (?q + 1 + int (length (takeWhile (\<lambda>c. \<not> nonblank c) y)))
      (dropWhile (\<lambda>c. \<not> nonblank c) (dropWhile nonblank s))"
  proof -
    have "dropWhile (\<lambda>c. \<not> nonblank c) (dropWhile nonblank s) = dropWhile (\<lambda>c. \<not> nonblank c) y"
      using d dw by simp
    also have "\<dots> = drop (length (takeWhile (\<lambda>c. \<not> nonblank c) y)) y"
      by (rule dropWhile_eq_drop)
    finally show ?thesis
      by (metis b'(4) length_takeWhile_le str_at_dropn)
  qed
  ultimately show thesis using that b' by auto
qed

lemma strpbrk_none:
  assumes "str_at b p s" and "\<forall>c \<in> set s. nonblank c"
  shows "strpbrk b p blank = Inr None"
  using strpbrk_str [OF assms(1)] assms(2) by (auto simp: nonblank_def)

lemma blanked_trans: "blanked a b \<Longrightarrow> blanked b c \<Longrightarrow> blanked a c"
  by (force simp: blanked_def blank_def)

lemma origin_form_at:
  assumes "str_at b p url"
  shows "\<exists>u. bind_res (strncasecmp_eq b p ''http://'' 7)
       (\<lambda>absolute. if absolute then strchr b (p + 7) (CHR ''/'') else Inr (Some p)) = Inr u \<and>
     (case u of None \<Rightarrow> origin_form url = []
      | Some v \<Rightarrow> str_at b v (origin_form url))"
proof (cases "same_word (take 7 url) ''http://''")
  case False
  then show ?thesis using strncasecmp_str [OF assms, of 7 "''http://''"] assms
    by (simp add: same_word_def origin_form_def)
next
  case True
  then have "length (take 7 url) = length ''http://''"
    unfolding same_word_def by (rule map_eq_imp_length_eq)
  then have len: "7 \<le> length url" by simp
  have at: "str_at b (p + 7) (drop 7 url)" using str_at_dropn [OF assms len] by simp
  let ?x = "takeWhile (\<lambda>c. c \<noteq> CHR ''/'') (drop 7 url)"
  have "dropWhile (\<lambda>c. c \<noteq> CHR ''/'') (drop 7 url) = drop (length ?x) (drop 7 url)"
    by (rule dropWhile_eq_drop)
  then have "str_at b (p + 7 + int (length ?x)) (dropWhile (\<lambda>c. c \<noteq> CHR ''/'') (drop 7 url))"
    by (metis at length_takeWhile_le str_at_dropn)
  then show ?thesis using strncasecmp_str [OF assms, of 7 "''http://''"] strchr_str [OF at] True
    by (auto simp: same_word_def origin_form_def dropWhile_eq_Nil_conv)
qed

lemma dropWhile_Nil_iff: "dropWhile P s = [] \<longleftrightarrow> (\<forall>c \<in> set s. P c)"
  by (rule dropWhile_eq_Nil_conv)


lemma parse_request_line_correct:
  assumes at: "str_at (m_read_buf c) text s"
  shows "\<exists>ret c'. parse_request_line c text = Inr (ret, c') \<and> line_frame c c' \<and>
    (case request_target s of
       None \<Rightarrow> ret = BAD_REQUEST \<and> m_check_state c' = m_check_state c
     | Some u \<Rightarrow> ret = NO_REQUEST \<and> m_check_state c' = CHECK_STATE_HEADER \<and> m_method c' = GET \<and>
         (\<exists>v. m_url c' = Some v \<and> str_at (m_read_buf c') v u))"
proof (cases "\<forall>c \<in> set s. nonblank c")
  case True
  then have "request_target s = None"
    by (simp add: request_target_def dropWhile_Nil_iff Let_def)
  then show ?thesis using strpbrk_none [OF at True]
    by (simp add: parse_request_line_def line_frame_def blanked_refl)
next
  case False
  let ?mtd = "takeWhile nonblank s" and ?r2 = "dropWhile (\<lambda>c. \<not> nonblank c) (dropWhile nonblank s)"
  obtain b1 q k where 1: "strpbrk (m_read_buf c) text blank = Inr (Some q)"
      "bset (m_read_buf c) q NUL = Inr b1" "blanked (m_read_buf c) b1"
      "str_at b1 text ?mtd" "strspn b1 (q + 1) blank = Inr k" "str_at b1 (q + 1 + k) ?r2"
    using str_at_word [OF at False] by metis
  have r1: "dropWhile nonblank s \<noteq> []" using False by (simp add: dropWhile_Nil_iff)
  have get: "strcasecmp_eq b1 text ''GET'' = Inr (same_word ?mtd ''GET'')"
    using strcasecmp_str [OF 1(4)] by (simp add: same_word_def)
  show ?thesis
  proof (cases "same_word ?mtd ''GET'' \<and> \<not> (\<forall>c \<in> set ?r2. nonblank c)")
    case False
    then have "\<not> same_word ?mtd ''GET'' \<or> dropWhile nonblank ?r2 = []"
      by (simp only: dropWhile_Nil_iff) blast
    then have rt: "request_target s = None"
      by (elim disjE) (simp_all only: request_target_def Let_def simp_thms if_True if_cancel)
    show ?thesis
    proof (cases "same_word ?mtd ''GET''")
      case True
      with False have "\<forall>c \<in> set ?r2. nonblank c" by blast
      note none = strpbrk_none [OF 1(6) this]
      show ?thesis
        by (simp add: parse_request_line_def line_frame_def Let_def rt none 1(1,2,3,5) get True)
    next
      case False
      then show ?thesis
        by (simp add: parse_request_line_def line_frame_def Let_def rt 1(1,2,3) get)
    qed
  next
    case True
    let ?url = "takeWhile nonblank ?r2"
    let ?version = "dropWhile (\<lambda>c. \<not> nonblank c) (dropWhile nonblank ?r2)"
    obtain b2 q2 k2 where 2: "strpbrk b1 (q + 1 + k) blank = Inr (Some q2)"
        "bset b1 q2 NUL = Inr b2" "blanked b1 b2" "str_at b2 (q + 1 + k) ?url"
        "strspn b2 (q2 + 1) blank = Inr k2" "str_at b2 (q2 + 1 + k2) ?version"
      using str_at_word [OF 1(6)] True by metis
    from True have mt: "same_word ?mtd ''GET''" by blast
    have bl: "blanked (m_read_buf c) b2" using 1(3) 2(3) by (rule blanked_trans)
    have ver: "strcasecmp_eq b2 (q2 + 1 + k2) ''HTTP/1.1'' = Inr (same_word ?version ''HTTP/1.1'')"
      using strcasecmp_str [OF 2(6)] by (simp add: same_word_def)
    have r3: "dropWhile nonblank ?r2 \<noteq> []" using True by (simp only: dropWhile_Nil_iff) blast
    obtain u where u: "bind_res (strncasecmp_eq b2 (q + 1 + k) ''http://'' 7)
       (\<lambda>absolute. if absolute then strchr b2 (q + 1 + k + 7) (CHR ''/'') else Inr (Some (q + 1 + k))) = Inr u"
      and uo: "case u of None \<Rightarrow> origin_form ?url = [] | Some v \<Rightarrow> str_at b2 v (origin_form ?url)"
      using origin_form_at [OF 2(4)] by blast
    from u obtain ab where ab: "strncasecmp_eq b2 (q + 1 + k) ''http://'' 7 = Inr ab"
      "(if ab then strchr b2 (q + 1 + k + 7) (CHR ''/'') else Inr (Some (q + 1 + k))) = Inr u"
      by (rule bind_res_InrE)
    have target: "request_target s =
       (if \<not> same_word ?version ''HTTP/1.1'' \<or> origin_form ?url = [] \<or> hd (origin_form ?url) \<noteq> CHR ''/''
        then None else Some (origin_form ?url))"
      using r1 r3 mt by (simp only: request_target_def Let_def simp_thms if_False split: if_split) blast
    show ?thesis
    proof (cases u)
      case None
      with uo have o: "origin_form ?url = []" by simp
      show ?thesis
        by (simp add: parse_request_line_def line_frame_def Let_def target o 1(1,2,5) 2(1,2,5) bl
            get ver ab mt None del: if_split)
    next
      case (Some v)
      with uo have "str_at b2 v (origin_form ?url)" by simp
      note o = this and hd = str_at_bget_hd [OF this]
      show ?thesis
        by (simp add: parse_request_line_def line_frame_def Let_def target o hd 1(1,2,5) 2(1,2,5) bl
            get ver ab mt Some)
    qed
  qed
qed

section \<open>Headers, and scanning a line twice\<close>

lemma conn_ok_received: "length s \<le> READ_BUFFER_SIZE \<Longrightarrow> conn_ok (received c s)"
  by (auto simp: conn_ok_def received_def init_request_def nth_append)

text \<open>Where a scan that finds no line stops, and that scanning again from there gives the same.\<close>

definition stops_at :: "LINE_STATUS \<Rightarrow> http_conn \<Rightarrow> nat \<Rightarrow> bool" where
  "stops_at st c k \<longleftrightarrow>
     (st = LINE_OPEN \<and> int k = m_read_idx c) \<or>
     (st = LINE_OPEN \<and> int k + 1 = m_read_idx c \<and> m_read_buf c ! k = CR) \<or>
     (st = LINE_BAD \<and> int k + 1 < m_read_idx c \<and> m_read_buf c ! k = CR \<and> m_read_buf c ! (k + 1) \<noteq> LF) \<or>
     (st = LINE_BAD \<and> int k < m_read_idx c \<and> m_read_buf c ! k = LF \<and>
        \<not> (1 < k \<and> m_read_buf c ! (k - 1) = CR))"

lemma stops_at_CR_LF:
  "stops_at st c k \<Longrightarrow> int k \<noteq> m_read_idx c \<Longrightarrow>
   int k < m_read_idx c \<and> (m_read_buf c ! k = CR \<or> m_read_buf c ! k = LF)"
  by (auto simp: stops_at_def)

lemma parse_line_not_ok:
  assumes "conn_ok c" and "parse_line c = Inr (st, c1)" and "st \<noteq> LINE_OK"
  obtains k where "c1 = c\<lparr>m_checked_idx := int k\<rparr>" and "stops_at st c k"
  using assms(1)
proof (cases rule: parse_line_cases)
  case end_of_data
  have "int (nat (m_read_idx c)) = m_read_idx c" using assms(1) by (simp add: conn_ok_def)
  with end_of_data assms that [of "nat (m_read_idx c)"] show thesis
    by (simp add: stops_at_def)
next
  case (line_end k)
  let ?c = "c\<lparr>m_checked_idx := int k\<rparr>"
  from line_end(3) show thesis
  proof
    assume "m_read_buf c ! k = CR"
    with line_end parse_line_at_CR [of ?c k] assms that [of k] show ?thesis by (auto simp: stops_at_def split: if_splits)
  next
    assume "m_read_buf c ! k = LF"
    with line_end parse_line_at_LF [of ?c k] assms that [of k] show ?thesis by (auto simp: stops_at_def split: if_splits)
  qed
qed

lemma blanked_nth:
  assumes "blanked b b'" and "i < length b" and "b ! i \<notin> set blank"
  shows "b' ! i = b ! i"
  using assms by (auto simp: blanked_def)

lemma blanked_nth_neq:
  assumes "blanked b b'" and "i < length b" and "b ! i \<noteq> d" and "d \<noteq> NUL"
  shows "b' ! i \<noteq> d"
  using assms by (auto simp: blanked_def)

lemma parse_line_again:
  assumes "conn_ok c" and "parse_line c = Inr (st, c1)" and "st \<noteq> LINE_OK"
    and "conn_ok c2" and "blanked (m_read_buf c) (m_read_buf c2)"
    and "m_read_idx c2 = m_read_idx c" and "m_checked_idx c2 = m_checked_idx c1"
  shows "parse_line c2 = Inr (st, c2)"
proof -
  obtain k where "c1 = c\<lparr>m_checked_idx := int k\<rparr>" and alt: "stops_at st c k"
    by (rule parse_line_not_ok [OF assms(1,2,3)])
  then have k: "m_checked_idx c2 = int k" using assms(7) by simp
  have len: "m_read_idx c \<le> int (length (m_read_buf c))" using assms(1) by (simp add: conn_ok_def)
  have nb: "CR \<notin> set blank" "LF \<notin> set blank" by (auto simp: blank_def)
  from alt show ?thesis unfolding stops_at_def
  proof (elim disjE conjE)
    assume "st = LINE_OPEN" "int k = m_read_idx c"
    then show ?thesis using parse_line.simps [of c2] assms(6) k by simp
  next
    assume *: "st = LINE_OPEN" "int k + 1 = m_read_idx c" "m_read_buf c ! k = CR"
    then have "m_read_buf c2 ! k = CR" using blanked_nth [OF assms(5), of k] len nb by simp
    then show ?thesis using parse_line_at_CR [OF assms(4) k] * assms(6) by simp
  next
    assume *: "st = LINE_BAD" "int k + 1 < m_read_idx c" "m_read_buf c ! k = CR" "m_read_buf c ! (k + 1) \<noteq> LF"
    then have "m_read_buf c2 ! k = CR" "m_read_buf c2 ! (k + 1) \<noteq> LF"
      using blanked_nth [OF assms(5), of k] blanked_nth_neq [OF assms(5), of "k + 1" LF] len nb by simp_all
    then show ?thesis using parse_line_at_CR [OF assms(4) k] * assms(6) by simp
  next
    assume *: "st = LINE_BAD" "int k < m_read_idx c" "m_read_buf c ! k = LF" "\<not> (1 < k \<and> m_read_buf c ! (k - 1) = CR)"
    then have "m_read_buf c2 ! k = LF"
      using blanked_nth [OF assms(5), of k] len nb by simp
    moreover have "\<not> (1 < k \<and> m_read_buf c2 ! (k - 1) = CR)"
      using * blanked_nth_neq [OF assms(5), of "k - 1" CR] len by auto
    ultimately show ?thesis using parse_line_at_LF [OF assms(4) k] * assms(6) by auto
  qed
qed

lemma str_at_data:
  assumes "conn_ok c" and "m_read_idx c < int READ_BUFFER_SIZE" and "0 \<le> p" and "p \<le> m_read_idx c"
  obtains s where "str_at (m_read_buf c) p s"
proof (rule str_at_exists [of p "nat (m_read_idx c)" "m_read_buf c"])
  show "0 \<le> p" "nat p \<le> nat (m_read_idx c)" using assms by simp_all
  show "nat (m_read_idx c) < length (m_read_buf c)" "m_read_buf c ! nat (m_read_idx c) = NUL"
    using assms by (auto simp: conn_ok_def)
qed (use that in blast)

lemma str_at_empty: "str_at b p s \<Longrightarrow> b ! nat p = NUL \<longleftrightarrow> s = []"
proof -
  assume at: "str_at b p s"
  show ?thesis
  proof (cases s)
    case Nil
    then show ?thesis using str_at_end [OF at] by simp
  next
    case (Cons d ds)
    then show ?thesis using str_at_nth [OF at, of 0] at by (auto simp: str_at_def)
  qed
qed

text \<open>What parse\_headers does with a header line, over the line as a string.\<close>

lemma parse_headers_str:
  assumes at: "str_at (m_read_buf c) text s"
  shows "parse_headers c text =
    (if s = [] then
       (if m_content_length c \<noteq> 0 then Inr (NO_REQUEST, c\<lparr>m_check_state := CHECK_STATE_CONTENT\<rparr>)
        else Inr (GET_REQUEST, c))
     else if same_word (take 11 s) ''Connection:'' then
       Inr (NO_REQUEST,
         if same_word (dropWhile (\<lambda>d. d = TAB) (drop 11 s)) ''keep-alive''
         then c\<lparr>m_linger := True\<rparr> else c)
     else if same_word (take 15 s) ''Content-Length:'' then
       bind_res (atol (m_read_buf c)
           (text + 15 + int (length (takeWhile (\<lambda>d. \<not> nonblank d) (drop 15 s)))))
         (\<lambda>v. Inr (NO_REQUEST, c\<lparr>m_content_length := int_of_long v\<rparr>))
     else if same_word (take 5 s) ''Host:'' then
       Inr (NO_REQUEST,
         c\<lparr>m_host := Some (text + 5 + int (length (takeWhile (\<lambda>d. \<not> nonblank d) (drop 5 s))))\<rparr>)
     else Inr (NO_REQUEST, c))"
proof -
  have len: "n \<le> length s" if "same_word (take n s) lit" "length lit = n" for n lit
    using that map_eq_imp_length_eq unfolding same_word_def by fastforce
  have cmp: "strncasecmp_eq (m_read_buf c) text lit n = Inr (same_word (take n s) lit)"
    if "length lit = n" for lit n
    using strncasecmp_str [OF at, of n lit] that by (simp add: same_word_def)
  have conn: "bind_res (strspn (m_read_buf c) (text + 11) [TAB]) (\<lambda>n.
       bind_res (strcasecmp_eq (m_read_buf c) (text + 11 + n) ''keep-alive'') (\<lambda>keep.
       Inr (NO_REQUEST, if keep then c\<lparr>m_linger := True\<rparr> else c))) =
      Inr (NO_REQUEST, if same_word (dropWhile (\<lambda>d. d = TAB) (drop 11 s)) ''keep-alive''
         then c\<lparr>m_linger := True\<rparr> else c)"
    if "11 \<le> length s"
  proof -
    have a1: "str_at (m_read_buf c) (text + 11) (drop 11 s)" using str_at_dropn [OF at that] by simp
    let ?n = "length (takeWhile (\<lambda>d. d = TAB) (drop 11 s))"
    have "dropWhile (\<lambda>d. d = TAB) (drop 11 s) = drop ?n (drop 11 s)" by (rule dropWhile_eq_drop)
    then have a2: "str_at (m_read_buf c) (text + 11 + int ?n) (dropWhile (\<lambda>d. d = TAB) (drop 11 s))"
      by (metis a1 length_takeWhile_le str_at_dropn)
    show ?thesis using strspn_str [OF a1, of "[TAB]"] strcasecmp_str [OF a2]
      by (simp add: same_word_def)
  qed
  have spn: "strspn (m_read_buf c) (text + int n) blank =
      Inr (int (length (takeWhile (\<lambda>d. \<not> nonblank d) (drop n s))))" if "n \<le> length s" for n
    using strspn_str [OF str_at_dropn [OF at that refl], of blank] by (simp add: nonblank_def)
  note cmps = cmp [of "''Connection:''" 11, simplified] cmp [of "''Content-Length:''" 15, simplified]
    cmp [of "''Host:''" 5, simplified]
  show ?thesis
  proof (cases "s = []")
    case True
    then show ?thesis using str_at_bget_hd [OF at] by (simp add: parse_headers_def)
  next
    case False
    then have "hd s \<noteq> NUL" using at by (metis hd_in_set str_at_def)
    with False have "parse_headers c text =
        (if same_word (take 11 s) ''Connection:'' then
           bind_res (strspn (m_read_buf c) (text + 11) [TAB]) (\<lambda>n.
           bind_res (strcasecmp_eq (m_read_buf c) (text + 11 + n) ''keep-alive'') (\<lambda>keep.
           Inr (NO_REQUEST, if keep then c\<lparr>m_linger := True\<rparr> else c)))
         else if same_word (take 15 s) ''Content-Length:'' then
           bind_res (strspn (m_read_buf c) (text + 15) blank) (\<lambda>n.
           bind_res (atol (m_read_buf c) (text + 15 + n)) (\<lambda>v.
           Inr (NO_REQUEST, c\<lparr>m_content_length := int_of_long v\<rparr>)))
         else if same_word (take 5 s) ''Host:'' then
           bind_res (strspn (m_read_buf c) (text + 5) blank) (\<lambda>n.
           Inr (NO_REQUEST, c\<lparr>m_host := Some (text + 5 + n)\<rparr>))
         else Inr (NO_REQUEST, c))"
      using str_at_bget_hd [OF at] cstr_str [OF at]
      by (simp only: parse_headers_def cmps bind_res_simps if_False if_cancel) 
    then show ?thesis
      using False conn len [of 11 "''Connection:''"] len [of 15 "''Content-Length:''"] len [of 5 "''Host:''"]
        spn [of 15] spn [of 5]
      by (simp split del: if_split cong: if_cong)
  qed
qed

lemma parse_headers_line_end:
  assumes at: "str_at (m_read_buf c) text s" and "s \<noteq> []" and "hd s = CR \<or> hd s = LF"
  shows "parse_headers c text = Inr (NO_REQUEST, c)"
proof -
  obtain d ds where s: "s = d # ds" and d: "d = CR \<or> d = LF"
    using assms(2,3) by (cases s) auto
  have "tolower CR \<noteq> tolower (CHR ''C'')" "tolower CR \<noteq> tolower (CHR ''H'')"
    "tolower LF \<noteq> tolower (CHR ''C'')" "tolower LF \<noteq> tolower (CHR ''H'')" by code_simp+
  with d have "tolower d \<noteq> tolower (CHR ''C'')" "tolower d \<noteq> tolower (CHR ''H'')" by auto
  then show ?thesis by (simp add: parse_headers_str [OF at] same_word_def s)
qed

definition stuck :: "http_conn \<Rightarrow> bool" where
  "stuck c \<longleftrightarrow> conn_ok c \<and> m_read_idx c < int READ_BUFFER_SIZE \<and>
     m_check_state c = CHECK_STATE_HEADER \<and> m_start_line c = m_checked_idx c \<and>
     m_checked_idx c < m_read_idx c \<and>
     m_read_buf c ! nat (m_checked_idx c) \<in> {CR, LF} \<and>
     (\<exists>st. st \<noteq> LINE_OK \<and> parse_line c = Inr (st, c))"

lemma loop_condition_parse:
  assumes "m_check_state c \<noteq> CHECK_STATE_CONTENT" and "parse_line c = Inr (st, c')"
  shows "loop_condition LINE_OK c = Inr (st \<noteq> LINE_OK, c')"
  using assms by (auto simp: loop_condition_def c_bool_def)

lemma take_line_str:
  assumes "str_at (m_read_buf c) (m_start_line c) s"
  shows "take_line c = Inr (m_start_line c, c\<lparr>m_start_line := m_checked_idx c\<rparr>)"
  using cstr_str [OF assms] by (simp add: take_line_def Let_def)

lemma stuck_step:
  assumes "stuck c"
  shows "loop_condition LINE_OK c = Inr (True, c)"
    and "take_line c = Inr (m_checked_idx c, c)"
    and "parse_headers c (m_checked_idx c) = Inr (NO_REQUEST, c)"
proof -
  from assms obtain st where st: "st \<noteq> LINE_OK" "parse_line c = Inr (st, c)"
    and ok: "conn_ok c" "m_read_idx c < int READ_BUFFER_SIZE" "m_start_line c = m_checked_idx c"
    and h: "m_check_state c = CHECK_STATE_HEADER" "m_read_buf c ! nat (m_checked_idx c) \<in> {CR, LF}"
    by (auto simp: stuck_def)
  show "loop_condition LINE_OK c = Inr (True, c)"
    using loop_condition_parse [OF _ st(2)] st(1) h(1) by simp
  obtain s where at: "str_at (m_read_buf c) (m_checked_idx c) s"
    using str_at_data [OF ok(1,2), of "m_checked_idx c"] ok(1) by (auto simp: conn_ok_def)
  then show "take_line c = Inr (m_checked_idx c, c)"
    using take_line_str [of c s] ok(3) by simp
  have "s \<noteq> []" using str_at_empty [OF at] h(2) by auto
  moreover from this have "hd s = m_read_buf c ! nat (m_checked_idx c)"
    using str_at_nth [OF at, of 0] by (simp add: hd_conv_nth)
  ultimately show "parse_headers c (m_checked_idx c) = Inr (NO_REQUEST, c)"
    using parse_headers_line_end [OF at] h(2) by simp
qed

lemma process_read_loop_stuck:
  assumes "stuck c"
  shows "process_read_loop os LINE_OK c w = None"
proof (rule ccontr)
  assume "process_read_loop os LINE_OK c w \<noteq> None"
  then obtain r where r: "process_read_loop os LINE_OK c w = Some r" by blast
  have "\<not> (LINE_OK = LINE_OK \<and> stuck c)"
  proof (rule process_read_loop.raw_induct
      [where P = "\<lambda>os ls c w r. \<not> (ls = LINE_OK \<and> stuck c)", OF _ r])
    fix f :: "os \<Rightarrow> LINE_STATUS \<Rightarrow> http_conn \<Rightarrow> world \<Rightarrow> (HTTP_CODE \<times> http_conn \<times> world) res option"
    fix os ls c w r
    assume IH: "\<And>os ls c w r. f os ls c w = Some r \<Longrightarrow> \<not> (ls = LINE_OK \<and> stuck c)"
      and body: "(case loop_condition ls c of
        Inl e \<Rightarrow> Some (Inl e)
      | Inr (enter, c1) \<Rightarrow>
        if \<not> enter then Some (Inr (NO_REQUEST, c1, w))
        else (case take_line c1 of
          Inl e \<Rightarrow> Some (Inl e)
        | Inr (text, c2) \<Rightarrow>
          (case m_check_state c2 of
             CHECK_STATE_REQUESTLINE \<Rightarrow>
               (case parse_request_line c2 text of
                  Inl e \<Rightarrow> Some (Inl e)
                | Inr (ret, c3) \<Rightarrow>
                    if ret = BAD_REQUEST then Some (Inr (BAD_REQUEST, c3, w))
                    else f os ls c3 w)
           | CHECK_STATE_HEADER \<Rightarrow>
               (case parse_headers c2 text of
                  Inl e \<Rightarrow> Some (Inl e)
                | Inr (ret, c3) \<Rightarrow>
                    if ret = BAD_REQUEST then Some (Inr (BAD_REQUEST, c3, w))
                    else if ret = GET_REQUEST then Some (do_request os c3 w)
                    else f os ls c3 w)
           | CHECK_STATE_CONTENT \<Rightarrow>
               (case parse_content c2 text of
                  Inl e \<Rightarrow> Some (Inl e)
                | Inr (ret, c3) \<Rightarrow>
                    if ret = GET_REQUEST then Some (do_request os c3 w)
                    else f os LINE_OPEN c3 w)))) = Some r"
    show "\<not> (ls = LINE_OK \<and> stuck c)"
    proof
      assume s: "ls = LINE_OK \<and> stuck c"
      then have "m_check_state c = CHECK_STATE_HEADER" by (simp add: stuck_def)
      with body s stuck_step [of c] have "f os LINE_OK c w = Some r" by simp
      from IH [OF this] s show False by simp
    qed
  qed
  with assms show False by simp
qed

section \<open>The first pass over a request\<close>

lemma line_frameE:
  assumes "line_frame c c'"
  obtains b me u v st where "blanked (m_read_buf c) b"
    and "c' = c\<lparr>m_read_buf := b, m_method := me, m_url := u, m_version := v, m_check_state := st\<rparr>"
  using assms that unfolding line_frame_def by blast

lemma conn_ok_line_frame:
  assumes "conn_ok c" and "line_frame c c'"
  shows "conn_ok c'"
  using assms(2)
proof (rule line_frameE)
  fix b me u v st
  assume b: "blanked (m_read_buf c) b"
    and c': "c' = c\<lparr>m_read_buf := b, m_method := me, m_url := u, m_version := v, m_check_state := st\<rparr>"
  have "b ! i = NUL" if "i < READ_BUFFER_SIZE" "m_read_buf c ! i = NUL" for i
    using blanked_nth [OF b, of i] that assms(1) by (simp add: conn_ok_def blank_def)
  with assms(1) b show ?thesis by (auto simp: c' conn_ok_def blanked_def)
qed

text \<open>The state after the first line's scan and the move of the line start.\<close>

definition line_taken :: "http_conn \<Rightarrow> http_conn" where
  "line_taken c = c\<lparr>m_start_line := m_checked_idx c\<rparr>"

lemma first_iteration:
  assumes ok: "conn_ok c" and rd: "m_read_idx c < int READ_BUFFER_SIZE"
    and st: "m_check_state c = CHECK_STATE_REQUESTLINE"
    and pl: "parse_line c = Inr (ls, c1)" and bad: "ls \<noteq> LINE_OK"
    and at: "str_at (m_read_buf c) (m_start_line c) s"
  obtains ret c3 where
    "parse_request_line (line_taken c1) (m_start_line c) = Inr (ret, c3)"
    and "line_frame (line_taken c1) c3"
    and "case request_target s of
       None \<Rightarrow> ret = BAD_REQUEST
     | Some u \<Rightarrow> ret = NO_REQUEST \<and> m_check_state c3 = CHECK_STATE_HEADER \<and>
         (\<exists>v. m_url c3 = Some v \<and> str_at (m_read_buf c3) v u)"
    and "process_read os c w =
      (if ret = BAD_REQUEST then Some (Inr (BAD_REQUEST, c3, w)) else process_read_loop os LINE_OK c3 w)"
proof -
  obtain k where c1: "c1 = c\<lparr>m_checked_idx := int k\<rparr>"
    by (rule parse_line_not_ok [OF ok pl bad])
  have "str_at (m_read_buf (line_taken c1)) (m_start_line c) s"
    using at by (simp add: c1 line_taken_def)
  from parse_request_line_correct [OF this] obtain ret c3 where
    p: "parse_request_line (line_taken c1) (m_start_line c) = Inr (ret, c3)"
    "line_frame (line_taken c1) c3" and r: "case request_target s of
       None \<Rightarrow> ret = BAD_REQUEST \<and> m_check_state c3 = m_check_state (line_taken c1)
     | Some u \<Rightarrow> ret = NO_REQUEST \<and> m_check_state c3 = CHECK_STATE_HEADER \<and> m_method c3 = GET \<and>
         (\<exists>v. m_url c3 = Some v \<and> str_at (m_read_buf c3) v u)" by blast
  have "loop_condition LINE_OK c = Inr (True, c1)"
    using loop_condition_parse [OF _ pl] st bad by simp
  moreover have "take_line c1 = Inr (m_start_line c, line_taken c1)"
    using take_line_str [of c1 s] at by (simp add: c1 line_taken_def)
  moreover have "m_check_state (line_taken c1) = CHECK_STATE_REQUESTLINE"
    using st by (simp add: c1 line_taken_def)
  ultimately have "process_read os c w =
      (if ret = BAD_REQUEST then Some (Inr (BAD_REQUEST, c3, w)) else process_read_loop os LINE_OK c3 w)"
    unfolding process_read_def by (subst process_read_loop.simps) (simp add: p(1))
  with p r that show thesis by (fastforce split: option.splits)
qed

lemma second_iteration:
  assumes ok: "conn_ok c" and rd: "m_read_idx c < int READ_BUFFER_SIZE"
    and len: "m_content_length c = 0"
    and pl: "parse_line c = Inr (ls, c1)" and bad: "ls \<noteq> LINE_OK"
    and fr: "line_frame (line_taken c1) c3" and hd: "m_check_state c3 = CHECK_STATE_HEADER"
  shows "process_read_loop os LINE_OK c3 w =
    (if m_checked_idx c1 = m_read_idx c then Some (do_request os c3 w) else None)"
proof -
  obtain k where c1: "c1 = c\<lparr>m_checked_idx := int k\<rparr>" and alt: "stops_at ls c k"
    by (rule parse_line_not_ok [OF ok pl bad])
  from fr obtain b me u v st where b: "blanked (m_read_buf c) b"
    and c3: "c3 = (line_taken c1)\<lparr>m_read_buf := b, m_method := me, m_url := u, m_version := v, m_check_state := st\<rparr>"
    by (rule line_frameE) (auto simp: line_taken_def c1)
  have ok1: "conn_ok (line_taken c1)" using parse_line_frame [OF ok pl] by (auto simp: line_taken_def conn_ok_def)
  have ok3: "conn_ok c3" using conn_ok_line_frame [OF ok1 fr] .
  have again: "parse_line c3 = Inr (ls, c3)"
    using parse_line_again [OF ok pl bad ok3] b by (simp add: c3 c1 line_taken_def)
  show ?thesis
  proof (cases "int k = m_read_idx c")
    case True
    obtain s where at: "str_at (m_read_buf c3) (m_checked_idx c3) s"
      using str_at_data [OF ok3, of "m_checked_idx c3"] ok3 rd by (auto simp: c3 c1 line_taken_def conn_ok_def)
    have "k < READ_BUFFER_SIZE" using True rd by simp
    then have "m_read_buf c3 ! k = NUL"
      using ok3 True by (simp add: conn_ok_def c3 c1 line_taken_def)
    then have s: "s = []" using str_at_empty [OF at] by (simp add: c3 c1 line_taken_def)
    have hdr: "parse_headers c3 (m_checked_idx c3) = Inr (GET_REQUEST, c3)"
      using parse_headers_str [OF at] s len by (simp add: c3 c1 line_taken_def)
    have "loop_condition LINE_OK c3 = Inr (True, c3)"
      using loop_condition_parse [OF _ again] hd bad by simp
    moreover have "take_line c3 = Inr (m_checked_idx c3, c3)"
    proof -
      have e: "m_start_line c3 = m_checked_idx c3" by (simp add: c3 line_taken_def)
      have "c3\<lparr>m_start_line := m_checked_idx c3\<rparr> = c3" by (simp add: c3 line_taken_def)
      with take_line_str [of c3 s] at e show ?thesis by simp
    qed
    ultimately show ?thesis using hd hdr True
      by (subst process_read_loop.simps) (simp add: c1)
  next
    case False
    note at = stops_at_CR_LF [OF alt False]
    with ok have "k < length (m_read_buf c)" by (auto simp: conn_ok_def)
    with at have "b ! k = CR \<or> b ! k = LF"
      using blanked_nth [OF b, of k] by (auto simp: blank_def)
    with at have "m_checked_idx c3 < m_read_idx c3 \<and> m_read_buf c3 ! nat (m_checked_idx c3) \<in> {CR, LF}"
      and "m_start_line c3 = m_checked_idx c3" and "m_read_idx c3 = m_read_idx c"
      by (simp_all add: c3 c1 line_taken_def)
    with rd ok3 hd again bad have "stuck c3"
      unfolding stuck_def by auto
    then show ?thesis using process_read_loop_stuck False by (simp add: c1)
  qed
qed

end
