(* ===== verification/Http_Request.thy ===== *)
theory Http_Request
  imports Http_Parser
begin

text \<open>
  What a request is taken for: the outcome of \<open>read\<close>, of a whole call of \<open>process_read\<close>, of
  the header fields and of \<open>do_request\<close>, stated over the texts the client sent. The properties of
  the parser stand here.
\<close>

section \<open>read\<close>

text \<open>A run of recv answers: n free bytes, each chunk was the answer to the space left over.\<close>

fun answers :: "recv_fun \<Rightarrow> nat \<Rightarrow> nat \<Rightarrow> char list list \<Rightarrow> bool" where
  "answers recv k n [] = True"
| "answers recv k n (bs # bss) =
     (recv k n = Recv_bytes bs \<and> length bs \<le> n \<and> answers recv (Suc k) (n - length bs) bss)"

lemma conn_ok_append:
  assumes "conn_ok c" and "put_bytes (m_read_buf c) (m_read_idx c) bs = Inr b"
  shows "conn_ok (c\<lparr>m_read_buf := b, m_read_idx := m_read_idx c + int (length bs)\<rparr>)"
proof -
  let ?i = "nat (m_read_idx c)"
  from assms have b: "b = take ?i (m_read_buf c) @ bs @ drop (?i + length bs) (m_read_buf c)"
    and le: "?i + length bs \<le> READ_BUFFER_SIZE" and l: "length (m_read_buf c) = READ_BUFFER_SIZE"
    by (auto simp: put_bytes_def conn_ok_def split: if_splits)
  have "b ! j = NUL" if "?i + length bs \<le> j" "j < READ_BUFFER_SIZE" for j
  proof -
    have "b ! j = m_read_buf c ! j" using that l by (auto simp: b nth_append)
    with that assms(1) show ?thesis by (simp add: conn_ok_def)
  qed
  with assms(1) b le l show ?thesis by (auto simp: conn_ok_def nat_add_distrib)
qed

lemma read_loop_outcome:
  assumes "recv_ok recv" and "conn_ok c"
  shows "\<exists>ok bss b. read_loop recv k c =
        Some (Inr (ok, c\<lparr>m_read_buf := b, m_read_idx := m_read_idx c + int (length (concat bss))\<rparr>)) \<and>
      put_bytes (m_read_buf c) (m_read_idx c) (concat bss) = Inr b \<and>
      answers recv k (READ_BUFFER_SIZE - nat (m_read_idx c)) bss \<and>
      (ok \<longleftrightarrow> recv (k + length bss)
               (READ_BUFFER_SIZE - nat (m_read_idx c) - length (concat bss)) = Recv_again)"
  using assms(2)
proof (induction "READ_BUFFER_SIZE - nat (m_read_idx c)" arbitrary: k c rule: less_induct)
  case less
  let ?n = "READ_BUFFER_SIZE - nat (m_read_idx c)"
  have i: "0 \<le> m_read_idx c" "m_read_idx c \<le> int READ_BUFFER_SIZE"
    and l: "length (m_read_buf c) = READ_BUFFER_SIZE" using less.prems by (auto simp: conn_ok_def)
  then have n: "nat (int READ_BUFFER_SIZE - m_read_idx c) = ?n" by simp
  have nil: "put_bytes (m_read_buf c) (m_read_idx c) [] = Inr (m_read_buf c)"
    using i l by (simp add: put_bytes_def)
  show ?case
  proof (cases "recv k ?n")
    case (Recv_bytes bs)
    with assms(1) have bs: "0 < length bs" "length bs \<le> ?n" by (auto simp: recv_ok_def)
    let ?b = "take (nat (m_read_idx c)) (m_read_buf c) @ bs @ drop (nat (m_read_idx c) + length bs) (m_read_buf c)"
    have pb: "put_bytes (m_read_buf c) (m_read_idx c) bs = Inr ?b"
      using bs i l by (simp add: put_bytes_def)
    let ?c = "c\<lparr>m_read_buf := ?b, m_read_idx := m_read_idx c + int (length bs)\<rparr>"
    have ok: "conn_ok ?c" using conn_ok_append [OF less.prems pb] .
    have n': "READ_BUFFER_SIZE - nat (m_read_idx ?c) = ?n - length bs"
      using i by (simp add: nat_add_distrib)
    with bs have "READ_BUFFER_SIZE - nat (m_read_idx ?c) < ?n" by linarith
    from less.hyps [OF this ok, of "Suc k"] obtain r bss b where IH:
      "read_loop recv (Suc k) ?c = Some (Inr (r, ?c\<lparr>m_read_buf := b, m_read_idx := m_read_idx ?c + int (length (concat bss))\<rparr>))"
      "put_bytes (m_read_buf ?c) (m_read_idx ?c) (concat bss) = Inr b"
      "answers recv (Suc k) (?n - length bs) bss"
      "r \<longleftrightarrow> recv (Suc k + length bss) (?n - length bs - length (concat bss)) = Recv_again"
      unfolding n' by blast
    have "read_loop recv k c = Some (Inr (r, c\<lparr>m_read_buf := b, m_read_idx := m_read_idx c + int (length (concat (bs # bss)))\<rparr>))"
      using IH(1) Recv_bytes n pb by (subst read_loop.simps) (simp add: algebra_simps)
    moreover have "put_bytes (m_read_buf c) (m_read_idx c) (concat (bs # bss)) = Inr b"
      using IH(2) i l bs by (auto simp: put_bytes_def nat_add_distrib add.commute add.left_commute split: if_splits)
    moreover have "answers recv k ?n (bs # bss)" using IH(3) Recv_bytes bs by simp
    moreover have "r \<longleftrightarrow> recv (k + length (bs # bss)) (?n - length (concat (bs # bss))) = Recv_again"
      using IH(4) by (simp add: add.assoc)
    ultimately show ?thesis by blast
  next
    case Recv_eof
    then show ?thesis
      by (intro exI [of _ False] exI [of _ "[]"] exI [of _ "m_read_buf c"])
        (subst read_loop.simps, simp add: n nil)
  next
    case Recv_again
    then show ?thesis
      by (intro exI [of _ True] exI [of _ "[]"] exI [of _ "m_read_buf c"])
        (subst read_loop.simps, simp add: n nil)
  next
    case Recv_error
    then show ?thesis
      by (intro exI [of _ False] exI [of _ "[]"] exI [of _ "m_read_buf c"])
        (subst read_loop.simps, simp add: n nil)
  qed
qed

section \<open>A complete request\<close>

lemma dropWhile_butlast:
  "2 \<le> length (dropWhile P xs) \<Longrightarrow> dropWhile P (butlast xs) = butlast (dropWhile P xs)"
proof (induction xs)
  case (Cons x xs)
  then show ?case by (cases "P x"; cases xs) auto
qed simp

lemma length_dropWhile_ge: "n \<le> length (dropWhile P xs) \<Longrightarrow> n \<le> length xs"
  using length_dropWhile_le [of P xs] by linarith

lemma request_target_butlast:
  assumes "request_target line = Some u"
  shows "request_target (butlast line) = None"
proof -
  let ?b = "\<lambda>c. \<not> nonblank c"
  let ?v = "dropWhile ?b (dropWhile nonblank (dropWhile ?b (dropWhile nonblank line)))"
  from assms have "same_word ?v ''HTTP/1.1''"
    by (auto simp: request_target_def Let_def split: if_splits)
  then have "length ?v = length ''HTTP/1.1''" unfolding same_word_def by (rule map_eq_imp_length_eq)
  then have v: "length ?v = 8" by simp
  have bl: "dropWhile ?b (dropWhile nonblank (dropWhile ?b (dropWhile nonblank (butlast line)))) = butlast ?v"
  proof -
    have l3: "2 \<le> length ?v" using v by simp
    note l2 = length_dropWhile_ge [OF l3] and l1 = length_dropWhile_ge [OF length_dropWhile_ge [OF l3]]
      and l0 = length_dropWhile_ge [OF length_dropWhile_ge [OF length_dropWhile_ge [OF l3]]]
    show ?thesis
      using dropWhile_butlast [OF l3] dropWhile_butlast [OF l2] dropWhile_butlast [OF l1] dropWhile_butlast [OF l0]
      by (simp only:)
  qed
  have "length (butlast ?v) = 7" using v by simp
  moreover have "length x = 8" if "same_word x ''HTTP/1.1''" for x
  proof -
    from that have "length x = length ''HTTP/1.1''" unfolding same_word_def by (rule map_eq_imp_length_eq)
    then show ?thesis by simp
  qed
  ultimately have "\<not> same_word (butlast ?v) ''HTTP/1.1''" by fastforce
  then show ?thesis unfolding request_target_def Let_def bl by (simp only: simp_thms if_True if_cancel)
qed

text \<open>The buffer after the first line of a complete request has been scanned.\<close>

lemma parse_line_crlf:
  assumes "conn_ok c" and "m_checked_idx c = 0" and "line \<noteq> []" and "set line \<inter> {CR, LF} = {}"
    and "m_read_buf c = line @ CR # LF # rest" and "int (length line) + 2 \<le> m_read_idx c"
  shows "parse_line c = Inr (LINE_OK, c\<lparr>
           m_read_buf := butlast line @ NUL # NUL # LF # rest, m_checked_idx := int (length line) + 1\<rparr>)"
proof -
  let ?k = "length line" and ?c = "c\<lparr>m_checked_idx := int (length line)\<rparr>"
  have "m_read_buf c ! i \<notin> {CR, LF}" if "i < ?k" for i
  proof -
    have "line ! i \<noteq> CR \<and> line ! i \<noteq> LF" using nth_mem [OF that] assms(4) by force
    with that assms(5) show ?thesis by (simp add: nth_append)
  qed
  then have "parse_line c = parse_line ?c"
    using assms by (intro parse_line_skip) (auto simp: conn_ok_def)
  moreover have "conn_ok ?c" using assms by (auto simp: conn_ok_def)
  moreover have "m_read_buf c ! ?k = CR" "m_read_buf c ! (?k + 1) = LF"
    by (simp_all add: assms(5) nth_append)
  moreover have "(m_read_buf c)[?k - 1 := NUL, ?k := NUL] = butlast line @ NUL # NUL # LF # rest"
  proof -
    obtain xs x where line: "line = xs @ [x]" using assms(3) by (cases line rule: rev_cases) auto
    have "(m_read_buf c)[?k - 1 := NUL, ?k := NUL] = (xs @ x # CR # LF # rest)[length xs := NUL, Suc (length xs) := NUL]"
      by (simp add: assms(5) line)
    also have "\<dots> = xs @ NUL # NUL # LF # rest" by (simp add: list_update_append)
    finally show ?thesis by (simp add: line)
  qed
  ultimately show ?thesis
    using parse_line_at_CR [of ?c ?k] assms(3,6) by simp
qed

lemma process_read_line_ok:
  assumes "m_check_state c \<noteq> CHECK_STATE_CONTENT" and "parse_line c = Inr (LINE_OK, c1)"
  shows "process_read os c w = Some (Inr (NO_REQUEST, c1, w))"
  using loop_condition_parse [OF assms]
  unfolding process_read_def by (subst process_read_loop.simps) simp

lemma process_read_malformed:
  assumes ok: "conn_ok c" and rd: "m_read_idx c < int READ_BUFFER_SIZE"
    and st: "m_check_state c = CHECK_STATE_REQUESTLINE"
    and pl: "parse_line c = Inr (ls, c1)" and bad: "ls \<noteq> LINE_OK"
    and at: "str_at (m_read_buf c) (m_start_line c) s" and "request_target s = None"
  shows "\<exists>c3. process_read os c w = Some (Inr (BAD_REQUEST, c3, w))"
proof (rule first_iteration [OF ok rd st pl bad at, of os w])
  fix ret c3
  assume "case request_target s of None \<Rightarrow> ret = BAD_REQUEST
     | Some u \<Rightarrow> ret = NO_REQUEST \<and> m_check_state c3 = CHECK_STATE_HEADER \<and>
         (\<exists>v. m_url c3 = Some v \<and> str_at (m_read_buf c3) v u)"
    and "process_read os c w =
      (if ret = BAD_REQUEST then Some (Inr (BAD_REQUEST, c3, w)) else process_read_loop os LINE_OK c3 w)"
  with assms(7) show ?thesis by simp
qed

lemma process_read_cases:
  assumes ok: "conn_ok c" and rd: "m_read_idx c < int READ_BUFFER_SIZE"
    and st: "m_check_state c = CHECK_STATE_REQUESTLINE" and len: "m_content_length c = 0"
    and pl: "parse_line c = Inr (ls, c1)"
    and at: "str_at (m_read_buf c) (m_start_line c) s"
  shows "if ls = LINE_OK then process_read os c w = Some (Inr (NO_REQUEST, c1, w))
    else case request_target s of
      None \<Rightarrow> \<exists>c3. process_read os c w = Some (Inr (BAD_REQUEST, c3, w))
    | Some u \<Rightarrow>
        if m_checked_idx c1 = m_read_idx c
        then \<exists>c3 v. process_read os c w = Some (do_request os c3 w) \<and>
               line_frame (line_taken c1) c3 \<and> m_url c3 = Some v \<and> str_at (m_read_buf c3) v u
        else process_read os c w = None"
proof (cases "ls = LINE_OK")
  case True
  with loop_condition_parse [OF _ pl] st show ?thesis
    unfolding process_read_def by (subst process_read_loop.simps) simp
next
  case False
  obtain ret c3 where 1: "parse_request_line (line_taken c1) (m_start_line c) = Inr (ret, c3)"
    "line_frame (line_taken c1) c3"
    and r: "case request_target s of
       None \<Rightarrow> ret = BAD_REQUEST
     | Some u \<Rightarrow> ret = NO_REQUEST \<and> m_check_state c3 = CHECK_STATE_HEADER \<and>
         (\<exists>v. m_url c3 = Some v \<and> str_at (m_read_buf c3) v u)"
    and p: "process_read os c w =
      (if ret = BAD_REQUEST then Some (Inr (BAD_REQUEST, c3, w)) else process_read_loop os LINE_OK c3 w)"
    by (rule first_iteration [OF ok rd st pl False at])
  show ?thesis
  proof (cases "request_target s")
    case None
    with r p False show ?thesis by simp
  next
    case (Some u)
    with r have r': "ret = NO_REQUEST" "m_check_state c3 = CHECK_STATE_HEADER"
      "\<exists>v. m_url c3 = Some v \<and> str_at (m_read_buf c3) v u" by simp_all
    from p r'(1) second_iteration [OF ok rd len pl False 1(2) r'(2)] have
      "process_read os c w = (if m_checked_idx c1 = m_read_idx c then Some (do_request os c3 w) else None)"
      by simp
    with Some r'(3) 1(2) False show ?thesis by auto
  qed
qed

section \<open>Words and numbers\<close>

lemma tolower_blank: "tolower c = tolower d \<Longrightarrow> c \<in> set blank \<Longrightarrow> tolower d \<in> set blank"
proof -
  have "tolower SP = SP" "tolower TAB = TAB" by code_simp+
  then show "tolower c = tolower d \<Longrightarrow> c \<in> set blank \<Longrightarrow> tolower d \<in> set blank"
    by (auto simp: blank_def)
qed

lemma same_word_nonblank:
  assumes "same_word s lit" and "\<forall>d \<in> set lit. tolower d \<notin> set blank"
  shows "\<forall>c \<in> set s. nonblank c"
proof
  fix c assume "c \<in> set s"
  then have "tolower c \<in> set (map tolower s)" by simp
  with assms(1) obtain d where "d \<in> set lit" "tolower c = tolower d"
    unfolding same_word_def by auto
  with assms(2) show "nonblank c" using tolower_blank by (auto simp: nonblank_def)
qed

lemma request_target_render:
  assumes "same_word mtd ''GET''" and "same_word ver ''HTTP/1.1''"
    and "set b1 \<subseteq> set blank" "b1 \<noteq> []" and "set b2 \<subseteq> set blank" "b2 \<noteq> []"
    and "\<forall>c \<in> set url. nonblank c" and "url \<noteq> []" "hd url = CHR ''/''"
  shows "request_target (mtd @ b1 @ url @ b2 @ ver) = Some url"
proof -
  have "\<forall>d \<in> set ''GET''. tolower d \<notin> set blank" "\<forall>d \<in> set ''HTTP/1.1''. tolower d \<notin> set blank"
    by code_simp+
  then have m: "\<forall>c \<in> set mtd. nonblank c" and v: "\<forall>c \<in> set ver. nonblank c"
    using assms(1,2) same_word_nonblank by blast+
  have "length ver = length ''HTTP/1.1''" using assms(2) unfolding same_word_def by (rule map_eq_imp_length_eq)
  then have vn: "ver \<noteq> []" by auto
  obtain x1 y1 where b1: "b1 = x1 # y1" "\<not> nonblank x1" "\<forall>c \<in> set b1. \<not> nonblank c"
    using assms(3,4) by (cases b1) (auto simp: nonblank_def)
  obtain x2 y2 where b2: "b2 = x2 # y2" "\<not> nonblank x2" "\<forall>c \<in> set b2. \<not> nonblank c"
    using assms(5,6) by (cases b2) (auto simp: nonblank_def)
  have r1: "takeWhile nonblank (mtd @ b1 @ url @ b2 @ ver) = mtd"
      "dropWhile nonblank (mtd @ b1 @ url @ b2 @ ver) = b1 @ url @ b2 @ ver"
    using m b1 by (simp_all add: takeWhile_append2 dropWhile_append2)
  have "nonblank (hd url)" using assms(7,8) by simp
  then have r2: "dropWhile (\<lambda>c. \<not> nonblank c) (b1 @ url @ b2 @ ver) = url @ b2 @ ver"
    using b1(3) assms(8) by (simp add: dropWhile_append2 dropWhile_eq_self_iff)
  have r3: "takeWhile nonblank (url @ b2 @ ver) = url" "dropWhile nonblank (url @ b2 @ ver) = b2 @ ver"
    using assms(7) b2 by (simp_all add: takeWhile_append2 dropWhile_append2)
  have r4: "dropWhile (\<lambda>c. \<not> nonblank c) (b2 @ ver) = ver"
    using b2(3) v vn by (simp add: dropWhile_append2 dropWhile_eq_self_iff)
  have "origin_form url = url"
  proof -
    obtain us where u: "url = CHR ''/'' # us" using assms(8,9) by (cases url) auto
    have "tolower (CHR ''/'') \<noteq> tolower (CHR ''h'')" by code_simp
    then show ?thesis by (simp add: origin_form_def same_word_def u)
  qed
  with assms(1,2,8,9) b1(1) b2(1) show ?thesis
    unfolding request_target_def Let_def r1 r2 r3 r4 by simp
qed

lemma show_nat_digits: "\<forall>c \<in> set (show_nat n). is_digit c"
proof (induction n rule: show_nat.induct)
  case (1 n)
  have d: "is_digit (char_of (48 + k))" if "k < 10" for k :: nat
    using that by (simp add: is_digit_def)
  show ?case
    using 1 d [of n] d [of "n mod 10"] by (subst show_nat.simps) auto
qed

lemma show_nat_nonempty: "show_nat n \<noteq> []"
  by (subst show_nat.simps) simp

lemma digit_val_char_of: "k < 10 \<Longrightarrow> digit_val (char_of (48 + k :: nat)) = int k"
  by (simp add: digit_val_def)

lemma foldl_show_nat: "foldl (\<lambda>a c. 10 * a + digit_val c) 0 (show_nat n) = int n"
proof (induction n rule: show_nat.induct)
  case (1 n)
  show ?case
  proof (cases "n < 10")
    case True
    then show ?thesis by (subst show_nat.simps) (simp add: digit_val_char_of)
  next
    case False
    with 1 have "foldl (\<lambda>a c. 10 * a + digit_val c) 0 (show_nat (n div 10)) = int (n div 10)" by simp
    moreover have "10 * int (n div 10) + int (n mod 10) = int n" by presburger
    ultimately show ?thesis using False
      by (subst show_nat.simps) (simp add: digit_val_char_of)
  qed
qed

lemma scan_digits_foldl:
  "\<lbrakk> \<forall>c \<in> set ds. is_digit c; \<not> is_digit e \<rbrakk> \<Longrightarrow>
   scan_digits acc (ds @ e # r) = Inr (foldl (\<lambda>a c. 10 * a + digit_val c) acc ds)"
  by (induction ds arbitrary: acc) auto

lemma is_digit_char: "is_digit c \<Longrightarrow> \<not> is_space c \<and> c \<noteq> CHR ''-'' \<and> c \<noteq> CHR ''+''"
  by (auto simp: is_digit_def is_space_def)

lemma scan_number_show_nat:
  "\<not> is_digit e \<Longrightarrow> scan_number (show_nat n @ e # r) = Inr (int n)"
proof -
  assume e: "\<not> is_digit e"
  obtain d ds where s: "show_nat n = d # ds" using show_nat_nonempty by (cases "show_nat n") auto
  then have "is_digit d" using show_nat_digits [of n] by simp
  with s show ?thesis
    using scan_digits_foldl [OF show_nat_digits e, of 0 n r] foldl_show_nat [of n]
    by (simp add: is_digit_char)
qed

lemma scan_number_show_int:
  assumes "\<not> is_digit e"
  shows "scan_number (show_int i @ e # r) = Inr i"
proof (cases "i < 0")
  case True
  then show ?thesis
    using scan_digits_foldl [OF show_nat_digits assms, of 0 "nat (- i)" r] foldl_show_nat [of "nat (- i)"]
    by (simp add: show_int_def is_space_def)
next
  case False
  then show ?thesis using scan_number_show_nat [OF assms, of "nat i" r] by (simp add: show_int_def)
qed

lemma atol_show_int:
  assumes "str_at b p (show_int i)" and "- (2 ^ 63) \<le> i" and "i < 2 ^ 63"
  shows "atol b p = Inr i"
  using assms(1)
proof (rule str_atE)
  fix r assume "suffix_at b p = Inr (show_int i @ NUL # r)"
  moreover have "\<not> is_digit NUL" by code_simp
  ultimately show ?thesis using assms(2,3) by (simp add: atol_def scan_number_show_int)
qed

lemma show_int_nonblank: "\<forall>c \<in> set (show_int i). nonblank c" "show_int i \<noteq> []"
proof -
  have "nonblank c" if "is_digit c" for c
    using that by (auto simp: is_digit_def nonblank_def blank_def)
  moreover have "nonblank (CHR ''-'')" by code_simp
  ultimately show "\<forall>c \<in> set (show_int i). nonblank c"
    using show_nat_digits by (auto simp: show_int_def)
  show "show_int i \<noteq> []" by (simp add: show_int_def show_nat_nonempty)
qed

section \<open>do\_request\<close>

lemma put_bytes_prefix:
  assumes "length b = n" and "length s \<le> n"
  shows "put_bytes b 0 s = Inr (s @ drop (length s) b)"
  using assms by (simp add: put_bytes_def)

lemma real_file_path:
  assumes at: "str_at src v u" and len: "length f = FILENAME_LEN" and last: "f ! (FILENAME_LEN - 1) = NUL"
  shows "\<exists>f2. bind_res (strcpy_lit f 0 doc_root)
      (\<lambda>f1. strncpy f1 (int (length doc_root)) src v (FILENAME_LEN - length doc_root - 1)) = Inr f2 \<and>
    length f2 = FILENAME_LEN \<and> f2 ! (FILENAME_LEN - 1) = NUL \<and>
    str_at f2 0 (doc_root @ take (FILENAME_LEN - length doc_root - 1) u)"
proof -
  let ?n = "FILENAME_LEN - length doc_root - 1"
  let ?p = "take ?n (u @ replicate ?n NUL)"
  have dr: "length doc_root = 13" "NUL \<notin> set doc_root" by (simp_all add: doc_root_def)
  then have n: "?n = 186" by (simp add: FILENAME_LEN_def)
  have f1: "strcpy_lit f 0 doc_root = Inr (doc_root @ NUL # drop 14 f)"
    using len dr by (simp add: strcpy_lit_def put_bytes_def FILENAME_LEN_def)
  have un: "NUL \<notin> set u" using at by (simp add: str_at_def)
  have lp: "length ?p = 186" unfolding n by simp
  have tail: "drop (length doc_root + 186) (doc_root @ NUL # drop 14 f) = drop 199 f"
    using dr len by (simp add: FILENAME_LEN_def drop_Cons')
  have one: "drop 199 f = [NUL]"
  proof -
    have "drop 199 f = f ! 199 # drop (Suc 199) f" using len by (intro Cons_nth_drop_Suc [symmetric]) (simp add: FILENAME_LEN_def)
    then show ?thesis using len last by (simp add: FILENAME_LEN_def)
  qed
  let ?f2 = "doc_root @ ?p @ [NUL]"
  have "strncpy (doc_root @ NUL # drop 14 f) (int (length doc_root)) src v ?n = Inr ?f2"
    using at
  proof (rule str_atE)
    fix r assume s: "suffix_at src v = Inr (u @ NUL # r)"
    have "put_bytes (doc_root @ NUL # drop 14 f) (int (length doc_root)) ?p = Inr ?f2"
      using lp len dr tail one unfolding put_bytes_def by (simp add: FILENAME_LEN_def)
    with s show ?thesis by (simp add: strncpy_def scan_ncpy_str [OF un])
  qed
  moreover have "length ?f2 = FILENAME_LEN" using lp dr by (simp add: FILENAME_LEN_def)
  moreover have "?f2 ! (FILENAME_LEN - 1) = NUL"
  proof -
    have "(doc_root @ ?p @ [NUL]) ! (length (doc_root @ ?p)) = NUL" by (metis append_assoc nth_append_length)
    moreover have "length (doc_root @ ?p) = FILENAME_LEN - 1" using lp dr by (simp add: FILENAME_LEN_def)
    ultimately show ?thesis by (simp only:)
  qed
  moreover have "str_at ?f2 0 (doc_root @ take ?n u)"
  proof -
    have "?p @ [NUL] = take ?n u @ NUL # replicate (?n - length u) NUL"
      by (simp add: replicate_append_same)
    then show ?thesis using dr un by (auto simp: str_at_def dest: in_set_takeD)
  qed
  ultimately show ?thesis using f1 by auto
qed

text \<open>The answer of do\_request as a function of the path it asks for.\<close>

definition answer_code :: "os \<Rightarrow> char list \<Rightarrow> HTTP_CODE" where
  "answer_code os path =
     (case os_stat os path of
        None \<Rightarrow> NO_RESOURCE
      | Some st \<Rightarrow> if st_mode st AND S_IROTH = 0 then FORBIDDEN_REQUEST
                  else if S_ISDIR (st_mode st) then BAD_REQUEST
                  else FILE_REQUEST)"

definition request_path :: "char list \<Rightarrow> char list" where
  "request_path u = doc_root @ take (FILENAME_LEN - length doc_root - 1) u"

lemma do_request_at:
  assumes url: "m_url c = Some v" and at: "str_at (m_read_buf c) v u"
    and len: "length (m_real_file c) = FILENAME_LEN" and last: "m_real_file c ! (FILENAME_LEN - 1) = NUL"
  shows "\<exists>c'. do_request os c w = Inr (answer_code os (request_path u), c',
        if answer_code os (request_path u) = FILE_REQUEST
        then emit (Close (os_open os (request_path u))) w else w) \<and>
      str_at (m_real_file c') 0 (request_path u) \<and>
      (\<forall>st. os_stat os (request_path u) = Some st \<longrightarrow> m_file_state c' = st) \<and>
      (answer_code os (request_path u) = FILE_REQUEST \<longrightarrow>
         m_file_address c' = os_mmap os (st_size (m_file_state c')) (os_open os (request_path u))) \<and>
      c' = c\<lparr>m_real_file := m_real_file c', m_file_state := m_file_state c', m_file_address := m_file_address c'\<rparr>"
proof -
  obtain f2 where f2: "bind_res (strcpy_lit (m_real_file c) 0 doc_root)
      (\<lambda>f1. strncpy f1 (int (length doc_root)) (m_read_buf c) v (FILENAME_LEN - length doc_root - 1)) = Inr f2"
    and p: "str_at f2 0 (request_path u)"
    using real_file_path [OF at len last] unfolding request_path_def by blast
  from f2 obtain f1 where f1: "strcpy_lit (m_real_file c) 0 doc_root = Inr f1"
    "strncpy f1 (int (length doc_root)) (m_read_buf c) v (FILENAME_LEN - length doc_root - 1) = Inr f2" by blast
  show ?thesis
  proof (cases "os_stat os (request_path u)")
    case None
    then show ?thesis using p f1(2)
      by (simp add: do_request_def url null_or_def f1(1) cstr_str [OF p] answer_code_def Let_def)
  next
    case (Some st)
    let ?c = "c\<lparr>m_real_file := f2, m_file_state := st\<rparr>"
    note eval = do_request_def url null_or_def f1(1) cstr_str [OF p] answer_code_def Let_def Some
    consider "st_mode st AND S_IROTH = 0" | "st_mode st AND S_IROTH \<noteq> 0" "S_ISDIR (st_mode st)"
      | "st_mode st AND S_IROTH \<noteq> 0" "\<not> S_ISDIR (st_mode st)" by blast
    then show ?thesis
    proof cases
      case 1
      then have "do_request os c w = Inr (FORBIDDEN_REQUEST, ?c, w)"
        and "answer_code os (request_path u) = FORBIDDEN_REQUEST"
        using f1(2) by (simp_all add: eval)
      with Some p show ?thesis by (intro exI [of _ ?c]) simp
    next
      case 2
      then have "do_request os c w = Inr (BAD_REQUEST, ?c, w)"
        and "answer_code os (request_path u) = BAD_REQUEST"
        using f1(2) by (simp_all add: eval)
      with Some p show ?thesis by (intro exI [of _ ?c]) simp
    next
      case 3
      let ?c = "?c\<lparr>m_file_address := os_mmap os (st_size st) (os_open os (request_path u))\<rparr>"
      from 3 have "do_request os c w = Inr (FILE_REQUEST, ?c, emit (Close (os_open os (request_path u))) w)"
        and "answer_code os (request_path u) = FILE_REQUEST"
        using f1(2) by (simp_all add: eval)
      with Some p show ?thesis by (intro exI [of _ ?c]) simp
    qed
  qed
qed

section \<open>A text just received\<close>

lemma received_str_at:
  assumes "NUL \<notin> set s" and "length s < READ_BUFFER_SIZE"
  shows "str_at (m_read_buf (received c s)) 0 s"
proof -
  obtain n where "READ_BUFFER_SIZE - length s = Suc n" using assms(2) by (metis Suc_diff_Suc)
  with assms(1) show ?thesis by (auto simp: received_def str_at_def)
qed

lemma received_no_eol:
  assumes "set s \<inter> {CR, LF} = {}" and "length s < READ_BUFFER_SIZE"
  shows "parse_line (received c s) = Inr (LINE_OPEN, received c s\<lparr>m_checked_idx := int (length s)\<rparr>)"
proof -
  have "m_read_buf (received c s) ! i \<notin> {CR, LF}" if "i < length s" for i
  proof -
    have "s ! i \<noteq> CR \<and> s ! i \<noteq> LF" using nth_mem [OF that] assms(1) by force
    with that show ?thesis by (simp add: received_def nth_append)
  qed
  moreover have "m_read_idx (received c s) = int (length s)" by (simp add: received_def)
  ultimately show ?thesis
    using parse_line_no_eol [OF conn_ok_received [of s c]] assms(2) by simp
qed

lemma received_simps [simp]:
  "m_check_state (received c s) = CHECK_STATE_REQUESTLINE" "m_content_length (received c s) = 0"
  "m_start_line (received c s) = 0" "m_checked_idx (received c s) = 0"
  "m_read_idx (received c s) = int (length s)" "m_linger (received c s) = False"
  "m_write_idx (received c s) = 0" "m_sockfd (received c s) = m_sockfd c"
  by (simp_all add: received_def init_request_def)

section \<open>The properties of the parser\<close>

text \<open>
  C33. read terminates for every peer, appends exactly the bytes recv delivered, in order, behind the
  data already in the buffer, never writes outside it and keeps the connection's invariant; it
  returns true only when recv would block, and false at once when the buffer is full.
\<close>

theorem read_appends:
  assumes "recv_ok recv" and "conn_ok c"
  shows "if m_read_idx c = int READ_BUFFER_SIZE then read recv c = Some (Inr (False, c))
    else \<exists>ok bss b.
      let c' = c\<lparr>m_read_buf := b, m_read_idx := m_read_idx c + int (length (concat bss))\<rparr>;
          room = READ_BUFFER_SIZE - nat (m_read_idx c)
      in read recv c = Some (Inr (ok, c')) \<and> conn_ok c' \<and>
         put_bytes (m_read_buf c) (m_read_idx c) (concat bss) = Inr b \<and> answers recv 0 room bss \<and>
         (ok \<longleftrightarrow> recv (length bss) (room - length (concat bss)) = Recv_again)"
proof (cases "m_read_idx c = int READ_BUFFER_SIZE")
  case True
  then show ?thesis by (simp add: read_def)
next
  case False
  with assms(2) have "read recv c = read_loop recv 0 c" by (simp add: read_def conn_ok_def)
  with read_loop_outcome [OF assms, of 0] conn_ok_append [OF assms(2)] False show ?thesis
    unfolding Let_def by (simp only: if_False add_0) metis
qed

definition two_chunks :: recv_fun where
  "two_chunks k n = (if k = 0 \<and> 3 \<le> n then Recv_bytes ''GET'' else
     if k = 1 \<and> 2 \<le> n then Recv_bytes '' /'' else Recv_again)"

lemma read_appends_witness:
  "\<exists>ok bss b. read two_chunks raw_conn = Some (Inr (ok, raw_conn\<lparr>m_read_buf := b, m_read_idx := int (length (concat bss))\<rparr>))
     \<and> answers two_chunks 0 2048 bss"
proof -
  have "recv_ok two_chunks" by (auto simp: recv_ok_def two_chunks_def split: if_splits)
  moreover have "conn_ok raw_conn" by (simp add: conn_ok_def raw_conn_def)
  moreover have "m_read_idx raw_conn = 0" by (simp add: raw_conn_def)
  ultimately show ?thesis
    using read_appends [of two_chunks raw_conn] by (auto simp: Let_def READ_BUFFER_SIZE_def)
qed

text \<open>
  C35. The scan for a line end keeps the parser's invariant and never moves backwards; the only
  input that makes it touch memory outside the buffer is one that starts with CR LF.
\<close>

theorem parse_line_safe:
  assumes "conn_ok c"
  shows "case parse_line c of
      Inl e \<Rightarrow> e = OutOfBounds \<and> m_checked_idx c = 0 \<and> 2 \<le> m_read_idx c \<and>
        m_read_buf c ! 0 = CR \<and> m_read_buf c ! 1 = LF
    | Inr (st, c') \<Rightarrow> conn_ok c' \<and> m_checked_idx c \<le> m_checked_idx c' \<and>
        c' = c\<lparr>m_read_buf := m_read_buf c', m_checked_idx := m_checked_idx c'\<rparr> \<and>
        \<not> (m_checked_idx c = 0 \<and> 2 \<le> m_read_idx c \<and> m_read_buf c ! 0 = CR \<and> m_read_buf c ! 1 = LF)"
proof (cases "parse_line c")
  case (Inl e)
  with parse_line_undefined [OF assms, of e] show ?thesis by simp
next
  case (Inr r)
  obtain st c' where r: "r = (st, c')" by (cases r)
  from Inr parse_line_undefined [OF assms, of OutOfBounds] have
    "\<not> (m_checked_idx c = 0 \<and> 2 \<le> m_read_idx c \<and> m_read_buf c ! 0 = CR \<and> m_read_buf c ! 1 = LF)"
    by simp
  with parse_line_frame [OF assms, of st c'] Inr r show ?thesis by (simp only: sum.case prod.case) blast
qed

lemma parse_line_safe_witness:
  "case parse_line (conn_with [CR, LF]) of
      Inl e \<Rightarrow> e = OutOfBounds | Inr (st, c') \<Rightarrow> False"
proof -
  have "m_read_buf (conn_with [CR, LF]) ! 0 = CR" "m_read_buf (conn_with [CR, LF]) ! 1 = LF"
    by (simp_all add: conn_with_def received_def)
  then show ?thesis
    using parse_line_safe [OF conn_ok_received [of "[CR, LF]" raw_conn]]
    by (auto simp: conn_with_def READ_BUFFER_SIZE_def split: sum.splits)
qed

text \<open>
  C7. parse\_request\_line refines its specification on strings: on every terminated line it is
  defined, accepts exactly the lines whose three words are GET, a path and HTTP/1.1, leaves
  m\_url at a string equal to the path, and changes in the buffer nothing but blanks to NUL.
\<close>

theorem parse_request_line_refines:
  assumes at: "str_at (m_read_buf c) text s"
  shows "\<exists>ret c'. parse_request_line c text = Inr (ret, c') \<and> line_frame c c' \<and>
    (ret = NO_REQUEST \<longleftrightarrow> request_target s \<noteq> None) \<and> (ret = BAD_REQUEST \<longleftrightarrow> request_target s = None) \<and>
    (\<forall>u. request_target s = Some u \<longrightarrow> m_check_state c' = CHECK_STATE_HEADER \<and> m_method c' = GET \<and>
         (\<exists>v. m_url c' = Some v \<and> str_at (m_read_buf c') v u))"
  using parse_request_line_correct [OF at] by (auto split: option.splits)

lemma parse_request_line_refines_witness:
  "\<exists>c' v. parse_request_line (conn_with ''get  http://h/x HTTP/1.1'') 0 = Inr (NO_REQUEST, c') \<and>
     m_url c' = Some v \<and> str_at (m_read_buf c') v ''/x''"
proof -
  have "request_target ''get  http://h/x HTTP/1.1'' = Some ''/x''" by code_simp
  moreover have "str_at (m_read_buf (conn_with ''get  http://h/x HTTP/1.1'')) 0 ''get  http://h/x HTTP/1.1''"
    unfolding conn_with_def by (rule received_str_at) (simp_all add: READ_BUFFER_SIZE_def)
  ultimately show ?thesis
    using parse_request_line_refines [of "conn_with ''get  http://h/x HTTP/1.1''" 0 "''get  http://h/x HTTP/1.1''"]
    by auto
qed

text \<open>
  C40. Round trip of the request line: a line rendered from the method GET in any case, blanks, a
  path without blanks and the version in any case parses back to that path.
\<close>

theorem request_line_roundtrip:
  assumes "str_at (m_read_buf c) text (mtd @ b1 @ url @ b2 @ ver)"
    and "same_word mtd ''GET''" and "same_word ver ''HTTP/1.1''"
    and "set b1 \<subseteq> set blank" "b1 \<noteq> []" and "set b2 \<subseteq> set blank" "b2 \<noteq> []"
    and "\<forall>x \<in> set url. x \<notin> set blank" and "url \<noteq> []" "hd url = CHR ''/''"
  shows "\<exists>c' v. parse_request_line c text = Inr (NO_REQUEST, c') \<and> m_url c' = Some v \<and>
    str_at (m_read_buf c') v url"
proof -
  have "\<forall>x \<in> set url. nonblank x" using assms(8) by (simp add: nonblank_def)
  from request_target_render [OF assms(2-7) this assms(9,10)] parse_request_line_correct [OF assms(1)]
  show ?thesis by auto
qed

lemma request_line_roundtrip_witness:
  "\<exists>c' v. parse_request_line (conn_with (''GET'' @ [SP] @ ''/a'' @ [SP] @ ''HTTP/1.1'')) 0 = Inr (NO_REQUEST, c') \<and>
    m_url c' = Some v \<and> str_at (m_read_buf c') v ''/a''"
proof (rule request_line_roundtrip)
  show "str_at (m_read_buf (conn_with (''GET'' @ [SP] @ ''/a'' @ [SP] @ ''HTTP/1.1''))) 0
          (''GET'' @ [SP] @ ''/a'' @ [SP] @ ''HTTP/1.1'')"
    unfolding conn_with_def by (rule received_str_at) (simp_all add: READ_BUFFER_SIZE_def)
qed (auto simp: same_word_def blank_def)

text \<open>
  C4. The first pass over a request: for a connection in its initial state whose buffer is not full,
  the outcome is determined by the scan for the first line end. When the data starts with CR LF the scan
  itself is undefined, and process\_read with it. A complete line makes process\_read
  return NO\_REQUEST without looking at it. Otherwise the data up to the first NUL is taken as the
  request line: a malformed one gives BAD\_REQUEST, a well-formed one is served when no line end has
  been received at all, and when the scan stopped at a CR or LF the loop never ends.
\<close>

theorem process_read_outcome:
  assumes ok: "conn_ok c" and rd: "m_read_idx c < int READ_BUFFER_SIZE"
    and st: "m_check_state c = CHECK_STATE_REQUESTLINE" and len: "m_content_length c = 0"
    and at: "str_at (m_read_buf c) (m_start_line c) s"
  shows "case parse_line c of
      Inl e \<Rightarrow> process_read os c w = Some (Inl OutOfBounds) \<and> m_checked_idx c = 0 \<and> 2 \<le> m_read_idx c \<and>
        m_read_buf c ! 0 = CR \<and> m_read_buf c ! 1 = LF
    | Inr (ls, c1) \<Rightarrow>
        if ls = LINE_OK then process_read os c w = Some (Inr (NO_REQUEST, c1, w))
        else (case request_target s of
          None \<Rightarrow> \<exists>c3. process_read os c w = Some (Inr (BAD_REQUEST, c3, w))
        | Some u \<Rightarrow>
            if m_checked_idx c1 = m_read_idx c
            then \<exists>c3 v. process_read os c w = Some (do_request os c3 w) \<and>
                   line_frame (line_taken c1) c3 \<and> m_url c3 = Some v \<and> str_at (m_read_buf c3) v u
            else process_read os c w = None)"
proof (cases "parse_line c")
  case (Inl e)
  note u = parse_line_undefined [OF ok, of e, THEN iffD1, OF Inl]
  have "process_read os c w = Some (Inl e)"
    unfolding process_read_def by (subst process_read_loop.simps) (simp add: loop_condition_def st Inl)
  with Inl u show ?thesis by simp
next
  case (Inr r)
  obtain ls c1 where r: "r = (ls, c1)" by (cases r)
  from process_read_cases [OF ok rd st len Inr [unfolded r] at, of os w] show ?thesis
    unfolding Inr r by (simp only: sum.case prod.case)
qed

lemma process_read_outcome_witness:
  "(\<exists>c3 v. process_read sample_os (conn_with ''GET /a HTTP/1.1'') sample_world =
       Some (do_request sample_os c3 sample_world) \<and> m_url c3 = Some v \<and> str_at (m_read_buf c3) v ''/a'')"
proof -
  let ?s = "''GET /a HTTP/1.1''"
  have "request_target ?s = Some ''/a''" by code_simp
  moreover have "str_at (m_read_buf (conn_with ?s)) (m_start_line (conn_with ?s)) ?s"
    using received_str_at [of ?s raw_conn] by (simp add: conn_with_def READ_BUFFER_SIZE_def)
  moreover have "parse_line (conn_with ?s) = Inr (LINE_OPEN, conn_with ?s\<lparr>m_checked_idx := 15\<rparr>)"
    using received_no_eol [of ?s raw_conn] by (simp add: conn_with_def READ_BUFFER_SIZE_def)
  moreover have "conn_ok (conn_with ?s)"
    unfolding conn_with_def by (rule conn_ok_received) (simp add: READ_BUFFER_SIZE_def)
  ultimately show ?thesis
    using process_read_outcome [of "conn_with ?s" ?s sample_os sample_world]
    by (auto simp: conn_with_def READ_BUFFER_SIZE_def)
qed

text \<open>The connection after a complete first line has been scanned.\<close>

definition after_first_line :: "http_conn \<Rightarrow> char list \<Rightarrow> char list \<Rightarrow> http_conn" where
  "after_first_line c line rest = received c (line @ CR # LF # rest)\<lparr>
      m_read_buf := butlast line @ NUL # NUL # LF # rest @
        replicate (READ_BUFFER_SIZE - length (line @ CR # LF # rest)) NUL,
      m_checked_idx := int (length line) + 1\<rparr>"

lemma first_pass_ignores:
  assumes "line \<noteq> []" and "set line \<inter> {NUL, CR, LF} = {}"
    and "length line + 2 + length rest < READ_BUFFER_SIZE"
  shows "process_read os (received c (line @ CR # LF # rest)) w =
      Some (Inr (NO_REQUEST, after_first_line c line rest, w))"
    and "conn_ok (after_first_line c line rest)"
proof -
  let ?c = "received c (line @ CR # LF # rest)"
  have ok: "conn_ok ?c" using assms(3) by (intro conn_ok_received) simp
  have pl: "parse_line ?c = Inr (LINE_OK, after_first_line c line rest)"
    using assms ok unfolding after_first_line_def by (intro parse_line_crlf) (auto simp: received_def init_request_def)
  then show "process_read os ?c w = Some (Inr (NO_REQUEST, after_first_line c line rest, w))"
    by (intro process_read_line_ok) simp_all
  show "conn_ok (after_first_line c line rest)" using parse_line_frame [OF ok pl] by simp
qed

lemma second_pass_rejects:
  assumes line: "request_target line = Some u" and "set line \<inter> {NUL, CR, LF} = {}"
    and fits: "length line + 2 + length rest < READ_BUFFER_SIZE"
    and recv: "recv_ok recv"
    and more: "read recv (after_first_line c0 line rest) = Some (Inr (True, c2))"
    and rd2: "m_read_idx c2 < int READ_BUFFER_SIZE"
  shows "\<exists>c3. process_read os c2 w = Some (Inr (BAD_REQUEST, c3, w))"
proof -
  let ?c = "received c0 (line @ CR # LF # rest)"
  let ?tail = "rest @ replicate (READ_BUFFER_SIZE - length (line @ CR # LF # rest)) NUL"
  let ?k = "length line"
  have ne: "line \<noteq> []" using line by (auto simp: request_target_def)
  define c1 where "c1 = after_first_line c0 line rest"
  have 1: "c1 = ?c\<lparr>m_read_buf := butlast line @ NUL # NUL # LF # ?tail, m_checked_idx := int ?k + 1\<rparr>"
    by (simp add: c1_def after_first_line_def)
  have ok1: "conn_ok c1" unfolding c1_def using first_pass_ignores [OF ne assms(2) fits] by blast
  note more = more [folded c1_def]
  have rd1: "m_read_idx c1 = int ?k + 2 + int (length rest)" by (simp add: 1 received_def)
  then have "read recv c1 = read_loop recv 0 c1" using fits by (simp add: read_def)
  with more read_loop_outcome [OF recv ok1, of 0] obtain bss b where
    c2: "c2 = c1\<lparr>m_read_buf := b, m_read_idx := m_read_idx c1 + int (length (concat bss))\<rparr>"
    and b: "put_bytes (m_read_buf c1) (m_read_idx c1) (concat bss) = Inr b" by auto
  have ok2: "conn_ok c2" using conn_ok_append [OF ok1 b] by (simp add: c2)
  obtain r where r: "b = butlast line @ NUL # NUL # LF # r"
  proof
    have i: "nat (m_read_idx c1) = length (butlast line @ [NUL, NUL, LF]) + length rest" using ne rd1 by simp
    have m: "m_read_buf c1 = (butlast line @ [NUL, NUL, LF]) @ ?tail" by (simp add: 1)
    show "b = butlast line @ NUL # NUL # LF # (take (length rest) ?tail @ concat bss @ drop (nat (m_read_idx c1) + length (concat bss)) (m_read_buf c1))"
      using b unfolding put_bytes_def m i
      by (auto split: if_splits simp: numeral_3_eq_3)
  qed
  have ck: "m_checked_idx c2 = int (?k + 1)" and st: "m_check_state c2 = CHECK_STATE_REQUESTLINE"
    and sl: "m_start_line c2 = 0" and cl: "m_content_length c2 = 0"
    by (simp_all add: c2 1 received_def init_request_def)
  have l1: "length (butlast line) = ?k - 1" by simp
  have buf: "m_read_buf c2 = butlast line @ NUL # NUL # LF # r" by (simp add: c2 r)
  have "(butlast line @ NUL # NUL # LF # r) ! (length (butlast line) + 2) = LF"
    and "(butlast line @ NUL # NUL # LF # r) ! (length (butlast line) + 1) = NUL"
    by (simp_all only: nth_append_length_plus) simp_all
  moreover have "length (butlast line) + 2 = ?k + 1" "length (butlast line) + 1 = ?k"
    using ne by (cases line rule: rev_cases, simp_all)+
  ultimately have "m_read_buf c2 ! (?k + 1) = LF" and "m_read_buf c2 ! ?k = NUL"
    by (simp_all only: buf)
  then have bad: "parse_line c2 = Inr (LINE_BAD, c2)"
    using parse_line_at_LF [OF ok2 ck] rd1 by (simp add: c2)
  have "str_at (m_read_buf c2) (m_start_line c2) (butlast line)"
    unfolding str_at_def sl buf using assms(2) by (auto dest: in_set_butlastD)
  from process_read_malformed [OF ok2 rd2 st bad _ this request_target_butlast [OF line]] 1 show ?thesis by simp
qed

text \<open>
  A complete request is not answered: when the request line arrives with its CR LF (and whatever
  follows), process\_read returns NO\_REQUEST, and when more data has been read the next call returns
  BAD\_REQUEST, although the request line is a valid one.
\<close>

theorem complete_request_rejected:
  assumes "request_target line = Some u" and "set line \<inter> {NUL, CR, LF} = {}"
    and "length line + 2 + length rest < READ_BUFFER_SIZE"
  shows "\<exists>c1. process_read os (received c (line @ CR # LF # rest)) w = Some (Inr (NO_REQUEST, c1, w)) \<and>
    (\<forall>recv c2. recv_ok recv \<longrightarrow> read recv c1 = Some (Inr (True, c2)) \<longrightarrow>
       m_read_idx c2 < int READ_BUFFER_SIZE \<longrightarrow>
       (\<exists>c3. process_read os c2 w = Some (Inr (BAD_REQUEST, c3, w))))"
proof -
  have "line \<noteq> []" using assms(1) by (auto simp: request_target_def)
  note first = first_pass_ignores(1) [OF this assms(2,3), of os c w]
  show ?thesis
    by (rule exI [of _ "after_first_line c line rest"]) (use first second_pass_rejects [OF assms] in blast)
qed

definition one_chunk :: recv_fun where
  "one_chunk k n = (if k = 0 \<and> 3 \<le> n then Recv_bytes ''abc'' else Recv_again)"

lemma one_chunk_read:
  assumes "conn_ok c" and "m_read_idx c + 3 < int READ_BUFFER_SIZE"
  shows "\<exists>b. read one_chunk c = Some (Inr (True, c\<lparr>m_read_buf := b, m_read_idx := m_read_idx c + 3\<rparr>))"
proof -
  obtain b where "put_bytes (m_read_buf c) (m_read_idx c) ''abc'' = Inr b"
    using assms by (simp add: put_bytes_def conn_ok_def READ_BUFFER_SIZE_def)
  then show ?thesis using assms
    by (intro exI [of _ b])
      (simp add: read_def read_loop.simps [of one_chunk 0] read_loop.simps [of one_chunk "Suc 0"] one_chunk_def)
qed

lemma complete_request_rejected_witness:
  "\<exists>c1 c2 c3. process_read sample_os (conn_with (''GET / HTTP/1.1'' @ CR # LF # [])) sample_world
       = Some (Inr (NO_REQUEST, c1, sample_world)) \<and> read one_chunk c1 = Some (Inr (True, c2)) \<and>
     process_read sample_os c2 sample_world = Some (Inr (BAD_REQUEST, c3, sample_world))"
proof -
  let ?l = "''GET / HTTP/1.1''"
  have l: "request_target ?l = Some ''/''" "set ?l \<inter> {NUL, CR, LF} = {}"
      "length ?l + 2 + length ([] :: char list) < READ_BUFFER_SIZE" "?l \<noteq> []"
    by code_simp+
  from complete_request_rejected [OF l(1-3), of sample_os raw_conn sample_world] obtain c1 where
    1: "process_read sample_os (conn_with (?l @ CR # LF # [])) sample_world = Some (Inr (NO_REQUEST, c1, sample_world))"
      "\<forall>recv c2. recv_ok recv \<longrightarrow> read recv c1 = Some (Inr (True, c2)) \<longrightarrow> m_read_idx c2 < int READ_BUFFER_SIZE \<longrightarrow>
         (\<exists>c3. process_read sample_os c2 sample_world = Some (Inr (BAD_REQUEST, c3, sample_world)))"
    unfolding conn_with_def by blast
  note f = first_pass_ignores [OF l(4,2,3), where c = raw_conn]
  from 1(1) f(1) [of sample_os sample_world] have "c1 = after_first_line raw_conn ?l []"
    unfolding conn_with_def by simp
  with f(2) have "conn_ok c1" "m_read_idx c1 = 16" by (simp_all add: after_first_line_def)
  with one_chunk_read [of c1] obtain c2 where
    2: "read one_chunk c1 = Some (Inr (True, c2))" "m_read_idx c2 = 19"
    by (auto simp: READ_BUFFER_SIZE_def)
  have "recv_ok one_chunk" by (auto simp: recv_ok_def one_chunk_def split: if_splits)
  with 1 2 show ?thesis by (auto simp: READ_BUFFER_SIZE_def)
qed

text \<open>
  A client can make a worker spin for ever: a valid request line, a NUL and a bare LF are enough
  for process\_read never to return.
\<close>

theorem request_then_nul_hangs:
  assumes "request_target line = Some u" and "set line \<inter> {NUL, CR, LF} = {}"
    and "length line + 2 + length rest < READ_BUFFER_SIZE"
  shows "process_read os (received c (line @ NUL # LF # rest)) w = None"
proof -
  let ?c = "received c (line @ NUL # LF # rest)" and ?k = "length line + 1"
  have ok: "conn_ok ?c" using assms(3) by (intro conn_ok_received) simp
  have buf: "m_read_buf ?c ! i = (line @ NUL # LF # rest) ! i" if "i < length line + 2" for i
    using that by (simp add: received_def nth_append [of "line @ NUL # LF # rest"] del: append_assoc)
  have "m_read_buf ?c ! i \<notin> {CR, LF}" if "i < ?k" for i
  proof (cases "i < length line")
    case True
    from nth_mem [OF True] assms(2) have "line ! i \<noteq> CR" "line ! i \<noteq> LF" by auto
    with True show ?thesis by (simp add: buf nth_append)
  next
    case False
    with that have "i = length line" by simp
    then show ?thesis by (simp add: buf nth_append)
  qed
  then have skip: "parse_line ?c = parse_line (?c\<lparr>m_checked_idx := int ?k\<rparr>)"
    using ok by (intro parse_line_skip) (auto simp: conn_ok_def)
  have k: "m_read_buf ?c ! ?k = LF" "m_read_buf ?c ! (?k - 1) = NUL"
    by (simp_all add: buf nth_append)
  moreover have "conn_ok (?c\<lparr>m_checked_idx := int ?k\<rparr>)" using ok by (simp add: conn_ok_def)
  ultimately have "parse_line ?c = Inr (LINE_BAD, ?c\<lparr>m_checked_idx := int ?k\<rparr>)"
    unfolding skip by (subst parse_line_at_LF [where k = ?k]) simp_all
  moreover have "str_at (m_read_buf ?c) (m_start_line ?c) line"
    using assms(2) by (auto simp: received_def init_request_def str_at_def)
  ultimately show ?thesis
    using process_read_cases [OF ok _ _ _, of LINE_BAD "?c\<lparr>m_checked_idx := int ?k\<rparr>" line os w] assms(1,3)
    by simp
qed

lemma request_then_nul_hangs_witness:
  "process_read sample_os (conn_with (''GET / HTTP/1.1'' @ NUL # LF # [])) sample_world = None"
proof -
  have "request_target ''GET / HTTP/1.1'' = Some ''/''" by code_simp
  then show ?thesis unfolding conn_with_def
    by (rule request_then_nul_hangs) (simp_all add: READ_BUFFER_SIZE_def)
qed

text \<open>
  Round trip of the Content-Length header through atol: for every i a long can hold, the decimal
  rendering is read back, and the stored length is i narrowed to an int.
\<close>

theorem content_length_roundtrip:
  assumes at: "str_at (m_read_buf c) text (''Content-Length:'' @ bl @ show_int i)"
    and "set bl \<subseteq> set blank" and "- (2 ^ 63) \<le> i" and "i < 2 ^ 63"
  shows "parse_headers c text = Inr (NO_REQUEST, c\<lparr>m_content_length := int_of_long i\<rparr>)"
proof -
  let ?s = "''Content-Length:'' @ bl @ show_int i"
  have d: "drop 15 ?s = bl @ show_int i" and t: "take 15 ?s = ''Content-Length:''" by simp_all
  have b: "\<forall>c \<in> set bl. \<not> nonblank c" using assms(2) by (auto simp: nonblank_def)
  have "takeWhile (\<lambda>d. \<not> nonblank d) (bl @ show_int i) = bl"
    using b show_int_nonblank [of i] by (cases "show_int i") (auto simp: takeWhile_append2)
  moreover have "str_at (m_read_buf c) (text + 15 + int (length bl)) (show_int i)"
    using str_at_drop [of "m_read_buf c" "text" "''Content-Length:'' @ bl" "show_int i"] at by (simp add: add.assoc)
  then have "atol (m_read_buf c) (text + 15 + int (length bl)) = Inr i"
    using assms(3,4) by (rule atol_show_int)
  moreover have "same_word (take 15 ?s) ''Content-Length:''" unfolding t by (simp add: same_word_def)
  moreover have "\<not> same_word (take 11 ?s) ''Connection:''"
  proof -
    have "take 11 ?s = ''Content-Len''" by simp
    moreover have "\<not> same_word ''Content-Len'' ''Connection:''" by code_simp
    ultimately show ?thesis by (simp only: not_False_eq_True)
  qed
  ultimately show ?thesis using parse_headers_str [OF at] d by simp
qed

lemma content_length_roundtrip_witness:
  "parse_headers (conn_with (''Content-Length:'' @ [SP] @ show_int (-1))) 0 =
     Inr (NO_REQUEST, conn_with (''Content-Length:'' @ [SP] @ show_int (-1))\<lparr>m_content_length := int_of_long (-1)\<rparr>)"
proof (rule content_length_roundtrip)
  have "NUL \<notin> set (''Content-Length:'' @ [SP] @ show_int (-1))"
    "length (''Content-Length:'' @ [SP] @ show_int (-1)) < READ_BUFFER_SIZE" by code_simp+
  then show "str_at (m_read_buf (conn_with (''Content-Length:'' @ [SP] @ show_int (-1)))) 0
               (''Content-Length:'' @ [SP] @ show_int (-1))"
    unfolding conn_with_def by (rule received_str_at)
qed (simp_all add: blank_def)

text \<open>
  The Connection header: keep-alive is recognised behind tabs only. Behind the usual blank the
  value never compares equal, so the connection is closed after the response.
\<close>

theorem connection_header_keep_alive:
  assumes at: "str_at (m_read_buf c) text (''Connection:'' @ v)" and "\<not> m_linger c"
  shows "\<exists>c'. parse_headers c text = Inr (NO_REQUEST, c') \<and>
    (m_linger c' \<longleftrightarrow> same_word (dropWhile (\<lambda>d. d = TAB) v) ''keep-alive'')"
proof -
  have "take 11 (''Connection:'' @ v) = ''Connection:''" "drop 11 (''Connection:'' @ v) = v" by simp_all
  moreover have "same_word ''Connection:'' ''Connection:''" by (simp add: same_word_def)
  ultimately show ?thesis using assms(2) parse_headers_str [OF at] by simp
qed

lemma connection_header_keep_alive_witness:
  "\<exists>c'. parse_headers (conn_with ''Connection: keep-alive'') 0 = Inr (NO_REQUEST, c') \<and> \<not> m_linger c'"
proof -
  have "str_at (m_read_buf (conn_with ''Connection: keep-alive'')) 0 (''Connection:'' @ '' keep-alive'')"
    using received_str_at [of "''Connection: keep-alive''" raw_conn]
    by (simp add: conn_with_def READ_BUFFER_SIZE_def)
  moreover have "\<not> m_linger (conn_with ''Connection: keep-alive'')" by (simp add: conn_with_def)
  moreover have "\<not> same_word (dropWhile (\<lambda>d. d = TAB) '' keep-alive'') ''keep-alive''" by code_simp
  ultimately show ?thesis using connection_header_keep_alive [of "conn_with ''Connection: keep-alive''" 0 "'' keep-alive''"]
    by auto
qed

text \<open>
  parse\_content is defined except for two uses of a Content-Length the client chose freely: one
  that overflows the addition, and a negative one that reaches below the buffer.
\<close>

theorem parse_content_undefined:
  assumes ok: "conn_ok c" and rd: "m_read_idx c < int READ_BUFFER_SIZE"
    and "0 \<le> p" and "p \<le> m_checked_idx c"
  shows "parse_content c p = Inl e \<longleftrightarrow>
    (let need = m_content_length c + m_checked_idx c in
     (need < INT_MIN \<or> INT_MAX < need) \<and> e = SignedOverflow \<or>
     INT_MIN \<le> need \<and> need \<le> m_read_idx c \<and> p + m_content_length c < 0 \<and> e = OutOfBounds)"
proof -
  have "m_read_idx c \<le> INT_MAX" using rd by (simp add: INT_MAX_def READ_BUFFER_SIZE_def)
  with assms show ?thesis
    by (auto simp: parse_content_def add_int_def bset_def conn_ok_def Let_def)
qed

lemma parse_content_undefined_witness:
  "parse_content (conn_with ''abc''\<lparr>m_content_length := -1\<rparr>) 0 = Inl OutOfBounds"
proof -
  let ?c = "conn_with ''abc''\<lparr>m_content_length := -1\<rparr>"
  have "conn_ok (conn_with ''abc'')"
    unfolding conn_with_def by (rule conn_ok_received) (simp add: READ_BUFFER_SIZE_def)
  then have "conn_ok ?c" by (simp add: conn_ok_def)
  then show ?thesis
    by (subst parse_content_undefined) (simp_all add: conn_with_def READ_BUFFER_SIZE_def INT_MIN_def)
qed

text \<open>
  The answer of do\_request: it asks for the document root followed by the first 186 characters of
  the target, unchanged (a target with dots is not rejected), and its four outcomes are determined by
  stat alone; open and mmap are not checked, and only the file case maps and closes a descriptor.
\<close>

theorem do_request_answer:
  assumes "m_url c = Some v" and "str_at (m_read_buf c) v u"
    and "length (m_real_file c) = FILENAME_LEN" and "m_real_file c ! (FILENAME_LEN - 1) = NUL"
  shows "\<exists>c'. do_request os c w = Inr (answer_code os (request_path u), c',
        if answer_code os (request_path u) = FILE_REQUEST
        then emit (Close (os_open os (request_path u))) w else w) \<and>
      str_at (m_real_file c') 0 (request_path u) \<and>
      (\<forall>st. os_stat os (request_path u) = Some st \<longrightarrow> m_file_state c' = st) \<and>
      (answer_code os (request_path u) = FILE_REQUEST \<longrightarrow>
         m_file_address c' = os_mmap os (st_size (m_file_state c')) (os_open os (request_path u)))"
  using do_request_at [OF assms, of os w] by blast

lemma do_request_answer_witness:
  "\<exists>c' w'. do_request sample_os (conn_with ''/../../../etc/passwd''\<lparr>m_url := Some 0\<rparr>) sample_world =
     Inr (FILE_REQUEST, c', w') \<and> str_at (m_real_file c') 0 ''/var/www/html/../../../etc/passwd''"
proof -
  let ?c = "conn_with ''/../../../etc/passwd''\<lparr>m_url := Some 0\<rparr>"
  have "str_at (m_read_buf (received raw_conn ''/../../../etc/passwd'')) 0 ''/../../../etc/passwd''"
    by (rule received_str_at) (simp_all add: READ_BUFFER_SIZE_def)
  then have at: "str_at (m_read_buf ?c) 0 ''/../../../etc/passwd''" by (simp add: conn_with_def)
  have f: "length (m_real_file ?c) = FILENAME_LEN" "m_real_file ?c ! (FILENAME_LEN - 1) = NUL"
    by (simp_all add: conn_with_def received_def init_request_def FILENAME_LEN_def)
  have p: "request_path ''/../../../etc/passwd'' = ''/var/www/html/../../../etc/passwd''" by code_simp
  have "answer_code sample_os (request_path ''/../../../etc/passwd'') = FILE_REQUEST"
    by (simp add: answer_code_def sample_os_def flag_defs)
  with do_request_answer [OF _ at f, of sample_os sample_world] p show ?thesis by auto
qed

end
