(* ===== verification/Http_Response.thy ===== *)
theory Http_Response
  imports Http_Parser
begin

text \<open>
  Building and sending a response: \<open>add_response\<close> and its callers, \<open>process_write\<close>,
  \<open>unmap\<close>, \<open>write\<close> and \<open>process\<close> of \<^verbatim>\<open>src/src/httpConn/http_conn.cpp\<close>. The
  formatted text of a variadic call is rendered by the caller (\<open>show_int\<close> for \<^verbatim>\<open>%d\<close>).
\<close>

section \<open>The model\<close>

subsection \<open>Titles and pages\<close>

definition ok_200_title :: "char list" where "ok_200_title = ''OK''"
definition error_400_title :: "char list" where "error_400_title = ''Bad Request''"
definition error_400_form :: "char list" where
  "error_400_form = ''Bad Syntax or inherently impossible to satisfied'' @ [LF]"
definition error_403_title :: "char list" where "error_403_title = ''Forbidden''"
definition error_403_form :: "char list" where "error_403_form = ''Do not have permission'' @ [LF]"
definition error_404_title :: "char list" where "error_404_title = ''Not Found''"
definition error_404_form :: "char list" where
  "error_404_form = ''The request file was not found on this server'' @ [LF]"
definition error_500_title :: "char list" where "error_500_title = ''Internal Error''"
definition error_500_form :: "char list" where "error_500_form = ''Internal Error''"

lemmas page_defs = ok_200_title_def error_400_title_def error_400_form_def error_403_title_def
  error_403_form_def error_404_title_def error_404_form_def error_500_title_def error_500_form_def

subsection \<open>add\_response and its callers\<close>

definition add_response :: "http_conn \<Rightarrow> char list \<Rightarrow> (bool \<times> http_conn) res" where
  "add_response c s =
     (if m_write_idx c \<ge> int WRITE_BUFFER_SIZE then Inr (False, c)
      else let room = int WRITE_BUFFER_SIZE - 1 - m_write_idx c in
        bind_res (vsnprintf (m_write_buf c) (m_write_idx c) (nat room) s) (\<lambda>(len, b).
        if len \<ge> room then Inr (False, c\<lparr>m_write_buf := b\<rparr>)
        else Inr (True, c\<lparr>m_write_buf := b, m_write_idx := m_write_idx c + len\<rparr>)))"

definition crlf :: "char list" where "crlf = [CR, LF]"

definition add_status_line :: "http_conn \<Rightarrow> int \<Rightarrow> char list \<Rightarrow> (bool \<times> http_conn) res" where
  "add_status_line c status title =
     add_response c (''HTTP/1.1'' @ [SP] @ show_int status @ [SP] @ title @ crlf)"

definition add_content_length :: "http_conn \<Rightarrow> int \<Rightarrow> (bool \<times> http_conn) res" where
  "add_content_length c content_len =
     add_response c (''Content-Length: '' @ show_int content_len @ crlf)"

definition add_linger :: "http_conn \<Rightarrow> (bool \<times> http_conn) res" where
  "add_linger c =
     add_response c (''Connection: '' @ (if m_linger c then ''keep-alive'' else ''close'') @ crlf)"

definition add_blank_line :: "http_conn \<Rightarrow> (bool \<times> http_conn) res" where
  "add_blank_line c = add_response c crlf"

definition add_content :: "http_conn \<Rightarrow> char list \<Rightarrow> (bool \<times> http_conn) res" where
  "add_content c content = add_response c content"

text \<open>\<^verbatim>\<open>ret = ret && f()\<close> calls f only when ret is true.\<close>

definition add_headers :: "http_conn \<Rightarrow> int \<Rightarrow> (bool \<times> http_conn) res" where
  "add_headers c content_len =
     bind_res (add_content_length c content_len) (\<lambda>(r1, c1).
     bind_res (if r1 then add_linger c1 else Inr (False, c1)) (\<lambda>(r2, c2).
     if r2 then add_blank_line c2 else Inr (False, c2)))"

subsection \<open>process\_write\<close>

text \<open>
  The body shared by the four error cases: status line and headers with their results ignored, then
  the page, whose failure makes process\_write return false.
\<close>

definition error_response ::
  "http_conn \<Rightarrow> int \<Rightarrow> char list \<Rightarrow> char list \<Rightarrow> (bool \<times> http_conn) res" where
  "error_response c status title form =
     bind_res (add_status_line c status title) (\<lambda>(_, c1).
     bind_res (add_headers c1 (int (length form))) (\<lambda>(_, c2).
     add_content c2 form))"

definition single_iov :: "http_conn \<Rightarrow> http_conn" where
  "single_iov c = c\<lparr>m_iv := (m_iv c)[0 := \<lparr>iov_base = WriteBuf, iov_len = m_write_idx c\<rparr>],
                    m_iv_count := 1\<rparr>"

definition file_iov :: "http_conn \<Rightarrow> http_conn" where
  "file_iov c = c\<lparr>
     m_iv := (m_iv c)[0 := \<lparr>iov_base = WriteBuf, iov_len = m_write_idx c\<rparr>,
                      1 := \<lparr>iov_base = FileMap (m_file_address c), iov_len = st_size (m_file_state c)\<rparr>],
     m_iv_count := 2\<rparr>"

text \<open>
  The file case has no break: an empty file's page is built, and then control falls through to the
  default case, which returns false.
\<close>

definition ok_string :: "char list" where "ok_string = ''<html><body></body></html>''"

definition process_write :: "http_conn \<Rightarrow> HTTP_CODE \<Rightarrow> (bool \<times> http_conn) res" where
  "process_write c ret =
     (case ret of
        INTERNAL_ERROR \<Rightarrow>
          bind_res (error_response c 500 error_500_title error_500_form) (\<lambda>(ok, c1).
          if ok then Inr (True, single_iov c1) else Inr (False, c1))
      | BAD_REQUEST \<Rightarrow>
          bind_res (error_response c 400 error_400_title error_400_form) (\<lambda>(ok, c1).
          if ok then Inr (True, single_iov c1) else Inr (False, c1))
      | NO_RESOURCE \<Rightarrow>
          bind_res (error_response c 404 error_404_title error_404_form) (\<lambda>(ok, c1).
          if ok then Inr (True, single_iov c1) else Inr (False, c1))
      | FORBIDDEN_REQUEST \<Rightarrow>
          bind_res (error_response c 403 error_403_title error_403_form) (\<lambda>(ok, c1).
          if ok then Inr (True, single_iov c1) else Inr (False, c1))
      | FILE_REQUEST \<Rightarrow>
          bind_res (add_status_line c 200 ok_200_title) (\<lambda>(_, c1).
          if st_size (m_file_state c1) \<noteq> 0 then
            bind_res (add_headers c1 (int_of_long (st_size (m_file_state c1)))) (\<lambda>(_, c2).
            Inr (True, file_iov c2))
          else
            bind_res (add_headers c1 (int (length ok_string))) (\<lambda>(_, c2).
            bind_res (add_content c2 ok_string) (\<lambda>(_, c3).
            Inr (False, c3))))
      | _ \<Rightarrow> Inr (False, c))"

subsection \<open>unmap and write\<close>

definition unmap :: "http_conn \<Rightarrow> world \<Rightarrow> (http_conn \<times> world) res" where
  "unmap c w =
     (case m_file_address c of
        MUninit \<Rightarrow> Inl UninitRead
      | MNull \<Rightarrow> Inr (c, w)
      | p \<Rightarrow> Inr (c\<lparr>m_file_address := MNull\<rparr>, emit (Munmap p (st_size (m_file_state c))) w))"

text \<open>The answers of writev, by the number of the call: the loop passes the same vector each time.\<close>

partial_function (option) write_loop ::
  "(nat \<Rightarrow> writev_answer) \<Rightarrow> nat \<Rightarrow> int \<Rightarrow> int \<Rightarrow> http_conn \<Rightarrow> world
     \<Rightarrow> (bool \<times> http_conn \<times> world) res option" where
  "write_loop writev k bytes_to_send bytes_have_send c w =
     (case writev k of
        Writev_again \<Rightarrow> Some (Inr (True, c, modfd (m_epollfd w) (m_sockfd c) EPOLLOUT w))
      | Writev_error \<Rightarrow> Some (map_res (Pair False) (unmap c w))
      | Sent temp \<Rightarrow>
         (let w1 = emit (Writev (m_sockfd c) (take (m_iv_count c) (m_iv c)) temp) w;
              bytes_to_send = bytes_to_send - temp;
              bytes_have_send = bytes_have_send + temp
          in if bytes_to_send \<le> bytes_have_send
             then Some (bind_res (unmap c w1) (\<lambda>(c1, w2).
               if m_linger c1
               then let c2 = init_request c1
                    in Inr (True, c2, modfd (m_epollfd w2) (m_sockfd c2) EPOLLIN w2)
               else Inr (False, c1, modfd (m_epollfd w2) (m_sockfd c1) EPOLLIN w2)))
             else write_loop writev (Suc k) bytes_to_send bytes_have_send c w1))"

declare write_loop.simps [code]

definition http_write ::
  "(nat \<Rightarrow> writev_answer) \<Rightarrow> http_conn \<Rightarrow> world \<Rightarrow> (bool \<times> http_conn \<times> world) res option" where
  "http_write writev c w =
     (if m_write_idx c = 0
      then let w1 = modfd (m_epollfd w) (m_sockfd c) EPOLLIN w
           in Some (Inr (True, init_request c, w1))
      else write_loop writev 0 (m_write_idx c) 0 c w)"

subsection \<open>process\<close>

definition process :: "os \<Rightarrow> http_conn \<Rightarrow> world \<Rightarrow> (http_conn \<times> world) res option" where
  "process os c w =
     (case process_read os c w of
        None \<Rightarrow> None
      | Some (Inl e) \<Rightarrow> Some (Inl e)
      | Some (Inr (read_ret, c1, w1)) \<Rightarrow>
          if read_ret = NO_REQUEST
          then Some (Inr (c1, modfd (m_epollfd w1) (m_sockfd c1) EPOLLIN w1))
          else Some (bind_res (process_write c1 read_ret) (\<lambda>(write_ret, c2).
            let (c3, w3) = (if \<not> write_ret then close_conn True c2 w1 else (c2, w1))
            in Inr (c3, modfd (m_epollfd w3) (m_sockfd c3) EPOLLOUT w3))))"

end
