(* ===== verification/Http_Reply.thy ===== *)
theory Http_Reply
  imports Http_Request Http_Response
begin

unbundle bit_operations_syntax

text \<open>
  What is sent: the bytes \<open>process_write\<close> leaves in the write buffer and the vector it hands to
  writev, what the loop of \<open>write\<close> does with them, and the outcome of \<open>process\<close> for a text
  received from a client. The properties of the response side stand here.
\<close>

section \<open>The write buffer\<close>

definition written :: "http_conn \<Rightarrow> char list" where
  "written c = take (nat (m_write_idx c)) (m_write_buf c)"

definition out_ok :: "http_conn \<Rightarrow> bool" where
  "out_ok c \<longleftrightarrow> length (m_write_buf c) = WRITE_BUFFER_SIZE \<and>
     0 \<le> m_write_idx c \<and> m_write_idx c < int WRITE_BUFFER_SIZE - 1"

definition room :: "http_conn \<Rightarrow> nat" where
  "room c = WRITE_BUFFER_SIZE - 1 - nat (m_write_idx c)"

lemma out_ok_init: "out_ok (init_request c)"
  by (simp add: out_ok_def init_request_def WRITE_BUFFER_SIZE_def)

text \<open>A text is appended when it fits and dropped when it does not; nothing is written outside.\<close>

lemma add_response_outcome:
  assumes "out_ok c"
  shows "\<exists>b. let c' = c\<lparr>m_write_buf := b,
                 m_write_idx := m_write_idx c + (if length s < room c then int (length s) else 0)\<rparr>
         in add_response c s = Inr (length s < room c, c') \<and> out_ok c' \<and>
            written c' = written c @ (if length s < room c then s else [])"
proof -
  let ?i = "nat (m_write_idx c)" and ?n = "room c"
  let ?t = "take (?n - 1) s @ [NUL]"
  have i: "0 \<le> m_write_idx c" "?i + ?n = WRITE_BUFFER_SIZE - 1" "0 < ?n"
    and l: "length (m_write_buf c) = WRITE_BUFFER_SIZE"
    and r: "int WRITE_BUFFER_SIZE - 1 - m_write_idx c = int ?n"
    and lt: "\<not> int WRITE_BUFFER_SIZE \<le> m_write_idx c"
    using assms by (auto simp: out_ok_def room_def WRITE_BUFFER_SIZE_def)
  have "?i + length ?t \<le> WRITE_BUFFER_SIZE" using i by (simp add: WRITE_BUFFER_SIZE_def)
  then obtain b where pb: "put_bytes (m_write_buf c) (m_write_idx c) ?t = Inr b"
    and b: "b = take ?i (m_write_buf c) @ ?t @ drop (?i + length ?t) (m_write_buf c)"
    using i l by (simp add: put_bytes_def)
  have vs: "vsnprintf (m_write_buf c) (m_write_idx c) ?n s = Inr (int (length s), b)"
    using i(3) unfolding vsnprintf_def pb by simp
  have ar: "add_response c s = (if length s < ?n
      then Inr (True, c\<lparr>m_write_buf := b, m_write_idx := m_write_idx c + int (length s)\<rparr>)
      else Inr (False, c\<lparr>m_write_buf := b\<rparr>))"
    using lt by (simp add: add_response_def r vs)
  have lb: "length b = WRITE_BUFFER_SIZE" and pre: "take ?i b = take ?i (m_write_buf c)"
    using i l by (simp_all add: b WRITE_BUFFER_SIZE_def)
  show ?thesis
  proof (cases "length s < ?n")
    case True
    have "take (?i + length s) b = take ?i (m_write_buf c) @ s"
      using True i l by (simp add: b)
    with True ar i lb show ?thesis
      by (intro exI [of _ b]) (auto simp: Let_def out_ok_def written_def nat_add_distrib)
  next
    case False
    with ar lb pre assms show ?thesis
      by (intro exI [of _ b]) (auto simp: Let_def out_ok_def written_def)
  qed
qed

lemma add_response_fits:
  assumes "out_ok c" and "length s < room c"
  obtains b where "add_response c s = Inr (True, c\<lparr>m_write_buf := b, m_write_idx := m_write_idx c + int (length s)\<rparr>)"
    and "out_ok (c\<lparr>m_write_buf := b, m_write_idx := m_write_idx c + int (length s)\<rparr>)"
    and "written (c\<lparr>m_write_buf := b, m_write_idx := m_write_idx c + int (length s)\<rparr>) = written c @ s"
    and "room (c\<lparr>m_write_buf := b, m_write_idx := m_write_idx c + int (length s)\<rparr>) = room c - length s"
proof -
  have "nat (m_write_idx c + int (length s)) = nat (m_write_idx c) + length s"
    using assms(1) by (simp add: out_ok_def nat_add_distrib)
  then have "room (c\<lparr>m_write_buf := b, m_write_idx := m_write_idx c + int (length s)\<rparr>) = room c - length s" for b
    by (simp add: room_def)
  with add_response_outcome [OF assms(1), of s] assms(2) that show thesis by (auto simp: Let_def)
qed

lemma length_show_nat: "n < 10 ^ k \<Longrightarrow> 0 < k \<Longrightarrow> length (show_nat n) \<le> k"
proof (induction n arbitrary: k rule: show_nat.induct)
  case (1 n)
  show ?case
  proof (cases "n < 10")
    case True
    with 1 show ?thesis by (subst show_nat.simps) simp
  next
    case False
    with 1(2) have "1 < k" by (cases k; cases "k - 1") auto
    with 1(2) have "n div 10 < 10 ^ (k - 1)"
      by (metis less_mult_imp_div_less less_or_eq_imp_le mult.commute power_eq_if not_one_le_zero)
    with 1(1) False \<open>1 < k\<close> have "length (show_nat (n div 10)) \<le> k - 1" by simp
    with False \<open>1 < k\<close> show ?thesis by (subst show_nat.simps) simp
  qed
qed

lemma length_show_int: "INT_MIN \<le> i \<Longrightarrow> i \<le> INT_MAX \<Longrightarrow> length (show_int i) \<le> 11"
proof -
  assume i: "INT_MIN \<le> i" "i \<le> INT_MAX"
  then have "nat i < 10 ^ 10" "nat (- i) < 10 ^ 10" by (simp_all add: INT_MIN_def INT_MAX_def nat_less_iff)
  then have "length (show_nat (nat i)) \<le> 10" "length (show_nat (nat (- i))) \<le> 10"
    by (simp_all add: length_show_nat del: show_nat.simps)
  then show ?thesis by (simp add: show_int_def)
qed

text \<open>The head of a response.\<close>

definition response_head :: "bool \<Rightarrow> int \<Rightarrow> char list \<Rightarrow> int \<Rightarrow> char list" where
  "response_head linger status title len =
     ''HTTP/1.1'' @ [SP] @ show_int status @ [SP] @ title @ crlf @
     ''Content-Length: '' @ show_int len @ crlf @
     ''Connection: '' @ (if linger then ''keep-alive'' else ''close'') @ crlf @ crlf"

lemma head_built:
  assumes ok: "out_ok c" and fit: "m_write_idx c = 0"
    and st: "INT_MIN \<le> status" "status \<le> INT_MAX" and len: "INT_MIN \<le> n" "n \<le> INT_MAX"
    and ti: "length title \<le> 100"
  obtains b c1 where "add_status_line c status title = Inr (True, c1)"
    and "m_file_state c1 = m_file_state c"
    and "add_headers c1 n = Inr (True, c\<lparr>m_write_buf := b,
           m_write_idx := int (length (response_head (m_linger c) status title n))\<rparr>)"
    and "out_ok (c\<lparr>m_write_buf := b, m_write_idx := int (length (response_head (m_linger c) status title n))\<rparr>)"
    and "written (c\<lparr>m_write_buf := b, m_write_idx := int (length (response_head (m_linger c) status title n))\<rparr>)
           = response_head (m_linger c) status title n"
proof -
  let ?s1 = "''HTTP/1.1'' @ [SP] @ show_int status @ [SP] @ title @ crlf"
  let ?s2 = "''Content-Length: '' @ show_int n @ crlf"
  let ?s3 = "''Connection: '' @ (if m_linger c then ''keep-alive'' else ''close'') @ crlf"
  have l: "length ?s1 \<le> 123" "length ?s2 \<le> 29" "length ?s3 \<le> 24" "length crlf = 2"
    using length_show_int [OF st] length_show_int [OF len] ti by (auto simp: crlf_def)
  have r0: "room c = 1023" using fit by (simp add: room_def WRITE_BUFFER_SIZE_def)
  have w0: "written c = []" using fit by (simp add: written_def)
  have "length ?s1 < room c" using l r0 by simp
  from add_response_fits [OF ok this] obtain b1 where
    1: "add_response c ?s1 = Inr (True, c\<lparr>m_write_buf := b1, m_write_idx := m_write_idx c + int (length ?s1)\<rparr>)"
      "out_ok (c\<lparr>m_write_buf := b1, m_write_idx := m_write_idx c + int (length ?s1)\<rparr>)"
      "written (c\<lparr>m_write_buf := b1, m_write_idx := m_write_idx c + int (length ?s1)\<rparr>) = written c @ ?s1"
      "room (c\<lparr>m_write_buf := b1, m_write_idx := m_write_idx c + int (length ?s1)\<rparr>) = room c - length ?s1" .
  define c1 where "c1 = c\<lparr>m_write_buf := b1, m_write_idx := m_write_idx c + int (length ?s1)\<rparr>"
  note 1 = 1 [folded c1_def]
  have "length ?s2 < room c1" using l r0 1(4) by linarith
  from add_response_fits [OF 1(2) this] obtain b2 where
    2: "add_response c1 ?s2 = Inr (True, c1\<lparr>m_write_buf := b2, m_write_idx := m_write_idx c1 + int (length ?s2)\<rparr>)"
      "out_ok (c1\<lparr>m_write_buf := b2, m_write_idx := m_write_idx c1 + int (length ?s2)\<rparr>)"
      "written (c1\<lparr>m_write_buf := b2, m_write_idx := m_write_idx c1 + int (length ?s2)\<rparr>) = written c1 @ ?s2"
      "room (c1\<lparr>m_write_buf := b2, m_write_idx := m_write_idx c1 + int (length ?s2)\<rparr>) = room c1 - length ?s2" .
  define c2 where "c2 = c1\<lparr>m_write_buf := b2, m_write_idx := m_write_idx c1 + int (length ?s2)\<rparr>"
  note 2 = 2 [folded c2_def]
  have "length ?s3 < room c2" using l r0 1(4) 2(4) by linarith
  from add_response_fits [OF 2(2) this] obtain b3 where
    3: "add_response c2 ?s3 = Inr (True, c2\<lparr>m_write_buf := b3, m_write_idx := m_write_idx c2 + int (length ?s3)\<rparr>)"
      "out_ok (c2\<lparr>m_write_buf := b3, m_write_idx := m_write_idx c2 + int (length ?s3)\<rparr>)"
      "written (c2\<lparr>m_write_buf := b3, m_write_idx := m_write_idx c2 + int (length ?s3)\<rparr>) = written c2 @ ?s3"
      "room (c2\<lparr>m_write_buf := b3, m_write_idx := m_write_idx c2 + int (length ?s3)\<rparr>) = room c2 - length ?s3" .
  define c3 where "c3 = c2\<lparr>m_write_buf := b3, m_write_idx := m_write_idx c2 + int (length ?s3)\<rparr>"
  note 3 = 3 [folded c3_def]
  have "length crlf < room c3" using l r0 1(4) 2(4) 3(4) by linarith
  from add_response_fits [OF 3(2) this] obtain b4 where
    4: "add_response c3 crlf = Inr (True, c3\<lparr>m_write_buf := b4, m_write_idx := m_write_idx c3 + int (length crlf)\<rparr>)"
      "out_ok (c3\<lparr>m_write_buf := b4, m_write_idx := m_write_idx c3 + int (length crlf)\<rparr>)"
      "written (c3\<lparr>m_write_buf := b4, m_write_idx := m_write_idx c3 + int (length crlf)\<rparr>) = written c3 @ crlf" .
  have ling: "m_linger c2 = m_linger c" "m_linger c1 = m_linger c" by (simp_all add: c2_def c1_def)
  have c4: "c3\<lparr>m_write_buf := b4, m_write_idx := m_write_idx c3 + int (length crlf)\<rparr> =
      c\<lparr>m_write_buf := b4, m_write_idx := int (length (response_head (m_linger c) status title n))\<rparr>"
    by (simp add: c3_def c2_def c1_def fit response_head_def)
  have "add_status_line c status title = Inr (True, c1)" using 1(1) by (simp add: add_status_line_def)
  moreover have "m_file_state c1 = m_file_state c" by (simp add: c1_def)
  moreover have "add_headers c1 n = Inr (True, c3\<lparr>m_write_buf := b4, m_write_idx := m_write_idx c3 + int (length crlf)\<rparr>)"
    using 2(1) 3(1) 4(1) ling
    by (simp add: add_headers_def add_content_length_def add_linger_def add_blank_line_def)
  moreover have "written (c3\<lparr>m_write_buf := b4, m_write_idx := m_write_idx c3 + int (length crlf)\<rparr>) =
      response_head (m_linger c) status title n"
    unfolding 4(3) 3(3) 2(3) 1(3) w0 response_head_def by simp
  ultimately show thesis using that 4(2) unfolding c4 by blast
qed

lemma response_head_short:
  assumes "INT_MIN \<le> status" "status \<le> INT_MAX" and "INT_MIN \<le> n" "n \<le> INT_MAX" and "length title \<le> 100"
  shows "length (response_head linger status title n) \<le> 178"
  using length_show_int [OF assms(1,2)] length_show_int [OF assms(3,4)] assms(5)
  by (simp add: response_head_def crlf_def)

section \<open>The response of process\_write\<close>

text \<open>The four error pages.\<close>

fun error_page :: "HTTP_CODE \<Rightarrow> (int \<times> char list \<times> char list) option" where
  "error_page BAD_REQUEST = Some (400, error_400_title, error_400_form)"
| "error_page FORBIDDEN_REQUEST = Some (403, error_403_title, error_403_form)"
| "error_page NO_RESOURCE = Some (404, error_404_title, error_404_form)"
| "error_page INTERNAL_ERROR = Some (500, error_500_title, error_500_form)"
| "error_page _ = None"

text \<open>The connection with a text in its write buffer and a vector to send.\<close>

definition reply_ready :: "http_conn \<Rightarrow> buf \<Rightarrow> char list \<Rightarrow> iovec list \<Rightarrow> nat \<Rightarrow> http_conn" where
  "reply_ready c b s iov n = c\<lparr>m_write_buf := b, m_write_idx := int (length s), m_iv := iov, m_iv_count := n\<rparr>"

lemma error_response_outcome:
  assumes ok: "out_ok c" and "m_write_idx c = 0"
    and st: "INT_MIN \<le> status" "status \<le> INT_MAX" and ti: "length title \<le> 100" and fo: "length form \<le> 800"
  defines "s \<equiv> response_head (m_linger c) status title (int (length form)) @ form"
  shows "\<exists>b. error_response c status title form = Inr (True, c\<lparr>m_write_buf := b, m_write_idx := int (length s)\<rparr>) \<and>
    length b = WRITE_BUFFER_SIZE \<and> take (length s) b = s"
proof -
  have len: "INT_MIN \<le> int (length form)" "int (length form) \<le> INT_MAX"
    using fo by (simp_all add: INT_MIN_def INT_MAX_def)
  let ?h = "response_head (m_linger c) status title (int (length form))"
  obtain b c1 where 1: "add_status_line c status title = Inr (True, c1)"
    "add_headers c1 (int (length form)) = Inr (True, c\<lparr>m_write_buf := b, m_write_idx := int (length ?h)\<rparr>)"
    "out_ok (c\<lparr>m_write_buf := b, m_write_idx := int (length ?h)\<rparr>)"
    "written (c\<lparr>m_write_buf := b, m_write_idx := int (length ?h)\<rparr>) = ?h"
    by (rule head_built [OF ok assms(2) st len ti])
  let ?c2 = "c\<lparr>m_write_buf := b, m_write_idx := int (length ?h)\<rparr>"
  have "length form < room ?c2"
    using response_head_short [OF st len ti, of "m_linger c"] fo by (simp add: room_def WRITE_BUFFER_SIZE_def)
  from add_response_fits [OF 1(3) this] obtain b2 where
    2: "add_response ?c2 form = Inr (True, ?c2\<lparr>m_write_buf := b2, m_write_idx := m_write_idx ?c2 + int (length form)\<rparr>)"
    "out_ok (?c2\<lparr>m_write_buf := b2, m_write_idx := m_write_idx ?c2 + int (length form)\<rparr>)"
    "written (?c2\<lparr>m_write_buf := b2, m_write_idx := m_write_idx ?c2 + int (length form)\<rparr>) = written ?c2 @ form" .
  have "nat (int (length ?h) + int (length form)) = length ?h + length form" by simp
  with 2(3) 1(4) have "take (length s) b2 = s" by (simp add: written_def s_def)
  moreover from 2(2) have "length b2 = WRITE_BUFFER_SIZE" by (simp add: out_ok_def)
  moreover have "error_response c status title form = Inr (True, c\<lparr>m_write_buf := b2, m_write_idx := int (length s)\<rparr>)"
    using 1(1,2) 2(1) by (simp add: error_response_def add_content_def s_def)
  ultimately show ?thesis by blast
qed

lemma process_write_error:
  assumes "out_ok c" and "m_write_idx c = 0" and "error_page code = Some (status, title, form)"
  defines "s \<equiv> response_head (m_linger c) status title (int (length form)) @ form"
  shows "\<exists>b. process_write c code = Inr (True, reply_ready c b s
      ((m_iv c)[0 := \<lparr>iov_base = WriteBuf, iov_len = int (length s)\<rparr>]) 1) \<and>
    length b = WRITE_BUFFER_SIZE \<and> take (length s) b = s"
proof -
  from assms(3) have st: "INT_MIN \<le> status" "status \<le> INT_MAX" "length title \<le> 100" "length form \<le> 800"
    by (cases code; auto simp: page_defs INT_MIN_def INT_MAX_def)+
  have pw: "process_write c code = bind_res (error_response c status title form) (\<lambda>(ok, c1).
      if ok then Inr (True, single_iov c1) else Inr (False, c1))"
    using assms(3) by (cases code) (auto simp: process_write_def)
  from error_response_outcome [OF assms(1,2) st] show ?thesis
    unfolding pw s_def by (auto simp: single_iov_def reply_ready_def)
qed

lemma process_write_file:
  assumes "out_ok c" and "m_write_idx c = 0" and "st_size (m_file_state c) \<noteq> 0"
  defines "s \<equiv> response_head (m_linger c) 200 ok_200_title (int_of_long (st_size (m_file_state c)))"
  shows "\<exists>b. process_write c FILE_REQUEST = Inr (True, reply_ready c b s
      ((m_iv c)[0 := \<lparr>iov_base = WriteBuf, iov_len = int (length s)\<rparr>,
                1 := \<lparr>iov_base = FileMap (m_file_address c), iov_len = st_size (m_file_state c)\<rparr>]) 2) \<and>
    length b = WRITE_BUFFER_SIZE \<and> take (length s) b = s"
proof -
  let ?n = "int_of_long (st_size (m_file_state c))"
  have st: "INT_MIN \<le> 200" "200 \<le> INT_MAX" "length ok_200_title \<le> 100"
    by (simp_all add: INT_MIN_def INT_MAX_def page_defs)
  have n: "INT_MIN \<le> ?n" "?n \<le> INT_MAX" using int_of_long_range by blast+
  obtain b c1 where 1: "add_status_line c 200 ok_200_title = Inr (True, c1)"
    "m_file_state c1 = m_file_state c"
    "add_headers c1 ?n = Inr (True, c\<lparr>m_write_buf := b, m_write_idx := int (length s)\<rparr>)"
    "out_ok (c\<lparr>m_write_buf := b, m_write_idx := int (length s)\<rparr>)"
    "written (c\<lparr>m_write_buf := b, m_write_idx := int (length s)\<rparr>) = s"
    unfolding s_def by (rule head_built [OF assms(1,2) st(1,2) n st(3)])
  have "process_write c FILE_REQUEST = Inr (True, file_iov (c\<lparr>m_write_buf := b, m_write_idx := int (length s)\<rparr>))"
    using 1(1,2,3) assms(3) by (simp add: process_write_def)
  with 1(4,5) show ?thesis
    by (auto simp: file_iov_def reply_ready_def out_ok_def written_def)
qed

lemma process_write_empty_file:
  assumes "out_ok c" and "m_write_idx c = 0" and "st_size (m_file_state c) = 0"
  shows "\<exists>b i. process_write c FILE_REQUEST = Inr (False, c\<lparr>m_write_buf := b, m_write_idx := i\<rparr>)"
proof -
  let ?h = "response_head (m_linger c) 200 ok_200_title (int (length ok_string))"
  have st: "INT_MIN \<le> 200" "200 \<le> INT_MAX" "length ok_200_title \<le> 100" "INT_MIN \<le> int (length ok_string)"
    "int (length ok_string) \<le> INT_MAX" by (simp_all add: INT_MIN_def INT_MAX_def page_defs ok_string_def)
  obtain b c1 where 1: "add_status_line c 200 ok_200_title = Inr (True, c1)"
    "m_file_state c1 = m_file_state c"
    "add_headers c1 (int (length ok_string)) = Inr (True, c\<lparr>m_write_buf := b, m_write_idx := int (length ?h)\<rparr>)"
    "out_ok (c\<lparr>m_write_buf := b, m_write_idx := int (length ?h)\<rparr>)"
    by (rule head_built [OF assms(1,2) st(1,2,4,5,3)])
  let ?c2 = "c\<lparr>m_write_buf := b, m_write_idx := int (length ?h)\<rparr>"
  from add_response_outcome [OF 1(4), of ok_string] obtain r b2 where
    "add_response ?c2 ok_string = Inr (r, ?c2\<lparr>m_write_buf := b2, m_write_idx := m_write_idx ?c2 +
       (if length ok_string < room ?c2 then int (length ok_string) else 0)\<rparr>)"
    by (auto simp: Let_def)
  with 1(1,2,3) assms(3) show ?thesis by (auto simp: process_write_def add_content_def)
qed

section \<open>process on a received text\<close>

definition answer :: "os \<Rightarrow> char list \<Rightarrow> HTTP_CODE" where
  "answer os line =
     (case request_target line of None \<Rightarrow> BAD_REQUEST | Some u \<Rightarrow> answer_code os (request_path u))"

text \<open>What process\_write relies on of the connection process\_read returns.\<close>

definition ready_to_answer :: "http_conn \<Rightarrow> http_conn \<Rightarrow> bool" where
  "ready_to_answer c c' \<longleftrightarrow> out_ok c' \<and> m_write_idx c' = 0 \<and> \<not> m_linger c' \<and>
     m_iv c' = m_iv c \<and> m_sockfd c' = m_sockfd c"

lemma ready_line_frame:
  assumes "line_frame (line_taken (received c s\<lparr>m_checked_idx := i\<rparr>)) c'"
  shows "ready_to_answer c c' \<and> m_real_file c' = replicate FILENAME_LEN NUL"
  using assms
  by (rule line_frameE)
    (auto simp: ready_to_answer_def out_ok_def line_taken_def received_def init_request_def WRITE_BUFFER_SIZE_def)

lemma process_read_received:
  assumes nul: "set line \<inter> {NUL, CR, LF} = {}" and fit: "length line < READ_BUFFER_SIZE"
  obtains c' where "process_read os (received c line) w = Some (Inr (answer os line, c',
      case request_target line of None \<Rightarrow> w | Some u \<Rightarrow>
        if answer os line = FILE_REQUEST then emit (Close (os_open os (request_path u))) w else w))"
    and "ready_to_answer c c'"
    and "\<And>u st. request_target line = Some u \<Longrightarrow> os_stat os (request_path u) = Some st \<Longrightarrow>
      answer os line = FILE_REQUEST \<Longrightarrow> m_file_state c' = st \<and>
      m_file_address c' = os_mmap os (st_size st) (os_open os (request_path u))"
proof -
  let ?c = "received c line" and ?c1 = "received c line\<lparr>m_checked_idx := int (length line)\<rparr>"
  have ok: "conn_ok ?c" using fit by (intro conn_ok_received) simp
  have pl: "parse_line ?c = Inr (LINE_OPEN, ?c1)" using nul fit by (intro received_no_eol) auto
  have at: "str_at (m_read_buf ?c) (m_start_line ?c) line"
    using received_str_at [of line c] nul fit by simp
  have rd: "m_read_idx ?c < int READ_BUFFER_SIZE" using fit by simp
  show thesis
  proof (cases "request_target line")
    case None
    obtain ret c3 where "line_frame (line_taken ?c1) c3" and "ret = BAD_REQUEST"
      and "process_read os ?c w =
        (if ret = BAD_REQUEST then Some (Inr (BAD_REQUEST, c3, w)) else process_read_loop os LINE_OK c3 w)"
      by (rule first_iteration [OF ok rd _ pl _ at, of os w]) (simp_all add: None)
    with that [of c3] ready_line_frame None show ?thesis by (simp add: answer_def)
  next
    case (Some u)
    with process_read_cases [OF ok rd _ _ pl at, of os w] obtain c3 v where
      3: "process_read os ?c w = Some (do_request os c3 w)" "line_frame (line_taken ?c1) c3"
        "m_url c3 = Some v" "str_at (m_read_buf c3) v u" by auto
    note fr = ready_line_frame [OF 3(2)]
    have len: "length (m_real_file c3) = FILENAME_LEN" "m_real_file c3 ! (FILENAME_LEN - 1) = NUL"
      using fr by (simp_all add: FILENAME_LEN_def)
    obtain c' where c': "do_request os c3 w = Inr (answer_code os (request_path u), c',
          if answer_code os (request_path u) = FILE_REQUEST
          then emit (Close (os_open os (request_path u))) w else w)"
        "\<forall>st. os_stat os (request_path u) = Some st \<longrightarrow> m_file_state c' = st"
        "answer_code os (request_path u) = FILE_REQUEST \<longrightarrow>
           m_file_address c' = os_mmap os (st_size (m_file_state c')) (os_open os (request_path u))"
      and eq: "c' = c3\<lparr>m_real_file := m_real_file c', m_file_state := m_file_state c', m_file_address := m_file_address c'\<rparr>"
      using do_request_at [OF 3(3,4) len, of os w] by blast
    have "ready_to_answer c (c3\<lparr>m_real_file := m_real_file c', m_file_state := m_file_state c', m_file_address := m_file_address c'\<rparr>)"
      using fr by (simp add: ready_to_answer_def out_ok_def)
    with eq have "ready_to_answer c c'" by metis
    with that [of c'] 3(1) c' Some show ?thesis by (simp add: answer_def)
  qed
qed

lemma process_answers:
  assumes "process_read os c w = Some (Inr (code, c1, w1))" and "code \<noteq> NO_REQUEST"
    and "process_write c1 code = Inr (ok, c2)"
  shows "process os c w = Some (Inr (
    let (c3, w3) = (if ok then (c2, w1) else close_conn True c2 w1)
    in (c3, modfd (m_epollfd w3) (m_sockfd c3) EPOLLOUT w3)))"
  using assms by (simp add: process_def split_beta)

section \<open>The loop of write\<close>

text \<open>The bytes the first n answers of writev took.\<close>

definition taken :: "(nat \<Rightarrow> writev_answer) \<Rightarrow> nat \<Rightarrow> int" where
  "taken writev n = (\<Sum>i<n. case writev i of Sent t \<Rightarrow> t | _ \<Rightarrow> 0)"

definition sent_calls :: "(nat \<Rightarrow> writev_answer) \<Rightarrow> http_conn \<Rightarrow> nat \<Rightarrow> nat \<Rightarrow> syscall list" where
  "sent_calls writev c k n = map (\<lambda>i. Writev (m_sockfd c) (take (m_iv_count c) (m_iv c))
     (case writev i of Sent t \<Rightarrow> t | _ \<Rightarrow> 0)) [k..<n]"

lemma taken_Suc [simp]:
  "taken writev 0 = 0"
  "writev n = Sent t \<Longrightarrow> taken writev (Suc n) = taken writev n + t"
  by (simp_all add: taken_def)

definition after_calls :: "(nat \<Rightarrow> writev_answer) \<Rightarrow> http_conn \<Rightarrow> nat \<Rightarrow> nat \<Rightarrow> world \<Rightarrow> world" where
  "after_calls writev c k n w = w\<lparr>calls := calls w @ sent_calls writev c k n\<rparr>"

lemma after_calls_step:
  "k < n \<Longrightarrow> writev k = Sent t \<Longrightarrow> after_calls writev c (Suc k) n
     (emit (Writev (m_sockfd c) (take (m_iv_count c) (m_iv c)) t) w) = after_calls writev c k n w"
  by (simp add: after_calls_def sent_calls_def emit_def upt_conv_Cons)

text \<open>What the loop does when it has sent enough.\<close>

definition sent_enough :: "http_conn \<Rightarrow> world \<Rightarrow> (bool \<times> http_conn \<times> world) res" where
  "sent_enough c w = bind_res (unmap c w) (\<lambda>(c1, w1).
     Inr (m_linger c1, if m_linger c1 then init_request c1 else c1,
          modfd (m_epollfd w1) (m_sockfd c1) EPOLLIN w1))"

lemma init_request_sockfd [simp]: "m_sockfd (init_request c) = m_sockfd c"
  by (simp add: init_request_def)

lemma write_loop_sent:
  assumes "writev k = Sent t"
  shows "write_loop writev k rest done c w =
    (let w1 = emit (Writev (m_sockfd c) (take (m_iv_count c) (m_iv c)) t) w in
     if rest - t \<le> done + t then Some (sent_enough c w1)
     else write_loop writev (Suc k) (rest - t) (done + t) c w1)"
proof -
  have "(\<lambda>(c1, w2). if m_linger c1
      then let c2 = init_request c1 in Inr (True, c2, modfd (m_epollfd w2) (m_sockfd c2) EPOLLIN w2)
      else Inr (False, c1, modfd (m_epollfd w2) (m_sockfd c1) EPOLLIN w2)) =
    (\<lambda>(c1, w1). Inr (m_linger c1, if m_linger c1 then init_request c1 else c1,
        modfd (m_epollfd w1) (m_sockfd c1) EPOLLIN w1) :: (bool \<times> http_conn \<times> world) res)"
    by (rule ext) (auto simp: Let_def)
  with assms show ?thesis
    by (subst write_loop.simps) (simp add: Let_def sent_enough_def)
qed

lemma write_loop_outcome:
  assumes "\<forall>i t. writev i = Sent t \<longrightarrow> 0 < t" and "m = rest + done" and "done = taken writev k"
    and "done < rest"
  shows "\<exists>n \<ge> k. (\<forall>i. k \<le> i \<and> i < n \<longrightarrow> (\<exists>t. writev i = Sent t)) \<and>
    (\<forall>i. k \<le> i \<and> i < n \<longrightarrow> 2 * taken writev i < m) \<and>
    write_loop writev k rest done c w =
     (if m \<le> 2 * taken writev n then Some (sent_enough c (after_calls writev c k n w))
      else if writev n = Writev_again then Some (Inr (True, c,
             let w1 = after_calls writev c k n w in modfd (m_epollfd w1) (m_sockfd c) EPOLLOUT w1))
      else Some (map_res (Pair False) (unmap c (after_calls writev c k n w)))) \<and>
    (m \<le> 2 * taken writev n \<or> (\<forall>t. writev n \<noteq> Sent t))"
  using assms(2-)
proof (induction "nat (rest - done)" arbitrary: k rest "done" w rule: less_induct)
  case less
  have w0: "after_calls writev c k k w = w" by (simp add: after_calls_def sent_calls_def)
  show ?case
  proof (cases "writev k")
    case (Sent t)
    with assms(1) have t: "0 < t" by blast
    let ?w = "emit (Writev (m_sockfd c) (take (m_iv_count c) (m_iv c)) t) w"
    have tk: "done + t = taken writev (Suc k)" using Sent less.prems by simp
    show ?thesis
    proof (cases "rest - t \<le> done + t")
      case True
      have "m \<le> 2 * taken writev (Suc k)" using True less.prems tk by linarith
      moreover have "2 * taken writev k < m" using less.prems by simp
      moreover have "k \<le> i \<and> i \<le> k \<longleftrightarrow> i = k" for i by auto
      moreover have "?w = after_calls writev c k (Suc k) w"
        using after_calls_step [of k "Suc k" writev t c w] Sent by (simp add: after_calls_def sent_calls_def)
      ultimately show ?thesis using write_loop_sent [of writev k t rest "done" c w, OF Sent] True Sent
        by (intro exI [of _ "Suc k"]) (simp add: Let_def less_Suc_eq_le)
    next
      case False
      have "nat (rest - t - (done + t)) < nat (rest - done)" using t less.prems by simp
      from less.hyps [OF this, of "Suc k" ?w] False less.prems tk obtain n where n: "Suc k \<le> n"
        "\<forall>i. Suc k \<le> i \<and> i < n \<longrightarrow> (\<exists>t. writev i = Sent t)"
        "\<forall>i. Suc k \<le> i \<and> i < n \<longrightarrow> 2 * taken writev i < m"
        "write_loop writev (Suc k) (rest - t) (done + t) c ?w =
          (if m \<le> 2 * taken writev n then Some (sent_enough c (after_calls writev c (Suc k) n ?w))
           else if writev n = Writev_again then Some (Inr (True, c,
             let w1 = after_calls writev c (Suc k) n ?w in modfd (m_epollfd w1) (m_sockfd c) EPOLLOUT w1))
           else Some (map_res (Pair False) (unmap c (after_calls writev c (Suc k) n ?w))))"
        "m \<le> 2 * taken writev n \<or> (\<forall>t. writev n \<noteq> Sent t)"
        by auto
      have "k < n" using n(1) by simp
      note st = after_calls_step [of k n writev t c w, OF this Sent]
      have split: "k \<le> i \<and> i < n \<Longrightarrow> i = k \<or> Suc k \<le> i \<and> i < n" for i by auto
      have "\<forall>i. k \<le> i \<and> i < n \<longrightarrow> (\<exists>t. writev i = Sent t)" using split n(2) Sent by blast
      moreover have "\<forall>i. k \<le> i \<and> i < n \<longrightarrow> 2 * taken writev i < m"
        using split n(3) less.prems by force
      ultimately show ?thesis
        using write_loop_sent [of writev k t rest "done" c w, OF Sent] False n(1,4,5) st
        by (intro exI [of _ n]) (simp add: Let_def)
    qed
  next
    case Writev_again
    then show ?thesis using less.prems w0
      by (intro exI [of _ k]) (auto simp: write_loop.simps [of writev k])
  next
    case Writev_error
    then show ?thesis using less.prems w0
      by (intro exI [of _ k]) (auto simp: write_loop.simps [of writev k])
  qed
qed

section \<open>The properties of the response side\<close>

text \<open>
  add\_response never writes outside the write buffer: it appends the text when it fits with its
  terminator, and otherwise reports false and leaves what was written before as it was.
\<close>

theorem add_response_bounded:
  assumes "out_ok c"
  shows "\<exists>b. let fits = length s < WRITE_BUFFER_SIZE - 1 - nat (m_write_idx c);
      c' = c\<lparr>m_write_buf := b, m_write_idx := m_write_idx c + (if fits then int (length s) else 0)\<rparr>
    in add_response c s = Inr (fits, c') \<and> out_ok c' \<and> written c' = written c @ (if fits then s else [])"
  using add_response_outcome [OF assms, of s] by (simp add: room_def Let_def)

lemma add_response_bounded_witness:
  "\<exists>b. add_response raw_conn ''hi'' = Inr (True, raw_conn\<lparr>m_write_buf := b, m_write_idx := 2\<rparr>)"
proof -
  have "out_ok raw_conn" by (simp add: out_ok_def raw_conn_def WRITE_BUFFER_SIZE_def)
  from add_response_bounded [OF this, of "''hi''"] obtain b where
    "add_response raw_conn ''hi'' = Inr (2 < (1023 :: nat), raw_conn\<lparr>m_write_buf := b, m_write_idx := 0 + (if 2 < (1023 :: nat) then 2 else 0)\<rparr>)"
    by (auto simp: Let_def WRITE_BUFFER_SIZE_def raw_conn_def)
  then show ?thesis by auto
qed

text \<open>
  C10. The complete reply of process\_write on an initialised write buffer: for the four error codes the
  status line, the headers with the page's true length, the blank line and the page, as one vector;
  for a file the head with the size narrowed to int, and a second vector with the mapping; for an
  empty file, and for every other code, false.
\<close>

theorem process_write_reply:
  assumes "out_ok c" and "m_write_idx c = 0"
  shows "case error_page code of
      Some (status, title, form) \<Rightarrow>
        (let s = response_head (m_linger c) status title (int (length form)) @ form in
         \<exists>b. process_write c code = Inr (True, reply_ready c b s
            ((m_iv c)[0 := \<lparr>iov_base = WriteBuf, iov_len = int (length s)\<rparr>]) 1) \<and> take (length s) b = s)
    | None \<Rightarrow>
        if code = FILE_REQUEST \<and> st_size (m_file_state c) \<noteq> 0 then
          (let s = response_head (m_linger c) 200 ok_200_title (int_of_long (st_size (m_file_state c))) in
           \<exists>b. process_write c code = Inr (True, reply_ready c b s
              ((m_iv c)[0 := \<lparr>iov_base = WriteBuf, iov_len = int (length s)\<rparr>,
                1 := \<lparr>iov_base = FileMap (m_file_address c), iov_len = st_size (m_file_state c)\<rparr>]) 2) \<and>
             take (length s) b = s)
        else \<exists>c'. process_write c code = Inr (False, c')"
proof (cases "error_page code")
  case (Some a)
  obtain status title form where a: "a = (status, title, form)" by (cases a)
  show ?thesis using process_write_error [OF assms Some [unfolded a]]
    unfolding Some a by (auto simp: Let_def)
next
  case None
  show ?thesis
  proof (cases "code = FILE_REQUEST")
    case True
    then show ?thesis using None process_write_file [OF assms] process_write_empty_file [OF assms]
      by (auto simp: Let_def)
  next
    case False
    with None show ?thesis by (cases code) (auto simp: process_write_def)
  qed
qed

lemma process_write_reply_witness:
  "\<exists>b. process_write (conn_with []) NO_RESOURCE = Inr (True, reply_ready (conn_with []) b
     (response_head False 404 error_404_title 46 @ error_404_form)
     [\<lparr>iov_base = WriteBuf, iov_len = int (length (response_head False 404 error_404_title 46 @ error_404_form))\<rparr>,
      \<lparr>iov_base = IovUninit, iov_len = 0\<rparr>] 1)"
proof -
  have "out_ok (conn_with [])" "m_write_idx (conn_with []) = 0" "\<not> m_linger (conn_with [])"
    "m_iv (conn_with []) = [\<lparr>iov_base = IovUninit, iov_len = 0\<rparr>, \<lparr>iov_base = IovUninit, iov_len = 0\<rparr>]"
    by (simp_all add: out_ok_def conn_with_def received_def init_request_def raw_conn_def WRITE_BUFFER_SIZE_def)
  moreover have "int (length error_404_form) = 46" by code_simp
  ultimately show ?thesis using process_write_reply [of "conn_with []" NO_RESOURCE]
    by (auto simp: Let_def)
qed

text \<open>
  C38. write, with a peer that takes at least one byte per call: it always returns; every call of writev
  passes the same, unmoved vector; and the loop stops at the first call after which twice the bytes
  taken reach the length of the head alone, so a file's bytes are never counted.
\<close>

theorem write_stops_halfway:
  assumes "\<forall>i t. writev i = Sent t \<longrightarrow> 0 < t" and "0 < m_write_idx c"
  shows "\<exists>n. (\<forall>i < n. \<exists>t. writev i = Sent t) \<and> (\<forall>i < n. 2 * taken writev i < m_write_idx c) \<and>
    http_write writev c w =
     (if m_write_idx c \<le> 2 * taken writev n then Some (sent_enough c (after_calls writev c 0 n w))
      else if writev n = Writev_again then Some (Inr (True, c,
             let w1 = after_calls writev c 0 n w in modfd (m_epollfd w1) (m_sockfd c) EPOLLOUT w1))
      else Some (map_res (Pair False) (unmap c (after_calls writev c 0 n w)))) \<and>
    (m_write_idx c \<le> 2 * taken writev n \<or> (\<forall>t. writev n \<noteq> Sent t))"
proof -
  have "http_write writev c w = write_loop writev 0 (m_write_idx c) 0 c w"
    using assms(2) by (simp add: http_write_def)
  with write_loop_outcome [of writev "m_write_idx c" "m_write_idx c" 0 0 c w] assms show ?thesis
    by simp
qed

lemma write_stops_halfway_witness:
  "http_write (\<lambda>_. Sent 5) (raw_conn\<lparr>m_write_idx := 10, m_file_address := MNull\<rparr>) sample_world =
     Some (sent_enough (raw_conn\<lparr>m_write_idx := 10, m_file_address := MNull\<rparr>)
       (after_calls (\<lambda>_. Sent 5) (raw_conn\<lparr>m_write_idx := 10, m_file_address := MNull\<rparr>) 0 1 sample_world))"
proof -
  let ?c = "raw_conn\<lparr>m_write_idx := 10, m_file_address := MNull\<rparr>"
  from write_stops_halfway [of "\<lambda>_. Sent 5" ?c sample_world] obtain n where
    n: "\<forall>i < n. 2 * taken (\<lambda>_. Sent 5) i < 10" "10 \<le> 2 * taken (\<lambda>_. Sent 5) n"
    and h: "http_write (\<lambda>_. Sent 5) ?c sample_world = Some (sent_enough ?c (after_calls (\<lambda>_. Sent 5) ?c 0 n sample_world))"
    by (auto split: if_splits)
  have "taken (\<lambda>_. Sent 5) i = 5 * int i" for i by (simp add: taken_def)
  with n have "n = 1" by (cases "1 < n") auto
  with h show ?thesis by simp
qed

text \<open>
  C5. A valid request for a readable, non-empty file, received in one piece and without a line end, is
  answered: one call of process maps the file, closes its descriptor, leaves the head and the mapping
  in the vector and arms the socket for writing.
\<close>

theorem file_request_served:
  assumes "request_target line = Some u" and "set line \<inter> {NUL, CR, LF} = {}"
    and "length line < READ_BUFFER_SIZE" and "length (m_iv c) = 2"
    and "answer_code os (request_path u) = FILE_REQUEST"
    and "os_stat os (request_path u) = Some st" and "st_size st \<noteq> 0"
  defines "s \<equiv> response_head False 200 ok_200_title (int_of_long (st_size st))"
  shows "\<exists>c'. process os (received c line) w =
      Some (Inr (c', modfd (m_epollfd w) (m_sockfd c) EPOLLOUT (emit (Close (os_open os (request_path u))) w))) \<and>
    take (nat (m_write_idx c')) (m_write_buf c') = s \<and>
    take (m_iv_count c') (m_iv c') =
      [\<lparr>iov_base = WriteBuf, iov_len = int (length s)\<rparr>,
       \<lparr>iov_base = FileMap (os_mmap os (st_size st) (os_open os (request_path u))), iov_len = st_size st\<rparr>]"
proof -
  have an: "answer os line = FILE_REQUEST" using assms(1,5) by (simp add: answer_def)
  obtain c1 where 1: "process_read os (received c line) w =
      Some (Inr (FILE_REQUEST, c1, emit (Close (os_open os (request_path u))) w))"
    and rd: "ready_to_answer c c1" and fs: "m_file_state c1 = st"
    and fa: "m_file_address c1 = os_mmap os (st_size st) (os_open os (request_path u))"
    by (rule process_read_received [OF assms(2,3), of os c w]) (use an assms(1,6) in simp)
  from rd process_write_file [of c1] fs assms(7) obtain b where
    2: "process_write c1 FILE_REQUEST = Inr (True, reply_ready c1 b s
      ((m_iv c1)[0 := \<lparr>iov_base = WriteBuf, iov_len = int (length s)\<rparr>,
                1 := \<lparr>iov_base = FileMap (m_file_address c1), iov_len = st_size st\<rparr>]) 2)"
      "take (length s) b = s"
    by (auto simp: ready_to_answer_def s_def)
  obtain x y where "m_iv c = [x, y]" using assms(4) by (auto simp: length_Suc_conv numeral_2_eq_2)
  with process_answers [OF 1 _ 2(1)] 2(2) rd fa show ?thesis
    by (auto simp: reply_ready_def ready_to_answer_def)
qed

lemma file_request_served_witness:
  "\<exists>c'. process sample_os (conn_with ''GET /a HTTP/1.1'') sample_world =
      Some (Inr (c', modfd 5 (-1) EPOLLOUT (emit (Close 9) sample_world)))"
proof -
  have "request_target ''GET /a HTTP/1.1'' = Some ''/a''" by code_simp
  note f = file_request_served [OF this, of raw_conn sample_os "\<lparr>st_mode = 4, st_size = 10\<rparr>" sample_world]
  have "answer_code sample_os (request_path ''/a'') = FILE_REQUEST"
    by (simp add: answer_code_def sample_os_def flag_defs)
  with f show ?thesis unfolding conn_with_def
    by (auto simp: READ_BUFFER_SIZE_def raw_conn_def sample_os_def sample_world_def)
qed

text \<open>
  C39. Every other text received whole in a buffer that is not full, without CR, LF and NUL, gets its error page: a malformed line 400, a missing file
  404, a file others cannot read 403, a directory 400; the page is in the write buffer, the vector
  covers it, and the socket is armed for writing.
\<close>

theorem error_answered:
  assumes "set line \<inter> {NUL, CR, LF} = {}" and "length line < READ_BUFFER_SIZE" and "m_iv c \<noteq> []"
    and "error_page (answer os line) = Some (status, title, form)"
  defines "s \<equiv> response_head False status title (int (length form)) @ form"
  shows "\<exists>c'. process os (received c line) w = Some (Inr (c', modfd (m_epollfd w) (m_sockfd c) EPOLLOUT w)) \<and>
    take (nat (m_write_idx c')) (m_write_buf c') = s \<and>
    take (m_iv_count c') (m_iv c') = [\<lparr>iov_base = WriteBuf, iov_len = int (length s)\<rparr>]"
proof -
  have an: "answer os line \<noteq> FILE_REQUEST" "answer os line \<noteq> NO_REQUEST" using assms(4) by auto
  obtain c1 where 1: "process_read os (received c line) w = Some (Inr (answer os line, c1, w))"
    and rd: "ready_to_answer c c1"
    by (rule process_read_received [OF assms(1,2), of os c w]) (use an in \<open>auto split: option.splits\<close>)
  from rd process_write_error [of c1, OF _ _ assms(4)] obtain b where
    2: "process_write c1 (answer os line) = Inr (True, reply_ready c1 b s
      ((m_iv c1)[0 := \<lparr>iov_base = WriteBuf, iov_len = int (length s)\<rparr>]) 1)"
      "take (length s) b = s"
    by (auto simp: ready_to_answer_def s_def)
  obtain x ys where "m_iv c = x # ys" using assms(3) by (cases "m_iv c") auto
  with process_answers [OF 1 an(2) 2(1)] 2(2) rd show ?thesis
    by (auto simp: reply_ready_def ready_to_answer_def)
qed

lemma error_answered_witness:
  "\<exists>c'. process sample_os (conn_with ''HELLO'') sample_world =
      Some (Inr (c', modfd 5 (-1) EPOLLOUT sample_world)) \<and>
    take (nat (m_write_idx c')) (m_write_buf c') =
      response_head False 400 error_400_title (int (length error_400_form)) @ error_400_form"
proof -
  have "request_target ''HELLO'' = None" by code_simp
  then have "error_page (answer sample_os ''HELLO'') = Some (400, error_400_title, error_400_form)"
    by (simp add: answer_def)
  from error_answered [OF _ _ _ this, of raw_conn sample_world] show ?thesis unfolding conn_with_def
    by (auto simp: READ_BUFFER_SIZE_def raw_conn_def sample_world_def)
qed

text \<open>
  A valid request for an empty file gets no response at all: process closes the connection, counts
  it out, and then re-arms descriptor -1.
\<close>

theorem empty_file_dropped:
  assumes "request_target line = Some u" and "set line \<inter> {NUL, CR, LF} = {}"
    and "length line < READ_BUFFER_SIZE" and "m_sockfd c \<noteq> -1"
    and "answer_code os (request_path u) = FILE_REQUEST"
    and "os_stat os (request_path u) = Some st" and "st_size st = 0"
  shows "\<exists>c' w'. process os (received c line) w = Some (Inr (c', w')) \<and> m_sockfd c' = -1 \<and>
    m_user_count w' = m_user_count w - 1 \<and>
    calls w' = calls w @ [Close (os_open os (request_path u)), Epoll_del (m_epollfd w) (m_sockfd c),
      Close (m_sockfd c), Epoll_mod (m_epollfd w) (-1) (EPOLLOUT OR EPOLLET OR EPOLLONESHOT OR EPOLLRDHUP)]"
proof -
  have an: "answer os line = FILE_REQUEST" using assms(1,5) by (simp add: answer_def)
  obtain c1 where 1: "process_read os (received c line) w =
      Some (Inr (FILE_REQUEST, c1, emit (Close (os_open os (request_path u))) w))"
    and rd: "ready_to_answer c c1" and fs: "m_file_state c1 = st"
    by (rule process_read_received [OF assms(2,3), of os c w]) (use an assms(1,6) in simp)
  from rd process_write_empty_file [of c1] fs assms(7) obtain b i where
    2: "process_write c1 FILE_REQUEST = Inr (False, c1\<lparr>m_write_buf := b, m_write_idx := i\<rparr>)"
    by (auto simp: ready_to_answer_def)
  from process_answers [OF 1 _ 2] rd assms(4) show ?thesis
    by (auto simp: close_conn_def Let_def ready_to_answer_def)
qed

lemma empty_file_dropped_witness:
  "\<exists>c' w'. process (sample_os\<lparr>os_stat := \<lambda>_. Some \<lparr>st_mode = 4, st_size = 0\<rparr>\<rparr>)
      (received (raw_conn\<lparr>m_sockfd := 7\<rparr>) ''GET /a HTTP/1.1'') sample_world = Some (Inr (c', w')) \<and>
    m_sockfd c' = -1 \<and> m_user_count w' = -1"
proof -
  let ?os = "sample_os\<lparr>os_stat := \<lambda>_. Some \<lparr>st_mode = 4, st_size = 0\<rparr>\<rparr>"
  have "request_target ''GET /a HTTP/1.1'' = Some ''/a''" by code_simp
  note f = empty_file_dropped [OF this, of "raw_conn\<lparr>m_sockfd := 7\<rparr>" ?os "\<lparr>st_mode = 4, st_size = 0\<rparr>" sample_world]
  have "answer_code ?os (request_path ''/a'') = FILE_REQUEST"
    by (simp add: answer_code_def flag_defs)
  with f show ?thesis by (auto simp: READ_BUFFER_SIZE_def sample_world_def)
qed

text \<open>
  Opening and closing a connection balance: init registers the descriptor for one-shot, edge
  triggered reading and counts it; the first close\_conn deregisters and closes it and counts it out;
  every further close\_conn has no effect.
\<close>

theorem open_close_balance:
  assumes "fd \<noteq> -1" and "init_conn os fd addr c w = (c1, w1)" and "epoll_table (m_epollfd w) (calls w) fd = None"
    and "close_conn True c1 w1 = (c2, w2)"
  shows "epoll_table (m_epollfd w) (calls w1) fd = Some ((EPOLLIN OR EPOLLET OR EPOLLRDHUP) OR EPOLLONESHOT) \<and>
    m_user_count w1 = m_user_count w + 1 \<and>
    epoll_table (m_epollfd w) (calls w2) = epoll_table (m_epollfd w) (calls w) \<and> m_user_count w2 = m_user_count w \<and>
    close_conn True c2 w2 = (c2, w2)"
proof (intro conjI)
  have 1: "c1 = init_request (c\<lparr>m_sockfd := fd, m_address := addr\<rparr>)"
    "w1 = (addfd os (m_epollfd w) fd True w)\<lparr>m_user_count := m_user_count w + 1\<rparr>"
    using assms(2) by (auto simp: init_conn_def Let_def)
  show "epoll_table (m_epollfd w) (calls w1) fd = Some ((EPOLLIN OR EPOLLET OR EPOLLRDHUP) OR EPOLLONESHOT)"
    and "m_user_count w1 = m_user_count w + 1"
    using assms(3) by (simp_all add: 1 addfd_def setnonblocking_def Let_def)
  have 2: "c2 = c1\<lparr>m_sockfd := -1\<rparr>" "w2 = (removefd (m_epollfd w1) fd w1)\<lparr>m_user_count := m_user_count w\<rparr>"
    using assms(1,4) by (auto simp: close_conn_def Let_def 1)
  show "m_user_count w2 = m_user_count w" and "close_conn True c2 w2 = (c2, w2)"
    by (simp_all add: 2 close_conn_def)
  show "epoll_table (m_epollfd w) (calls w2) = epoll_table (m_epollfd w) (calls w)"
    using assms(3) by (auto simp: 1 2 addfd_def setnonblocking_def Let_def)
qed

lemma open_close_balance_witness:
  "close_conn True (raw_conn\<lparr>m_sockfd := -1\<rparr>) sample_world = (raw_conn\<lparr>m_sockfd := -1\<rparr>, sample_world) \<and>
   (\<exists>c1 w1. init_conn sample_os 7 0 raw_conn sample_world = (c1, w1) \<and>
      epoll_table (m_epollfd sample_world) (calls w1) 7 = Some ((EPOLLIN OR EPOLLET OR EPOLLRDHUP) OR EPOLLONESHOT))"
proof -
  obtain c1 w1 where 1: "init_conn sample_os 7 0 raw_conn sample_world = (c1, w1)" by (cases "init_conn sample_os 7 0 raw_conn sample_world")
  obtain c2 w2 where 2: "close_conn True c1 w1 = (c2, w2)" by (cases "close_conn True c1 w1")
  have "epoll_table (m_epollfd sample_world) (calls sample_world) 7 = None" by (simp add: sample_world_def)
  from open_close_balance [OF _ 1 this 2] 1 show ?thesis by (simp add: close_conn_def)
qed

end
