(* ===== verification/Transitions.thy ===== *)
theory Transitions
  imports Prelude
begin

text \<open>
  Runs of a system given as a step relation: the events of a run, in order, and the state it ends in,
  None after an undefined behaviour. The locales prove once what a component's step lemma gives for
  every run: that an invariant holds and no run is undefined, and that a relation between the first
  state, the events and the last state is kept.
\<close>

inductive run :: "('s \<Rightarrow> 'e \<Rightarrow> 's option \<Rightarrow> bool) \<Rightarrow> 's \<Rightarrow> 'e list \<Rightarrow> 's option \<Rightarrow> bool"
  for sys :: "'s \<Rightarrow> 'e \<Rightarrow> 's option \<Rightarrow> bool" where
  start: "run sys s [] (Some s)"
| step: "run sys s evs (Some s1) \<Longrightarrow> sys s1 ev s2 \<Longrightarrow> run sys s (evs @ [ev]) s2"

inductive_simps run_Nil [simp]: "run sys s [] r"

lemma run_snoc: "run sys s (evs @ [ev]) r \<longleftrightarrow> (\<exists>s1. run sys s evs (Some s1) \<and> sys s1 ev r)"
  by (subst run.simps) auto

lemma run_single: "sys s ev r \<Longrightarrow> run sys s [ev] r"
  using run.step [OF run.start] by fastforce

lemma run_Cons: "sys s ev (Some s1) \<Longrightarrow> run sys s1 evs r \<Longrightarrow> run sys s (ev # evs) r"
proof (induction evs arbitrary: r rule: rev_induct)
  case Nil
  then show ?case using run_single by force
next
  case (snoc e evs)
  then obtain s2 where "run sys s1 evs (Some s2)" "sys s2 e r" by (auto simp: run_snoc)
  with snoc have "run sys s ((ev # evs) @ [e]) r" unfolding run_snoc by blast
  then show ?case by simp
qed

locale safe_system =
  fixes sys :: "'s \<Rightarrow> 'e \<Rightarrow> 's option \<Rightarrow> bool" and inv :: "'s \<Rightarrow> bool" and allowed :: "'e \<Rightarrow> bool"
  assumes step_safe: "inv s \<Longrightarrow> allowed ev \<Longrightarrow> sys s ev r \<Longrightarrow> \<exists>s'. r = Some s' \<and> inv s'"
begin

lemma run_safe:
  assumes "run sys s evs r" and "inv s" and "\<forall>ev \<in> set evs. allowed ev"
  shows "\<exists>s'. r = Some s' \<and> inv s'"
  using assms
proof (induction rule: run.induct)
  case (step s evs s1 ev s2)
  then have "inv s1" and "allowed ev" by auto
  with step_safe step.hyps(2) show ?case by blast
qed simp

end

locale traced_system =
  fixes sys :: "'s \<Rightarrow> 'e \<Rightarrow> 's option \<Rightarrow> bool" and rel :: "'s \<Rightarrow> 'e list \<Rightarrow> 's \<Rightarrow> bool"
  assumes rel_start: "rel s [] s"
    and rel_step: "rel s evs s1 \<Longrightarrow> sys s1 ev (Some s2) \<Longrightarrow> rel s (evs @ [ev]) s2"
begin

lemma run_rel:
  assumes "run sys s evs (Some s')"
  shows "rel s evs s'"
  using assms
proof (induction evs arbitrary: s' rule: rev_induct)
  case Nil
  then show ?case by (simp add: rel_start)
next
  case (snoc ev evs)
  from snoc.prems obtain s1 where "run sys s evs (Some s1)" and st: "sys s1 ev (Some s')"
    by (auto simp: run_snoc)
  from snoc.IH [OF this(1)] st show ?case by (rule rel_step)
qed

end

end
