(* ===== verification/Web_Server.thy ===== *)
theory Web_Server
  imports Http_Reply Transitions
begin

unbundle bit_operations_syntax

text \<open>
  The event loop of \<^verbatim>\<open>src/src/httpConn/web_server.cpp\<close>: the array of connections, the dispatch of one
  event and the workers that process handed-over connections, over the epoll table that the calls
  made so far have left. The answers of accept, recv and writev come with the event; epoll\_wait only
  reports descriptors that are registered.
\<close>

section \<open>The model\<close>

definition MAX_FD :: int where "MAX_FD = 65536"
definition MAX_EVENT_NUMBER :: nat where "MAX_EVENT_NUMBER = 10000"

record server =
  users :: "int \<Rightarrow> http_conn"
  net :: world
  handed :: "int list"

record delivery =
  ev_fd :: int
  ev_flags :: flags
  ev_accept :: "int \<times> nat"
  ev_recv :: recv_fun
  ev_writev :: "nat \<Rightarrow> writev_answer"

definition show_error :: "int \<Rightarrow> char list \<Rightarrow> world \<Rightarrow> world" where
  "show_error connfd info w = emit (Close connfd) (emit (Send connfd info) w)"

definition user_at :: "int \<Rightarrow> server \<Rightarrow> http_conn res" where
  "user_at fd s = (if 0 \<le> fd \<and> fd < MAX_FD then Inr (users s fd) else Inl OutOfBounds)"

definition set_user :: "int \<Rightarrow> http_conn \<times> world \<Rightarrow> server \<Rightarrow> server" where
  "set_user fd cw s = s\<lparr>users := (users s)(fd := fst cw), net := snd cw\<rparr>"

text \<open>main before the loop: the listening socket is registered, and the static epoll descriptor set.\<close>

definition start_server :: "os \<Rightarrow> int \<Rightarrow> int \<Rightarrow> server" where
  "start_server os listenfd epollfd =
     \<lparr>users = (\<lambda>_. raw_conn),
      net = (addfd os epollfd listenfd False \<lparr>m_epollfd = 0, m_user_count = 0, calls = []\<rparr>)\<lparr>m_epollfd := epollfd\<rparr>,
      handed = []\<rparr>"

text \<open>
  One turn of the for loop. A new connection is initialised with sockfd, which here is the listening
  socket, and not with connfd.
\<close>

definition accept_connection :: "os \<Rightarrow> int \<Rightarrow> int \<times> nat \<Rightarrow> server \<Rightarrow> server res" where
  "accept_connection os sockfd accepted s =
     (let (connfd, client_addr) = accepted in
      if connfd < 0 then Inr s
      else if m_user_count (net s) \<ge> MAX_FD
        then Inr (s\<lparr>net := show_error connfd ''Internal Server busy'' (net s)\<rparr>)
      else bind_res (user_at connfd s) (\<lambda>c.
        Inr (set_user connfd (init_conn os sockfd client_addr c (net s)) s)))"

definition close_user :: "int \<Rightarrow> server \<Rightarrow> server res" where
  "close_user sockfd s = bind_res (user_at sockfd s) (\<lambda>c. Inr (set_user sockfd (close_conn True c (net s)) s))"

definition dispatch :: "os \<Rightarrow> int \<Rightarrow> delivery \<Rightarrow> server \<Rightarrow> server res option" where
  "dispatch os listenfd e s =
     (let sockfd = ev_fd e in
      if sockfd = listenfd then Some (accept_connection os sockfd (ev_accept e) s)
      else if ev_flags e AND (EPOLLRDHUP OR EPOLLHUP OR EPOLLERR) \<noteq> 0 then Some (close_user sockfd s)
      else if ev_flags e AND EPOLLIN \<noteq> 0 then
        bind_run (Some (user_at sockfd s)) (\<lambda>c.
        bind_run (read (ev_recv e) c) (\<lambda>(ok, c1).
        let s1 = s\<lparr>users := (users s)(sockfd := c1)\<rparr> in
        if ok then Some (Inr (s1\<lparr>handed := handed s @ [sockfd]\<rparr>)) else Some (close_user sockfd s1)))
      else if ev_flags e AND EPOLLOUT \<noteq> 0 then
        bind_run (Some (user_at sockfd s)) (\<lambda>c.
        bind_run (http_write (ev_writev e) c (net s)) (\<lambda>(ok, c1, w1).
        let s1 = set_user sockfd (c1, w1) s in
        if \<not> ok then Some (close_user sockfd s1) else Some (Inr s1)))
      else Some (Inr s))"

text \<open>A worker of the pool processes a connection that was handed to it.\<close>

definition work_on :: "os \<Rightarrow> int \<Rightarrow> server \<Rightarrow> server res option" where
  "work_on os fd s =
     bind_run (Some (user_at fd s)) (\<lambda>c.
     bind_run (process os c (net s)) (\<lambda>cw. Some (Inr (set_user fd cw s))))"

datatype server_event = Delivered delivery | Worked int

text \<open>The descriptors registered with the epoll instance of the server.\<close>

definition registered :: "server \<Rightarrow> int \<Rightarrow> flags option" where
  "registered s = epoll_table (m_epollfd (net s)) (calls (net s))"

text \<open>The steps: an event of a registered descriptor, or a worker; None is undefined behaviour.\<close>

inductive server_step :: "os \<Rightarrow> int \<Rightarrow> server \<Rightarrow> server_event \<Rightarrow> server option \<Rightarrow> bool"
  for os :: os and listenfd :: int where
  loop: "registered s (ev_fd e) \<noteq> None \<Longrightarrow> dispatch os listenfd e s = Some (Inr s') \<Longrightarrow>
     server_step os listenfd s (Delivered e) (Some s')"
| loop_undefined: "registered s (ev_fd e) \<noteq> None \<Longrightarrow> dispatch os listenfd e s = Some (Inl ub) \<Longrightarrow>
     server_step os listenfd s (Delivered e) None"
| work: "fd \<in> set (handed s) \<Longrightarrow> work_on os fd s = Some (Inr s') \<Longrightarrow>
     server_step os listenfd s (Worked fd) (Some s')"
| work_undefined: "fd \<in> set (handed s) \<Longrightarrow> work_on os fd s = Some (Inl ub) \<Longrightarrow>
     server_step os listenfd s (Worked fd) None"

inductive_cases server_stepE: "server_step os listenfd s ev r"

section \<open>What a run of the server can do\<close>

text \<open>
  The state every run stays in: only the listening socket is registered, nothing was handed to the
  pool, and every open connection object holds the listening socket.
\<close>

definition deaf :: "int \<Rightarrow> server \<Rightarrow> bool" where
  "deaf listenfd s \<longleftrightarrow> dom (registered s) = {listenfd} \<and> handed s = [] \<and>
     (\<forall>fd. m_sockfd (users s fd) \<in> {-1, listenfd})"

lemma init_conn_parts:
  "snd (init_conn os fd addr c w) = (addfd os (m_epollfd w) fd True w)\<lparr>m_user_count := m_user_count w + 1\<rparr>"
  "m_sockfd (fst (init_conn os fd addr c w)) = fd"
  by (simp_all add: init_conn_def Let_def)

lemma addfd_calls:
  "calls (addfd os ep fd one w) = calls w @
     [Epoll_add ep fd (if one then (EPOLLIN OR EPOLLET OR EPOLLRDHUP) OR EPOLLONESHOT
        else EPOLLIN OR EPOLLET OR EPOLLRDHUP),
      Fcntl_setfl fd (os_getfl os fd OR O_NONBLOCK)]"
  by (simp add: addfd_def setnonblocking_def Let_def)

lemma accept_deaf:
  assumes "deaf listenfd s" and "accept_connection os listenfd (connfd, addr) s = Inr s'"
    and "connfd \<noteq> listenfd"
  shows "deaf listenfd s' \<and> m_user_count (net s') =
    (if connfd < 0 \<or> MAX_FD \<le> m_user_count (net s) then m_user_count (net s) else m_user_count (net s) + 1)"
proof -
  have reg: "registered s listenfd \<noteq> None" "registered s connfd = None"
    using assms(1,3) by (auto simp: registered_def deaf_def dom_def set_eq_iff)
  consider "connfd < 0" | "0 \<le> connfd" "MAX_FD \<le> m_user_count (net s)"
    | "0 \<le> connfd" "m_user_count (net s) < MAX_FD" by linarith
  then show ?thesis
  proof cases
    case 1
    with assms show ?thesis by (simp add: accept_connection_def)
  next
    case 2
    with assms(2) have "s' = s\<lparr>net := show_error connfd ''Internal Server busy'' (net s)\<rparr>"
      by (simp add: accept_connection_def)
    with 2 assms(1) reg show ?thesis
      by (auto simp: registered_def deaf_def show_error_def fun_upd_idem)
  next
    case 3
    with assms(2) have "s' = set_user connfd (init_conn os listenfd addr (users s connfd) (net s)) s"
      by (auto simp: accept_connection_def user_at_def split: if_splits)
    with 3 assms(1) reg show ?thesis
      by (auto simp: registered_def deaf_def set_user_def init_conn_parts addfd_calls)
  qed
qed

text \<open>What accept promises: an error or a descriptor not in use; and the limit on descriptors.\<close>

definition fresh_accept :: "int \<Rightarrow> server_event \<Rightarrow> bool" where
  "fresh_accept listenfd ev =
     (case ev of Delivered e \<Rightarrow> fst (ev_accept e) \<noteq> listenfd \<and> fst (ev_accept e) < MAX_FD | Worked fd \<Rightarrow> True)"

lemma accept_defined:
  "connfd < MAX_FD \<Longrightarrow> \<exists>s'. accept_connection os listenfd (connfd, addr) s = Inr s'"
  by (auto simp: accept_connection_def user_at_def)

lemma deaf_step:
  assumes "deaf listenfd s" and "fresh_accept listenfd ev" and "server_step os listenfd s ev r"
  shows "\<exists>s'. r = Some s' \<and> deaf listenfd s'"
proof -
  have only: "ev_fd e = listenfd" if "registered s (ev_fd e) \<noteq> None" for e
    using assms(1) that by (auto simp: registered_def deaf_def dom_def set_eq_iff)
  have acc: "\<exists>s'. dispatch os listenfd e s = Some (Inr s') \<and> deaf listenfd s'"
    if "registered s (ev_fd e) \<noteq> None" and "ev = Delivered e" for e
  proof -
    obtain connfd addr where a: "ev_accept e = (connfd, addr)" by (cases "ev_accept e")
    with assms(2) that(2) have "connfd \<noteq> listenfd" "connfd < MAX_FD" by (simp_all add: fresh_accept_def)
    with accept_defined [of connfd os listenfd addr s] accept_deaf [OF assms(1), of os connfd addr] show ?thesis
      using only [OF that(1)] a by (auto simp: dispatch_def Let_def)
  qed
  show ?thesis using assms(3)
  proof (cases rule: server_step.cases)
    case (loop e s')
    with acc [OF loop(3) loop(1)] show ?thesis by auto
  next
    case (loop_undefined e ub)
    with acc [OF loop_undefined(3) loop_undefined(1)] show ?thesis by auto
  qed (use assms(1) in \<open>simp_all add: deaf_def\<close>)
qed

interpretation deaf_server: safe_system "server_step os listenfd" "deaf listenfd" "fresh_accept listenfd"
  for os listenfd
  by unfold_locales (rule deaf_step)

lemma deaf_start: "deaf listenfd (start_server os listenfd epollfd)"
  by (simp add: registered_def deaf_def start_server_def addfd_calls raw_conn_def epoll_table_def)

section \<open>The properties of the server\<close>

text \<open>
  C8. The server never serves a connection: in every run from main, under the contracts of epoll\_wait
  and accept, the listening socket stays the only descriptor registered with epoll, so no event of a
  connection is ever delivered, none is read, and nothing is ever handed to the pool.
\<close>

theorem connections_never_served:
  assumes "run (server_step os listenfd) (start_server os listenfd epollfd) evs r"
    and "\<forall>ev \<in> set evs. fresh_accept listenfd ev"
  shows "\<exists>s. r = Some s \<and> dom (registered s) = {listenfd} \<and> handed s = [] \<and>
    (\<forall>ev \<in> set evs. \<exists>e. ev = Delivered e)"
proof -
  from deaf_server.run_safe [OF assms(1) deaf_start assms(2)] obtain s where
    s: "r = Some s" "deaf listenfd s" by blast
  have "\<forall>ev \<in> set evs. \<exists>e. ev = Delivered e"
    using assms s(1)
  proof (induction evs arbitrary: s r rule: rev_induct)
    case (snoc ev evs)
    from snoc.prems(1) obtain s1 where r1: "run (server_step os listenfd) (start_server os listenfd epollfd) evs (Some s1)"
      and st: "server_step os listenfd s1 ev r" by (auto simp: run_snoc)
    have al: "\<forall>ev \<in> set evs. fresh_accept listenfd ev" using snoc.prems(2) by simp
    from deaf_server.run_safe [OF r1 deaf_start al] have "handed s1 = []" by (simp add: deaf_def)
    with st have "\<exists>e. ev = Delivered e" by (cases rule: server_step.cases) auto
    with snoc.IH [OF r1 al] show ?case by auto
  qed simp
  with s show ?thesis by (auto simp: registered_def deaf_def)
qed

definition sample_delivery :: delivery where
  "sample_delivery = \<lparr>ev_fd = 3, ev_flags = EPOLLIN, ev_accept = (7, 0), ev_recv = (\<lambda>_ _. Recv_again),
     ev_writev = (\<lambda>_. Writev_again)\<rparr>"

lemma connections_never_served_witness:
  "\<exists>s. run (server_step sample_os 3) (start_server sample_os 3 5) [Delivered sample_delivery] (Some s) \<and>
     registered s 7 = None"
proof -
  let ?s0 = "start_server sample_os 3 5"
  obtain s where "accept_connection sample_os 3 (7, 0) ?s0 = Inr s"
    using accept_defined [of 7 sample_os 3 0 ?s0] by (auto simp: MAX_FD_def)
  then have "dispatch sample_os 3 sample_delivery ?s0 = Some (Inr s)"
    by (simp add: dispatch_def sample_delivery_def Let_def)
  moreover have "registered ?s0 (ev_fd sample_delivery) \<noteq> None"
    by (simp add: registered_def start_server_def addfd_calls sample_delivery_def epoll_table_def)
  ultimately have r: "run (server_step sample_os 3) ?s0 [Delivered sample_delivery] (Some s)"
    by (intro run_single server_step.loop)
  have "\<forall>ev \<in> set [Delivered sample_delivery]. fresh_accept 3 ev"
    by (simp add: fresh_accept_def sample_delivery_def MAX_FD_def)
  from connections_never_served [OF r this] have "dom (registered s) = {3}" by auto
  then have "7 \<notin> dom (registered s)" by simp
  with r show ?thesis by (auto simp: domIff)
qed

text \<open>
  A descriptor above the fixed limit reaches outside the array of connections: accept may return
  it, and the loop does not check.
\<close>

theorem accept_out_of_bounds:
  assumes "MAX_FD \<le> fst (ev_accept e)" and "m_user_count (net s) < MAX_FD" and "ev_fd e = listenfd"
  shows "dispatch os listenfd e s = Some (Inl OutOfBounds)"
  using assms by (auto simp: dispatch_def Let_def accept_connection_def user_at_def MAX_FD_def split: prod.splits)

lemma accept_out_of_bounds_witness:
  "dispatch sample_os 3 (sample_delivery\<lparr>ev_accept := (65536, 0)\<rparr>) (start_server sample_os 3 5) = Some (Inl OutOfBounds)"
  by (rule accept_out_of_bounds) (simp_all add: sample_delivery_def MAX_FD_def start_server_def)

text \<open>
  The dispatch of an event of a connection that owns its descriptor: an error or hang-up closes it
  (deregistered, closed, counted out); a readable one is read and handed to the pool once when the
  read reports more to come, and closed otherwise; both keep the parser's invariant.
\<close>

theorem dispatch_connection:
  assumes "ev_fd e = fd" and "fd \<noteq> listenfd" and "0 \<le> fd" and "fd < MAX_FD"
    and "m_sockfd (users s fd) = fd" and "conn_ok (users s fd)" and "recv_ok (ev_recv e)"
    and "ev_flags e AND (EPOLLRDHUP OR EPOLLHUP OR EPOLLERR) \<noteq> 0 \<or> ev_flags e AND EPOLLIN \<noteq> 0"
  shows "\<exists>s'. dispatch os listenfd e s = Some (Inr s') \<and> conn_ok (users s' fd) \<and>
    ((m_sockfd (users s' fd) = -1 \<and> registered s' fd = None \<and>
        m_user_count (net s') = m_user_count (net s) - 1 \<and> handed s' = handed s) \<or>
     (ev_flags e AND (EPOLLRDHUP OR EPOLLHUP OR EPOLLERR) = 0 \<and>
        read (ev_recv e) (users s fd) = Some (Inr (True, users s' fd)) \<and>
        net s' = net s \<and> handed s' = handed s @ [fd]))"
proof -
  have close: "\<exists>s2. close_user fd s1 = Inr s2 \<and> conn_ok (users s2 fd) \<and> m_sockfd (users s2 fd) = -1 \<and>
      registered s2 fd = None \<and> m_user_count (net s2) = m_user_count (net s1) - 1 \<and>
      handed s2 = handed s1"
    if "m_sockfd (users s1 fd) = fd" and "conn_ok (users s1 fd)" for s1
  proof -
    have "close_conn True (users s1 fd) (net s1) = ((users s1 fd)\<lparr>m_sockfd := -1\<rparr>,
        (removefd (m_epollfd (net s1)) fd (net s1))\<lparr>m_user_count := m_user_count (net s1) - 1\<rparr>)"
      using that assms(3) by (simp add: close_conn_def Let_def)
    with that assms(3,4) show ?thesis
      by (auto simp: close_user_def user_at_def set_user_def conn_ok_def registered_def)
  qed
  show ?thesis
  proof (cases "ev_flags e AND (EPOLLRDHUP OR EPOLLHUP OR EPOLLERR) = 0")
    case False
    with close [OF assms(5,6)] assms(1,2) show ?thesis by (auto simp: dispatch_def)
  next
    case True
    with assms(8) have fl: "ev_flags e AND EPOLLIN \<noteq> 0" by simp
    obtain ok c1 where rd: "read (ev_recv e) (users s fd) = Some (Inr (ok, c1))"
      and c1: "conn_ok c1" "m_sockfd c1 = fd"
    proof (cases "m_read_idx (users s fd) = int READ_BUFFER_SIZE")
      case True
      with that [of False "users s fd"] assms(5,6) show ?thesis by (simp add: read_def)
    next
      case False
      with assms(6) have "read (ev_recv e) (users s fd) = read_loop (ev_recv e) 0 (users s fd)"
        by (simp add: read_def conn_ok_def)
      with read_loop_outcome [OF assms(7,6), of 0] conn_ok_append [OF assms(6)] assms(5) that show ?thesis
        by fastforce
    qed
    show ?thesis
    proof (cases ok)
      case True
      with rd c1 fl assms(1-4) \<open>ev_flags e AND (EPOLLRDHUP OR EPOLLHUP OR EPOLLERR) = 0\<close> show ?thesis
        by (simp add: dispatch_def user_at_def Let_def)
    next
      case False
      from close [of "s\<lparr>users := (users s)(fd := c1)\<rparr>"] c1 obtain s2 where
        "close_user fd (s\<lparr>users := (users s)(fd := c1)\<rparr>) = Inr s2" "conn_ok (users s2 fd)"
        "m_sockfd (users s2 fd) = -1" "registered s2 fd = None"
        "m_user_count (net s2) = m_user_count (net s) - 1" "handed s2 = handed s" by auto
      with False rd fl assms(1-4) \<open>ev_flags e AND (EPOLLRDHUP OR EPOLLHUP OR EPOLLERR) = 0\<close> show ?thesis
        by (simp add: dispatch_def user_at_def Let_def)
    qed
  qed
qed

lemma dispatch_connection_witness:
  "\<exists>s'. dispatch sample_os 3 (sample_delivery\<lparr>ev_fd := 7, ev_flags := EPOLLHUP\<rparr>)
     ((start_server sample_os 3 5)\<lparr>users := \<lambda>_. raw_conn\<lparr>m_sockfd := 7\<rparr>\<rparr>) = Some (Inr s') \<and>
   m_sockfd (users s' 7) = -1"
proof -
  let ?s = "(start_server sample_os 3 5)\<lparr>users := \<lambda>_. raw_conn\<lparr>m_sockfd := 7\<rparr>\<rparr>"
  let ?e = "sample_delivery\<lparr>ev_fd := 7, ev_flags := EPOLLHUP\<rparr>"
  have "conn_ok (users ?s 7)" "recv_ok (ev_recv ?e)"
    by (simp_all add: conn_ok_def raw_conn_def recv_ok_def sample_delivery_def)
  moreover have "ev_flags ?e AND (EPOLLRDHUP OR EPOLLHUP OR EPOLLERR) \<noteq> 0"
    by (simp add: flag_defs)
  ultimately show ?thesis
    using dispatch_connection [of ?e 7 3 ?s sample_os] by (auto simp: MAX_FD_def)
qed

end
