(* ===== verification/Http_Typing.thy ===== *)
theory Http_Typing
  imports Http_Reply
begin

text \<open>
  The type of a connection: the sizes of its arrays, the ranges of its indices, the order of the parser's
  three positions and the ranges of its pointers. No member function of http_conn leaves it, whatever
  the parameters of the system answer and whatever the connection received, as long as it runs into no
  undefined behaviour.
\<close>

section \<open>The type\<close>

definition pointer_ok :: "int option \<Rightarrow> bool" where
  "pointer_ok p \<longleftrightarrow> (case p of None \<Rightarrow> True | Some i \<Rightarrow> 0 \<le> i \<and> i \<le> int READ_BUFFER_SIZE)"

definition conn_typed :: "http_conn \<Rightarrow> bool" where
  "conn_typed c \<longleftrightarrow>
     length (m_read_buf c) = READ_BUFFER_SIZE \<and> length (m_write_buf c) = WRITE_BUFFER_SIZE \<and>
     length (m_real_file c) = FILENAME_LEN \<and> length (m_iv c) = 2 \<and> m_iv_count c \<le> 2 \<and>
     0 \<le> m_start_line c \<and> m_start_line c \<le> m_checked_idx c \<and> m_checked_idx c \<le> m_read_idx c \<and>
     m_read_idx c \<le> int READ_BUFFER_SIZE \<and> 0 \<le> m_write_idx c \<and> m_write_idx c < int WRITE_BUFFER_SIZE - 1 \<and>
     INT_MIN \<le> m_content_length c \<and> m_content_length c \<le> INT_MAX \<and>
     pointer_ok (m_url c) \<and> pointer_ok (m_version c) \<and> pointer_ok (m_host c)"

named_theorems typing \<open>what a defined result says of sizes and ranges\<close>

lemma bget_range [typing]: "bget b i = Inr x \<Longrightarrow> 0 \<le> i \<and> i < int (length b)"
  by (simp add: bget_def split: if_splits)

lemma bset_type [typing]: "bset b i x = Inr b' \<Longrightarrow> length b' = length b \<and> 0 \<le> i \<and> i < int (length b)"
  by (auto simp: bset_def split: if_splits)

lemma put_bytes_type [typing]:
  "put_bytes b p s = Inr b' \<Longrightarrow> length b' = length b \<and> 0 \<le> p \<and> p + int (length s) \<le> int (length b)"
  by (auto simp: put_bytes_def split: if_splits)

lemma scan_pbrk_range: "scan_pbrk acc cs = Inr (Some k) \<Longrightarrow> k < length cs"
proof (induction cs arbitrary: k)
  case (Cons c cs)
  show ?case
  proof (cases "c = NUL \<or> c \<in> set acc")
    case True
    with Cons.prems show ?thesis by (auto split: if_splits)
  next
    case False
    with Cons.prems obtain j where "scan_pbrk acc cs = Inr (Some j)" "k = Suc j"
      by (auto simp: map_res_Inr_iff eq_commute [of "Some k"])
    with Cons.IH show ?thesis by simp
  qed
qed simp

lemma scan_spn_range: "scan_spn acc cs = Inr k \<Longrightarrow> k < length cs"
  by (induction cs arbitrary: k) (auto simp: map_res_Inr_iff split: if_splits)

lemma strpbrk_range [typing]: "strpbrk b p acc = Inr (Some q) \<Longrightarrow> 0 \<le> p \<and> p \<le> q \<and> q < int (length b)"
proof -
  assume a: "strpbrk b p acc = Inr (Some q)"
  then obtain k where "0 \<le> p" "p \<le> int (length b)" "scan_pbrk acc (drop (nat p) b) = Inr (Some k)" "q = p + int k"
    by (auto simp: strpbrk_def suffix_at_def map_res_Inr_iff eq_commute [of "Some q"] split: if_splits)
  with scan_pbrk_range [of acc "drop (nat p) b" k] show ?thesis by simp
qed

lemma strchr_range [typing]: "strchr b p x = Inr (Some q) \<Longrightarrow> 0 \<le> p \<and> p \<le> q \<and> q < int (length b)"
  unfolding strchr_def by (rule strpbrk_range)

lemma strspn_range [typing]: "strspn b p acc = Inr n \<Longrightarrow> 0 \<le> n \<and> 0 \<le> p \<and> p + n < int (length b)"
  by (auto simp: strspn_def suffix_at_def map_res_Inr_iff dest!: scan_spn_range split: if_splits)

section \<open>Reading and parsing\<close>

text \<open>A result whose defined value satisfies P, with rules that follow the shape of the code.\<close>

definition ensures :: "('a \<Rightarrow> bool) \<Rightarrow> 'a res \<Rightarrow> bool" where
  "ensures P r \<longleftrightarrow> (\<forall>x. r = Inr x \<longrightarrow> P x)"

named_theorems ensures_rules \<open>one rule for each construct of the code\<close>

lemma ensuresD: "ensures P r \<Longrightarrow> r = Inr x \<Longrightarrow> P x"
  by (simp add: ensures_def)

lemma ensures_Inl [ensures_rules]: "ensures P (Inl u)"
  by (simp add: ensures_def)

lemma ensures_Inr [ensures_rules]: "P x \<Longrightarrow> ensures P (Inr x)"
  by (simp add: ensures_def)

lemma ensures_bind [ensures_rules]: "(\<And>x. m = Inr x \<Longrightarrow> ensures P (f x)) \<Longrightarrow> ensures P (bind_res m f)"
  by (auto simp: ensures_def bind_res_Inr_iff)

lemma ensures_if [ensures_rules]: "(b \<Longrightarrow> ensures P x) \<Longrightarrow> (\<not> b \<Longrightarrow> ensures P y) \<Longrightarrow> ensures P (if b then x else y)"
  by simp

lemma ensures_option [ensures_rules]:
  "(p = None \<Longrightarrow> ensures P x) \<Longrightarrow> (\<And>v. p = Some v \<Longrightarrow> ensures P (f v)) \<Longrightarrow> ensures P (case p of None \<Rightarrow> x | Some v \<Rightarrow> f v)"
  by (simp split: option.splits)

lemma parse_line_typed:
  assumes "parse_line c = Inr (st, c')" and "conn_typed c"
  shows "conn_typed c'"
  using assms
proof (induction c arbitrary: st c' rule: parse_line.induct)
  case (1 c)
  note ty = 1(3)
  note pl = 1(2) [unfolded parse_line.simps [of c]]
  show ?case
  proof (cases "m_checked_idx c < m_read_idx c")
    case False
    with pl ty show ?thesis by simp
  next
    case True
    then obtain x where x: "bget (m_read_buf c) (m_checked_idx c) = Inr x" using pl by (auto simp: bind_res_Inr_iff)
    consider (cr) "x = CR" | (lf) "x = LF" | (other) "x \<noteq> CR" "x \<noteq> LF" by blast
    then show ?thesis
    proof cases
      case cr
      with pl True x ty show ?thesis
        by (auto simp: conn_typed_def bind_res_Inr_iff dest!: bset_type split: if_splits)
    next
      case lf
      with pl True x ty show ?thesis
        by (auto simp: conn_typed_def bind_res_Inr_iff dest!: bset_type split: if_splits)
    next
      case other
      have "conn_typed (c\<lparr>m_checked_idx := m_checked_idx c + 1\<rparr>)" using ty True by (simp add: conn_typed_def)
      with 1(1) [OF True other] pl True x other show ?thesis by simp
    qed
  qed
qed

lemma parse_request_line_typed:
  assumes "conn_typed c"
  shows "ensures (\<lambda>(ret, c'). conn_typed c') (parse_request_line c text)"
  using assms unfolding parse_request_line_def Let_def
  by (intro ensures_rules) (auto simp: conn_typed_def pointer_ok_def dest!: typing split: if_splits)

lemma parse_headers_typed:
  assumes "conn_typed c"
  shows "ensures (\<lambda>(ret, c'). conn_typed c') (parse_headers c text)"
  using assms int_of_long_range unfolding parse_headers_def
  by (intro ensures_rules) (auto simp: conn_typed_def pointer_ok_def dest!: typing)

lemma parse_content_typed:
  assumes "conn_typed c"
  shows "ensures (\<lambda>(ret, c'). conn_typed c') (parse_content c text)"
  using assms unfolding parse_content_def by (intro ensures_rules) (auto simp: conn_typed_def dest!: typing)

lemma do_request_typed:
  assumes "conn_typed c"
  shows "ensures (\<lambda>(ret, c', w'). conn_typed c') (do_request os c w)"
  using assms unfolding do_request_def Let_def strcpy_lit_def strncpy_def
  by (intro ensures_rules) (auto simp: conn_typed_def bind_res_Inr_iff dest!: put_bytes_type)

lemma loop_condition_typed:
  assumes "loop_condition st c = Inr (enter, c')" and "conn_typed c"
  shows "conn_typed c'"
  using assms parse_line_typed by (auto simp: loop_condition_def map_res_Inr_iff split: if_splits)

lemma take_line_typed:
  assumes "take_line c = Inr (text, c')" and "conn_typed c"
  shows "conn_typed c'"
  using assms by (auto simp: take_line_def conn_typed_def Let_def bind_res_Inr_iff)

lemma process_read_loop_typed:
  assumes "process_read_loop os st c w = Some r"
  shows "conn_typed c \<longrightarrow> ensures (\<lambda>(ret, c', w'). conn_typed c') r"
proof (rule process_read_loop.raw_induct
    [where P = "\<lambda>os st c w r. conn_typed c \<longrightarrow> ensures (\<lambda>(ret, c', w'). conn_typed c') r", OF _ assms])
  fix loop os st c w and r :: "(HTTP_CODE \<times> http_conn \<times> world) res"
  assume ih: "\<And>os st c w r. loop os st c w = Some r \<Longrightarrow> conn_typed c \<longrightarrow> ensures (\<lambda>(ret, c', w'). conn_typed c') r"
    and step: "(case loop_condition st c of
        Inl e \<Rightarrow> Some (Inl e)
      | Inr (enter, c1) \<Rightarrow>
        if \<not> enter then Some (Inr (NO_REQUEST, c1, w))
        else (case take_line c1 of
          Inl e \<Rightarrow> Some (Inl e)
        | Inr (text, c2) \<Rightarrow>
          (case m_check_state c2 of
             CHECK_STATE_REQUESTLINE \<Rightarrow>
               (case parse_request_line c2 text of
                  Inl e \<Rightarrow> Some (Inl e)
                | Inr (ret, c3) \<Rightarrow>
                    if ret = BAD_REQUEST then Some (Inr (BAD_REQUEST, c3, w))
                    else loop os st c3 w)
           | CHECK_STATE_HEADER \<Rightarrow>
               (case parse_headers c2 text of
                  Inl e \<Rightarrow> Some (Inl e)
                | Inr (ret, c3) \<Rightarrow>
                    if ret = BAD_REQUEST then Some (Inr (BAD_REQUEST, c3, w))
                    else if ret = GET_REQUEST then Some (do_request os c3 w)
                    else loop os st c3 w)
           | CHECK_STATE_CONTENT \<Rightarrow>
               (case parse_content c2 text of
                  Inl e \<Rightarrow> Some (Inl e)
                | Inr (ret, c3) \<Rightarrow>
                    if ret = GET_REQUEST then Some (do_request os c3 w)
                    else loop os LINE_OPEN c3 w)))) = Some r"
  show "conn_typed c \<longrightarrow> ensures (\<lambda>(ret, c', w'). conn_typed c') r"
  proof
    assume ty: "conn_typed c"
    show "ensures (\<lambda>(ret, c', w'). conn_typed c') r"
    proof (cases "loop_condition st c")
      case (Inl e)
      with step show ?thesis by (auto simp: ensures_def)
    next
      case (Inr ec)
      obtain enter c1 where lc: "loop_condition st c = Inr (enter, c1)" using Inr by (cases ec) auto
      with ty have ty1: "conn_typed c1" by (rule loop_condition_typed [rotated])
      show ?thesis
      proof (cases "enter \<and> (\<exists>text c2. take_line c1 = Inr (text, c2))")
        case False
        with step lc ty1 show ?thesis by (auto simp: ensures_def split: sum.splits if_splits)
      next
        case True
        then obtain p c2 where tl: "enter = True" "take_line c1 = Inr (p, c2)" by blast
        from tl(2) ty1 have ty2: "conn_typed c2" by (rule take_line_typed)
        note step2 = step [unfolded lc sum.case prod.case tl if_True if_False not_True_eq_False]
        show ?thesis
        proof (cases "m_check_state c2")
          case CHECK_STATE_REQUESTLINE
          with step2 ih parse_request_line_typed [OF ty2, of p] show ?thesis
            by (auto simp: ensures_def split: sum.splits prod.splits if_splits)
        next
          case CHECK_STATE_HEADER
          show ?thesis
          proof (cases "parse_headers c2 p")
            case (Inr rc)
            obtain ret c3 where r: "parse_headers c2 p = Inr (ret, c3)" using Inr by (cases rc) auto
            with parse_headers_typed [OF ty2, of p] have ty3: "conn_typed c3" by (auto simp: ensures_def)
            note step3 = step2 [unfolded r CHECK_STATE_HEADER CHECK_STATE.case sum.case prod.case]
            show ?thesis
            proof (cases "ret = GET_REQUEST")
              case True
              with step3 do_request_typed [OF ty3, of os w] show ?thesis by simp
            next
              case False
              with step3 ih [of os _ c3 w r] ty3 show ?thesis by (auto simp: ensures_def split: if_splits)
            qed
          qed (use step2 CHECK_STATE_HEADER in \<open>auto simp: ensures_def\<close>)
        next
          case CHECK_STATE_CONTENT
          show ?thesis
          proof (cases "parse_content c2 p")
            case (Inr rc)
            obtain ret c3 where r: "parse_content c2 p = Inr (ret, c3)" using Inr by (cases rc) auto
            with parse_content_typed [OF ty2, of p] have ty3: "conn_typed c3" by (auto simp: ensures_def)
            note step3 = step2 [unfolded r CHECK_STATE_CONTENT CHECK_STATE.case sum.case prod.case]
            show ?thesis
            proof (cases "ret = GET_REQUEST")
              case True
              with step3 do_request_typed [OF ty3, of os w] show ?thesis by simp
            next
              case False
              with step3 ih [of os _ c3 w r] ty3 show ?thesis by (auto simp: ensures_def split: if_splits)
            qed
          qed (use step2 CHECK_STATE_CONTENT in \<open>auto simp: ensures_def\<close>)
        qed
      qed
    qed
  qed
qed

lemma read_loop_typed:
  assumes "read_loop recv k c = Some r"
  shows "conn_typed c \<longrightarrow> ensures (\<lambda>(ok, c'). conn_typed c') r"
proof (rule read_loop.raw_induct [where P = "\<lambda>recv k c r. conn_typed c \<longrightarrow> ensures (\<lambda>(ok, c'). conn_typed c') r", OF _ assms])
  fix loop recv c and k :: nat and r :: "(bool \<times> http_conn) res"
  assume ih: "\<And>recv k c r. loop recv k c = Some r \<Longrightarrow> conn_typed c \<longrightarrow> ensures (\<lambda>(ok, c'). conn_typed c') r"
    and step: "(case recv k (nat (int READ_BUFFER_SIZE - m_read_idx c)) of
        Recv_bytes bs \<Rightarrow>
          (case put_bytes (m_read_buf c) (m_read_idx c) bs of
             Inl e \<Rightarrow> Some (Inl e)
           | Inr b \<Rightarrow> loop recv (Suc k) (c\<lparr>m_read_buf := b, m_read_idx := m_read_idx c + int (length bs)\<rparr>))
      | Recv_eof \<Rightarrow> Some (Inr (False, c))
      | Recv_again \<Rightarrow> Some (Inr (True, c))
      | Recv_error \<Rightarrow> Some (Inr (False, c))) = Some r"
  show "conn_typed c \<longrightarrow> ensures (\<lambda>(ok, c'). conn_typed c') r"
  proof
    assume ty: "conn_typed c"
    show "ensures (\<lambda>(ok, c'). conn_typed c') r"
    proof (cases "recv k (nat (int READ_BUFFER_SIZE - m_read_idx c))")
      case (Recv_bytes bs)
      show ?thesis
      proof (cases "put_bytes (m_read_buf c) (m_read_idx c) bs")
        case (Inr b)
        then have "conn_typed (c\<lparr>m_read_buf := b, m_read_idx := m_read_idx c + int (length bs)\<rparr>)"
          using ty put_bytes_type [OF Inr] by (simp add: conn_typed_def)
        with step Recv_bytes Inr ih show ?thesis by simp
      qed (use step Recv_bytes in \<open>auto simp: ensures_def\<close>)
    qed (use step ty in \<open>auto simp: ensures_def\<close>)
  qed
qed

section \<open>Answering\<close>

lemma conn_typed_out: "conn_typed c \<Longrightarrow> out_ok c"
  by (simp add: conn_typed_def out_ok_def)

lemma add_response_typed:
  assumes "conn_typed c"
  shows "ensures (\<lambda>(ok, c'). conn_typed c') (add_response c s)"
proof -
  obtain b n ok where "add_response c s = Inr (ok, c\<lparr>m_write_buf := b, m_write_idx := n\<rparr>)"
    and "out_ok (c\<lparr>m_write_buf := b, m_write_idx := n\<rparr>)"
    using add_response_outcome [OF conn_typed_out [OF assms], of s] unfolding Let_def by blast
  then show ?thesis using assms by (simp add: ensures_def conn_typed_def out_ok_def)
qed

lemma ensures_pair [ensures_rules]: "(\<And>x y. p = (x, y) \<Longrightarrow> ensures P (f x y)) \<Longrightarrow> ensures P (case p of (x, y) \<Rightarrow> f x y)"
  by (cases p) simp

text \<open>Composition of the add functions: the result of each is typed, so the next may run.\<close>

lemma ensures_then:
  assumes "ensures (\<lambda>(ok, c'). conn_typed c') m" and "\<And>ok c'. conn_typed c' \<Longrightarrow> ensures P (f (ok, c'))"
  shows "ensures P (bind_res m f)"
  using assms by (auto simp: ensures_def bind_res_Inr_iff)

lemma add_headers_typed:
  assumes "conn_typed c"
  shows "ensures (\<lambda>(ok, c'). conn_typed c') (add_headers c len)"
  unfolding add_headers_def add_content_length_def add_linger_def add_blank_line_def
  by (rule ensures_then [OF add_response_typed [OF assms]], unfold prod.case, rule ensures_then,
      rule ensures_if [OF add_response_typed ensures_Inr], assumption, simp, unfold prod.case,
      rule ensures_if [OF add_response_typed ensures_Inr]) simp_all

lemma error_response_typed:
  assumes "conn_typed c"
  shows "ensures (\<lambda>(ok, c'). conn_typed c') (error_response c status title form)"
  unfolding error_response_def add_status_line_def add_content_def
  by (rule ensures_then [OF add_response_typed [OF assms]], unfold prod.case,
      rule ensures_then [OF add_headers_typed], assumption, unfold prod.case, rule add_response_typed)

lemma iov_typed: "conn_typed c \<Longrightarrow> conn_typed (single_iov c)" "conn_typed c \<Longrightarrow> conn_typed (file_iov c)"
  by (simp_all add: conn_typed_def single_iov_def file_iov_def)

lemma process_write_typed:
  assumes ty: "conn_typed c"
  shows "ensures (\<lambda>(ok, c'). conn_typed c') (process_write c ret)"
proof -
  have e: "ensures (\<lambda>(ok, c'). conn_typed c') (bind_res (error_response c status title form)
      (\<lambda>(ok, c1). if ok then Inr (True, single_iov c1) else Inr (False, c1)))" for status title form
    by (rule ensures_then [OF error_response_typed [OF ty]]) (simp add: ensures_def iov_typed)
  have f: "ensures (\<lambda>(ok, c'). conn_typed c') (process_write c FILE_REQUEST)"
    unfolding process_write_def HTTP_CODE.case add_status_line_def
  proof (rule ensures_then [OF add_response_typed [OF ty]], unfold prod.case, rule ensures_if)
    fix c1 assume ty1: "conn_typed c1"
    show "ensures (\<lambda>(ok, c'). conn_typed c') (bind_res (add_headers c1 (int_of_long (st_size (m_file_state c1))))
        (\<lambda>(_, c2). Inr (True, file_iov c2)))"
      by (rule ensures_then [OF add_headers_typed [OF ty1]]) (simp add: ensures_def iov_typed)
    show "ensures (\<lambda>(ok, c'). conn_typed c') (bind_res (add_headers c1 (int (length ok_string)))
        (\<lambda>(_, c2). bind_res (add_content c2 ok_string) (\<lambda>(_, c3). Inr (False, c3))))"
      by (rule ensures_then [OF add_headers_typed [OF ty1]], unfold prod.case add_content_def,
          rule ensures_then [OF add_response_typed]) (simp_all add: ensures_def)
  qed
  show ?thesis using e f ty by (cases ret) (simp_all add: process_write_def ensures_def)
qed

lemma init_request_typed: "length (m_iv c) = 2 \<Longrightarrow> m_iv_count c \<le> 2 \<Longrightarrow> conn_typed (init_request c)"
  by (simp add: conn_typed_def init_request_def pointer_ok_def READ_BUFFER_SIZE_def WRITE_BUFFER_SIZE_def INT_MIN_def INT_MAX_def)

lemma conn_typed_iv: "conn_typed c \<Longrightarrow> length (m_iv c) = 2 \<and> m_iv_count c \<le> 2"
  by (simp add: conn_typed_def)

lemma unmap_typed:
  assumes "conn_typed c"
  shows "ensures (\<lambda>(c', w'). conn_typed c') (unmap c w)"
  using assms by (cases "m_file_address c") (simp_all add: unmap_def ensures_def conn_typed_def)

lemma write_loop_typed:
  assumes "write_loop writev k n m c w = Some r"
  shows "conn_typed c \<longrightarrow> ensures (\<lambda>(ok, c', w'). conn_typed c') r"
proof (rule write_loop.raw_induct
    [where P = "\<lambda>writev k n m c w r. conn_typed c \<longrightarrow> ensures (\<lambda>(ok, c', w'). conn_typed c') r", OF _ assms])
  fix loop writev n m c w and k :: nat and r :: "(bool \<times> http_conn \<times> world) res"
  assume ih: "\<And>writev k n m c w r. loop writev k n m c w = Some r \<Longrightarrow> conn_typed c \<longrightarrow> ensures (\<lambda>(ok, c', w'). conn_typed c') r"
    and step: "(case writev k of
        Sent temp \<Rightarrow>
         (let w1 = emit (Writev (m_sockfd c) (take (m_iv_count c) (m_iv c)) temp) w; n = n - temp; m = m + temp
          in if n \<le> m
             then Some (bind_res (unmap c w1) (\<lambda>(c1, w2).
               if m_linger c1
               then let c2 = init_request c1
                    in Inr (True, c2, modfd (m_epollfd w2) (m_sockfd c2) EPOLLIN w2)
               else Inr (False, c1, modfd (m_epollfd w2) (m_sockfd c1) EPOLLIN w2)))
             else loop writev (Suc k) n m c w1)
      | Writev_again \<Rightarrow> Some (Inr (True, c, modfd (m_epollfd w) (m_sockfd c) EPOLLOUT w))
      | Writev_error \<Rightarrow> Some (map_res (Pair False) (unmap c w))) = Some r"
  show "conn_typed c \<longrightarrow> ensures (\<lambda>(ok, c', w'). conn_typed c') r"
  proof
    assume ty: "conn_typed c"
    show "ensures (\<lambda>(ok, c', w'). conn_typed c') r"
    proof (cases "writev k")
      case (Sent temp)
      define w1 where "w1 = emit (Writev (m_sockfd c) (take (m_iv_count c) (m_iv c)) temp) w"
      show ?thesis
      proof (cases "n - temp \<le> m + temp")
        case True
        with step Sent unmap_typed [OF ty, of w1] show ?thesis
          by (auto simp: w1_def [symmetric] Let_def ensures_def bind_res_Inr_iff init_request_typed conn_typed_iv split: if_splits)
      next
        case False
        with step Sent have "loop writev (Suc k) (n - temp) (m + temp) c w1 = Some r" by (simp add: w1_def Let_def)
        with ih ty show ?thesis by blast
      qed
    next
      case Writev_again
      with step ty show ?thesis by (auto simp: ensures_def)
    next
      case Writev_error
      with step unmap_typed [OF ty, of w] show ?thesis by (auto simp: ensures_def map_res_Inr_iff)
    qed
  qed
qed

section \<open>The member functions\<close>

text \<open>C11. The type of http_conn is kept by its member functions. A constructed object whose I/O vector has
  its two elements gets it from init, and close_conn, read, write and process, whatever recv, writev, the
  file system answer, take a connection of the type to one of the type whenever they return and
  did nothing undefined: no array changes its size, the parser's positions stay in order inside the
  read buffer, the writer's index inside the write buffer, and the pointers into the request within it.\<close>

theorem members_keep_type:
  assumes "conn_typed c"
  shows "(\<forall>real. conn_typed (fst (close_conn real c w))) \<and>
    (\<forall>ok c'. read recv c = Some (Inr (ok, c')) \<longrightarrow> conn_typed c') \<and>
    (\<forall>ok c' w'. http_write writev c w = Some (Inr (ok, c', w')) \<longrightarrow> conn_typed c') \<and>
    (\<forall>c' w'. process os c w = Some (Inr (c', w')) \<longrightarrow> conn_typed c') \<and>
    (\<forall>sockfd addr c0. length (m_iv c0) = 2 \<and> m_iv_count c0 \<le> 2 \<longrightarrow> conn_typed (fst (init_conn os sockfd addr c0 w)))"
proof (intro conjI allI impI)
  have close: "conn_typed (fst (close_conn real c w))" if "conn_typed c" for real c w
    using that by (simp add: close_conn_def Let_def conn_typed_def)
  then show "conn_typed (fst (close_conn real c w))" for real using assms by blast
  show "conn_typed c'" if "read recv c = Some (Inr (ok, c'))" for ok c'
    using that assms read_loop_typed [of recv 0 c "Inr (ok, c')"] by (auto simp: read_def ensures_def split: if_splits)
  show "conn_typed c'" if "http_write writev c w = Some (Inr (ok, c', w'))" for ok c' w'
    using that assms write_loop_typed [of writev 0 "m_write_idx c" 0 c w "Inr (ok, c', w')"]
    by (auto simp: http_write_def Let_def ensures_def init_request_typed conn_typed_iv split: if_splits)
  show "conn_typed (fst (init_conn os sockfd addr c0 w))" if "length (m_iv c0) = 2 \<and> m_iv_count c0 \<le> 2" for sockfd addr c0
    using that by (simp add: init_conn_def Let_def init_request_typed)
  show "conn_typed c'" if pr: "process os c w = Some (Inr (c', w'))" for c' w'
  proof -
    obtain ret c1 w1 where rd: "process_read os c w = Some (Inr (ret, c1, w1))"
      using pr by (auto simp: process_def split: option.splits sum.splits)
    then have ty1: "conn_typed c1"
      using process_read_loop_typed [of os LINE_OK c w "Inr (ret, c1, w1)"] assms by (simp add: process_read_def ensures_def)
    show ?thesis
    proof (cases "ret = NO_REQUEST")
      case True
      with pr rd ty1 show ?thesis by (simp add: process_def)
    next
      case False
      have b: "bind_res (process_write c1 ret) (\<lambda>(ok, c2). let (c3, w3) = (if \<not> ok then close_conn True c2 w1 else (c2, w1))
          in Inr (c3, modfd (m_epollfd w3) (m_sockfd c3) EPOLLOUT w3)) = Inr (c', w')"
        using pr rd False by (simp add: process_def)
      then obtain oc where pw': "process_write c1 ret = Inr oc" by (auto simp: bind_res_Inr_iff)
      obtain ok c2 where pw: "process_write c1 ret = Inr (ok, c2)" using pw' by (cases oc) auto
      have c': "c' = (if ok then c2 else fst (close_conn True c2 w1))"
        using b unfolding pw by (cases ok) (auto simp: Let_def split: prod.splits)
      from process_write_typed [OF ty1, of ret] pw have "conn_typed c2" by (simp add: ensures_def)
      with c' close show ?thesis by simp
    qed
  qed
qed

lemma members_keep_type_witness:
  "\<exists>c'. read (\<lambda>k n. if k = 0 then Recv_bytes ''GET / HTTP/1.1'' else Recv_again) (init_request raw_conn) = Some (Inr (True, c')) \<and>
     conn_typed c'"
proof -
  let ?recv = "\<lambda>k n. if k = 0 then Recv_bytes ''GET / HTTP/1.1'' else Recv_again"
  have ty: "conn_typed (init_request raw_conn)" by (rule init_request_typed) (simp_all add: raw_conn_def)
  have p: "m_read_idx (init_request raw_conn) = 0" "m_read_buf (init_request raw_conn) = replicate READ_BUFFER_SIZE NUL"
    by (simp_all add: init_request_def)
  have again: "read_loop ?recv (Suc 0) c = Some (Inr (True, c))" for c by (subst read_loop.simps) simp
  obtain b where "put_bytes (replicate READ_BUFFER_SIZE NUL) 0 ''GET / HTTP/1.1'' = Inr b"
    by (simp add: put_bytes_def READ_BUFFER_SIZE_def)
  then have "\<exists>c'. read_loop ?recv 0 (init_request raw_conn) = Some (Inr (True, c'))"
    by (subst read_loop.simps) (simp add: p again)
  then obtain c' where "read_loop ?recv 0 (init_request raw_conn) = Some (Inr (True, c'))" by blast
  then have "read ?recv (init_request raw_conn) = Some (Inr (True, c'))" by (simp add: read_def p READ_BUFFER_SIZE_def)
  with members_keep_type [OF ty, where recv = ?recv] show ?thesis by blast
qed

end
