(* ===== verification/Locker.thy ===== *)
theory Locker
  imports Prelude
begin

text \<open>
  The wrappers of \<^verbatim>\<open>src/src/include/locker.h\<close> around the POSIX semaphore and mutex, with the
  documented behaviour of the calls they make. A call that would block has no result (None), so a
  thread that makes it takes no step until another thread changes the object.
\<close>

section \<open>sem\<close>

definition SEM_VALUE_MAX :: nat where "SEM_VALUE_MAX = 2147483647"

record sem =
  m_sem :: nat

definition new_sem :: sem where
  "new_sem = \<lparr>m_sem = 0\<rparr>"

definition sem_wait :: "sem \<Rightarrow> (bool \<times> sem) option" where
  "sem_wait s = (if m_sem s = 0 then None else Some (True, s\<lparr>m_sem := m_sem s - 1\<rparr>))"

text \<open>A wait that a signal handler interrupts returns false and leaves the semaphore as it is.\<close>

definition sem_wait_interrupted :: "sem \<Rightarrow> bool \<times> sem" where
  "sem_wait_interrupted s = (False, s)"

definition sem_post :: "sem \<Rightarrow> bool \<times> sem" where
  "sem_post s = (if m_sem s < SEM_VALUE_MAX then (True, s\<lparr>m_sem := m_sem s + 1\<rparr>) else (False, s))"

section \<open>locker\<close>

text \<open>The thread that holds the mutex. Threads are numbered.\<close>

record locker =
  m_mutex :: "nat option"

definition new_locker :: locker where
  "new_locker = \<lparr>m_mutex = None\<rparr>"

definition lock :: "nat \<Rightarrow> locker \<Rightarrow> (bool \<times> locker) option" where
  "lock t l = (if m_mutex l = None then Some (True, l\<lparr>m_mutex := Some t\<rparr>) else None)"

definition unlock :: "nat \<Rightarrow> locker \<Rightarrow> (bool \<times> locker) res" where
  "unlock t l = (if m_mutex l = Some t then Inr (True, l\<lparr>m_mutex := None\<rparr>) else Inl NotOwner)"

section \<open>cond\<close>

text \<open>
  The condition variable with a mutex of its own. wait locks the mutex, releases it and blocks in one
  step, and when it has been signalled takes the mutex again and releases it; signal wakes one blocked
  thread, if there is one. The state of a call of wait is the point it has reached, with ret, what
  pthread\_cond\_wait returned (0: the errors POSIX lists for it are those of a wrong argument), and at the end
  what wait itself returns.
\<close>

record cond =
  c_mutex :: locker
  waiters :: "nat list"

datatype wait_point = Wait_begin | Wait_call | Wait_blocked | Wait_relock int | Wait_unlock int | Wait_done bool

definition new_cond :: cond where
  "new_cond = \<lparr>c_mutex = new_locker, waiters = []\<rparr>"

definition cond_wait_step :: "nat \<Rightarrow> wait_point \<Rightarrow> cond \<Rightarrow> (wait_point \<times> cond) res option" where
  "cond_wait_step t p c =
     (case p of
        Wait_begin \<Rightarrow> map_option (\<lambda>(_, l). Inr (Wait_call, c\<lparr>c_mutex := l\<rparr>)) (lock t (c_mutex c))
      | Wait_call \<Rightarrow> Some (map_res (\<lambda>(_, l). (Wait_blocked, c\<lparr>c_mutex := l, waiters := waiters c @ [t]\<rparr>))
                              (unlock t (c_mutex c)))
      | Wait_blocked \<Rightarrow> if t \<in> set (waiters c) then None else Some (Inr (Wait_relock 0, c))
      | Wait_relock ret \<Rightarrow> map_option (\<lambda>(_, l). Inr (Wait_unlock ret, c\<lparr>c_mutex := l\<rparr>)) (lock t (c_mutex c))
      | Wait_unlock ret \<Rightarrow> Some (map_res (\<lambda>(_, l). (Wait_done (ret = 0), c\<lparr>c_mutex := l\<rparr>)) (unlock t (c_mutex c)))
      | Wait_done b \<Rightarrow> None)"

definition cond_signal :: "cond \<Rightarrow> bool \<times> cond" where
  "cond_signal c = (True, c\<lparr>waiters := tl (waiters c)\<rparr>)"

section \<open>Construction and destruction\<close>

text \<open>
  The constructors throw (None) when the init call they make does not return 0; that of cond first destroys
  the mutex it has already made, which the second component tells. Destroying an object that a thread
  still holds or waits for is undefined.
\<close>

definition construct_sem :: "int \<Rightarrow> sem option" where
  "construct_sem init = (if init \<noteq> 0 then None else Some new_sem)"

definition construct_locker :: "int \<Rightarrow> locker option" where
  "construct_locker init = (if init \<noteq> 0 then None else Some new_locker)"

definition construct_cond :: "int \<Rightarrow> int \<Rightarrow> cond option \<times> bool" where
  "construct_cond mutex_init cond_init =
     (if mutex_init \<noteq> 0 then (None, False) else if cond_init \<noteq> 0 then (None, True) else (Some new_cond, False))"

definition destroy_locker :: "locker \<Rightarrow> unit res" where
  "destroy_locker l = (if m_mutex l = None then Inr () else Inl UseAfterFree)"

definition destroy_cond :: "cond \<Rightarrow> unit res" where
  "destroy_cond c = bind_res (destroy_locker (c_mutex c)) (\<lambda>_. if waiters c = [] then Inr () else Inl UseAfterFree)"

end
