(* ===== verification/Thread_Pool.thy ===== *)
theory Thread_Pool
  imports Locker Transitions "HOL-Library.Multiset"
begin

text \<open>
  The thread pool of \<^verbatim>\<open>src/src/include/thread_pool.hpp\<close> as a set of threads stepping over the
  shared queue, its mutex and its semaphore: the workers run \<open>run\<close>, the others call \<open>append\<close>. A
  program counter stands before each statement that touches shared state; a step executes one of them.
  The scheduler may interleave the threads in any way.
\<close>

section \<open>The model\<close>

text \<open>
  The points of run (Test to Exited) and of append (Idle to APost). A request is a pointer, None
  when it is null.
\<close>

datatype 'r pc =
    Test | Wait | Lock | Check | UnlockEmpty | Front | UnlockTaken "'r option" | Dispatch "'r option" | Exited
  | Idle | ALock "'r option" | ACheck "'r option" | AReject | APush "'r option" | AUnlock | APost

text \<open>The last component is not of the code: the members have not been destroyed.\<close>

record 'r threadpool =
  m_thread_number :: int
  m_max_requests :: int
  m_workqueue :: "'r option list"
  m_queuelocker :: locker
  m_queuestat :: sem
  m_stop :: bool
  threads :: "'r pc list"
  alive :: bool

datatype 'r event =
    Tau nat | Called nat "'r option" | Accepted nat "'r option" | Returned nat bool
  | Took nat "'r option" | Processed nat 'r | Stopped | Destroyed

text \<open>
  The constructor. Its initializer list gives m\_max\_requests its own value, and not the parameter: junk is what
  the storage of the member holds, None when nothing was ever written there, so that the read is undefined. The
  guards test that value; the inner option is None when the constructor throws. The callers of append are further
  threads.
\<close>

definition construct :: "int \<Rightarrow> int \<Rightarrow> int option \<Rightarrow> nat \<Rightarrow> 'r threadpool option res" where
  "construct thread_number max_requests junk callers =
     (case junk of
        None \<Rightarrow> Inl UninitRead
      | Some v \<Rightarrow> Inr (if thread_number \<le> 0 \<or> v \<le> 0 then None
          else Some \<lparr>m_thread_number = thread_number, m_max_requests = v, m_workqueue = [],
            m_queuelocker = new_locker, m_queuestat = new_sem, m_stop = False,
            threads = replicate (nat thread_number) Test @ replicate callers Idle, alive = True\<rparr>))"

text \<open>
  The loop that starts the threads: pthread\_create or pthread\_detach may fail. The exception then leaves the
  threads already started running on an object that is being destroyed; the result is their number.
\<close>

datatype create_answer = Created | Create_failed | Detach_failed

fun create_threads :: "nat \<Rightarrow> create_answer list \<Rightarrow> nat option" where
  "create_threads i [] = None"
| "create_threads i (a # as) =
     (case a of Created \<Rightarrow> create_threads (i + 1) as | Create_failed \<Rightarrow> Some i | Detach_failed \<Rightarrow> Some (i + 1))"

datatype 'r construction = Constructed "'r threadpool" | Thrown nat | Misread ub

definition construct_with :: "create_answer list \<Rightarrow> int \<Rightarrow> int \<Rightarrow> int option \<Rightarrow> nat \<Rightarrow> 'r construction" where
  "construct_with answers thread_number max_requests junk callers =
     (case construct thread_number max_requests junk callers of
        Inl u \<Rightarrow> Misread u
      | Inr None \<Rightarrow> Thrown 0
      | Inr (Some p) \<Rightarrow> (case create_threads 0 (take (nat thread_number) answers) of None \<Rightarrow> Constructed p | Some k \<Rightarrow> Thrown k))"

definition goto :: "nat \<Rightarrow> 'r pc \<Rightarrow> 'r threadpool \<Rightarrow> 'r threadpool" where
  "goto t p s = s\<lparr>threads := (threads s)[t := p]\<rparr>"

definition unlock_goto :: "nat \<Rightarrow> 'r event \<Rightarrow> 'r pc \<Rightarrow> 'r threadpool \<Rightarrow> ('r event \<times> 'r threadpool) res" where
  "unlock_goto t ev p s =
     bind_res (unlock t (m_queuelocker s)) (\<lambda>(_, l). Inr (ev, goto t p (s\<lparr>m_queuelocker := l\<rparr>)))"

definition lock_goto :: "nat \<Rightarrow> 'r pc \<Rightarrow> 'r threadpool \<Rightarrow> ('r event \<times> 'r threadpool) res option" where
  "lock_goto t p s =
     (case lock t (m_queuelocker s) of None \<Rightarrow> None
      | Some (_, l) \<Rightarrow> Some (Inr (Tau t, goto t p (s\<lparr>m_queuelocker := l\<rparr>))))"

text \<open>The loop of run, for the worker t.\<close>

fun run_step :: "nat \<Rightarrow> 'r pc \<Rightarrow> 'r threadpool \<Rightarrow> ('r event \<times> 'r threadpool) res option" where
  "run_step t Test s = Some (Inr (Tau t, goto t (if m_stop s then Exited else Wait) s))"
| "run_step t Wait s =
     (case sem_wait (m_queuestat s) of None \<Rightarrow> None
      | Some (_, q) \<Rightarrow> Some (Inr (Tau t, goto t Lock (s\<lparr>m_queuestat := q\<rparr>))))"
| "run_step t Lock s = lock_goto t Check s"
| "run_step t Check s = Some (Inr (Tau t, goto t (if m_workqueue s = [] then UnlockEmpty else Front) s))"
| "run_step t UnlockEmpty s = Some (unlock_goto t (Tau t) Test s)"
| "run_step t Front s =
     (case m_workqueue s of
        [] \<Rightarrow> Some (Inl OutOfBounds)
      | r # q \<Rightarrow> Some (Inr (Took t r, goto t (UnlockTaken r) (s\<lparr>m_workqueue := q\<rparr>))))"
| "run_step t (UnlockTaken r) s = Some (unlock_goto t (Tau t) (Dispatch r) s)"
| "run_step t (Dispatch r) s =
     (case r of None \<Rightarrow> Some (Inr (Tau t, goto t Test s))
      | Some x \<Rightarrow> Some (Inr (Processed t x, goto t Test s)))"
| "run_step t _ s = None"

text \<open>A call of append, for the thread t.\<close>

fun append_step :: "nat \<Rightarrow> 'r pc \<Rightarrow> 'r threadpool \<Rightarrow> ('r event \<times> 'r threadpool) res option" where
  "append_step t (ALock r) s = lock_goto t (ACheck r) s"
| "append_step t (ACheck r) s =
     Some (Inr (Tau t, goto t (if int (length (m_workqueue s)) > m_max_requests s then AReject else APush r) s))"
| "append_step t AReject s = Some (unlock_goto t (Returned t False) Idle s)"
| "append_step t (APush r) s = Some (Inr (Accepted t r, goto t AUnlock (s\<lparr>m_workqueue := m_workqueue s @ [r]\<rparr>)))"
| "append_step t AUnlock s = Some (unlock_goto t (Tau t) APost s)"
| "append_step t APost s =
     (let (_, q) = sem_post (m_queuestat s) in Some (Inr (Returned t True, goto t Idle (s\<lparr>m_queuestat := q\<rparr>))))"
| "append_step t _ s = None"

definition is_worker :: "'r threadpool \<Rightarrow> nat \<Rightarrow> bool" where
  "is_worker s t \<longleftrightarrow> int t < m_thread_number s"

text \<open>The points before a statement that reads or writes a member of the pool.\<close>

fun uses_pool :: "'r pc \<Rightarrow> bool" where
  "uses_pool Exited \<longleftrightarrow> False" | "uses_pool Idle \<longleftrightarrow> False" | "uses_pool (Dispatch r) \<longleftrightarrow> False" | "uses_pool _ \<longleftrightarrow> True"

definition thread_step :: "nat \<Rightarrow> 'r threadpool \<Rightarrow> ('r event \<times> 'r threadpool) res option" where
  "thread_step t s =
     (if t < length (threads s)
      then (if uses_pool (threads s ! t) \<and> \<not> alive s then Some (Inl UseAfterFree)
            else if is_worker s t then run_step t (threads s ! t) s else append_step t (threads s ! t) s)
      else None)"

text \<open>
  A step of the system: a thread starts a call of append, a thread steps, a signal
  interrupts a worker's wait (run does not look at the result and goes on), or the destructor runs: its body
  sets m\_stop, and the members are destroyed after it. Destroying a semaphore on which a thread is blocked, or a
  mutex that is held, is undefined, and so is every later use of the pool. Undefined behaviour ends the run, as the
  pool None.
\<close>

definition destroy_pool :: "'r threadpool \<Rightarrow> 'r threadpool res" where
  "destroy_pool s =
     (if m_sem (m_queuestat s) = 0 \<and> list_ex (\<lambda>p. case p of Wait \<Rightarrow> True | _ \<Rightarrow> False) (threads s) then Inl UseAfterFree
      else map_res (\<lambda>_. s\<lparr>alive := False\<rparr>) (destroy_locker (m_queuelocker s)))"

inductive pool_step :: "'r threadpool \<Rightarrow> 'r event \<Rightarrow> 'r threadpool option \<Rightarrow> bool" where
  call: "t < length (threads s) \<Longrightarrow> \<not> is_worker s t \<Longrightarrow> threads s ! t = Idle \<Longrightarrow>
     pool_step s (Called t r) (Some (goto t (ALock r) s))"
| thread: "thread_step t s = Some (Inr (ev, s')) \<Longrightarrow> pool_step s ev (Some s')"
| undefined: "thread_step t s = Some (Inl e) \<Longrightarrow> pool_step s (Tau t) None"
| interrupted: "alive s \<Longrightarrow> t < length (threads s) \<Longrightarrow> is_worker s t \<Longrightarrow> threads s ! t = Wait \<Longrightarrow>
     sem_wait_interrupted (m_queuestat s) = (b, q) \<Longrightarrow>
     pool_step s (Tau t) (Some (goto t Lock (s\<lparr>m_queuestat := q\<rparr>)))"
| stop: "alive s \<Longrightarrow> pool_step s Stopped (Some (s\<lparr>m_stop := True\<rparr>))"
| destroy: "alive s \<Longrightarrow> m_stop s \<Longrightarrow> destroy_pool s = Inr s' \<Longrightarrow> pool_step s Destroyed (Some s')"
| destroy_undefined: "alive s \<Longrightarrow> m_stop s \<Longrightarrow> destroy_pool s = Inl e \<Longrightarrow> pool_step s Destroyed None"

inductive_cases pool_stepE: "pool_step s ev s'"

section \<open>The invariant\<close>

text \<open>The points at which a thread holds the mutex, and those a worker or a caller can be at.\<close>

fun holds_lock :: "'r pc \<Rightarrow> bool" where
  "holds_lock Check \<longleftrightarrow> True" | "holds_lock UnlockEmpty \<longleftrightarrow> True" | "holds_lock Front \<longleftrightarrow> True"
| "holds_lock (UnlockTaken r) \<longleftrightarrow> True" | "holds_lock (ACheck r) \<longleftrightarrow> True" | "holds_lock AReject \<longleftrightarrow> True"
| "holds_lock (APush r) \<longleftrightarrow> True" | "holds_lock AUnlock \<longleftrightarrow> True" | "holds_lock _ \<longleftrightarrow> False"

fun worker_pc :: "'r pc \<Rightarrow> bool" where
  "worker_pc Test \<longleftrightarrow> True" | "worker_pc Wait \<longleftrightarrow> True" | "worker_pc Lock \<longleftrightarrow> True"
| "worker_pc Check \<longleftrightarrow> True" | "worker_pc UnlockEmpty \<longleftrightarrow> True" | "worker_pc Front \<longleftrightarrow> True"
| "worker_pc (UnlockTaken r) \<longleftrightarrow> True" | "worker_pc (Dispatch r) \<longleftrightarrow> True" | "worker_pc Exited \<longleftrightarrow> True"
| "worker_pc _ \<longleftrightarrow> False"

text \<open>
  A worker between wait and pop\_front may take one element of the queue; a caller between
  push\_back and post owes the semaphore one. Together with the semaphore they cover the queue.
\<close>

fun claim :: "'r pc \<Rightarrow> nat" where
  "claim Lock = 1" | "claim Check = 1" | "claim Front = 1" | "claim _ = 0"

fun debt :: "'r pc \<Rightarrow> nat" where
  "debt AUnlock = 1" | "debt APost = 1" | "debt _ = 0"

definition pool_inv :: "'r threadpool \<Rightarrow> bool" where
  "pool_inv s \<longleftrightarrow>
     alive s \<and> 0 < m_thread_number s \<and> m_thread_number s \<le> int (length (threads s)) \<and>
     0 < m_max_requests s \<and> m_max_requests s < int SEM_VALUE_MAX \<and>
     (\<forall>t < length (threads s). holds_lock (threads s ! t) \<longleftrightarrow> m_mutex (m_queuelocker s) = Some t) \<and>
     (\<forall>t. m_mutex (m_queuelocker s) = Some t \<longrightarrow> t < length (threads s)) \<and>
     (\<forall>t < length (threads s). worker_pc (threads s ! t) \<longleftrightarrow> is_worker s t) \<and>
     (\<forall>t < length (threads s). threads s ! t = Front \<longrightarrow> m_workqueue s \<noteq> []) \<and>
     length (m_workqueue s) \<le>
       m_sem (m_queuestat s) + sum_list (map claim (threads s)) + sum_list (map debt (threads s)) \<and>
     int (length (m_workqueue s)) \<le> m_max_requests s + 1 \<and>
     (\<forall>t < length (threads s). \<forall>r. threads s ! t = APush r \<longrightarrow> int (length (m_workqueue s)) \<le> m_max_requests s)"

text \<open>Preservation of the invariant by a step that moves thread t.\<close>

lemma pool_inv_move:
  assumes "pool_inv s" and "t < length (threads s)" and "threads s ! t = p"
    and "worker_pc p' \<longleftrightarrow> worker_pc p"
    and lk: "(m_mutex l = m_mutex (m_queuelocker s) \<and> (holds_lock p' \<longleftrightarrow> holds_lock p)) \<or>
      (m_mutex (m_queuelocker s) = None \<and> m_mutex l = Some t \<and> holds_lock p') \<or>
      (m_mutex (m_queuelocker s) = Some t \<and> m_mutex l = None \<and> \<not> holds_lock p')"
    and "p' = Front \<longrightarrow> q \<noteq> []"
    and "length q \<le> m_sem st \<or> length q + (m_sem (m_queuestat s) + claim p + debt p) \<le>
      length (m_workqueue s) + (m_sem st + claim p' + debt p')"
    and "int (length q) \<le> m_max_requests s + 1"
    and "\<forall>r. p' = APush r \<longrightarrow> int (length q) \<le> m_max_requests s"
    and "q = m_workqueue s \<or> m_mutex (m_queuelocker s) = Some t"
  shows "pool_inv (goto t p' (s\<lparr>m_queuelocker := l, m_queuestat := st, m_workqueue := q\<rparr>))"
proof -
  note inv = assms(1) [unfolded pool_inv_def]
  let ?ts = "(threads s)[t := p']"
  have nth: "?ts ! u = (if u = t then p' else threads s ! u)" if "u < length (threads s)" for u
    using that by (simp add: nth_list_update)
  have c: "sum_list (map claim ?ts) + claim p = sum_list (map claim (threads s)) + claim p'"
    and d: "sum_list (map debt ?ts) + debt p = sum_list (map debt (threads s)) + debt p'"
    using sum_list_update [OF assms(2), of claim p'] sum_list_update [OF assms(2), of debt p'] assms(3) by simp_all
  have lock: "\<forall>u < length (threads s). holds_lock (?ts ! u) \<longleftrightarrow> m_mutex l = Some u"
    using inv lk assms(2,3) nth by auto
  have push: "\<forall>u < length (threads s). \<forall>r. ?ts ! u = APush r \<longrightarrow> int (length q) \<le> m_max_requests s"
  proof (intro allI impI)
    fix u r assume u: "u < length (threads s)" "?ts ! u = APush r"
    show "int (length q) \<le> m_max_requests s"
    proof (cases "u = t")
      case True
      with u nth assms(9) show ?thesis by simp
    next
      case False
      with u nth have a: "threads s ! u = APush r" by simp
      with inv u(1) have le: "int (length (m_workqueue s)) \<le> m_max_requests s" by blast
      have "holds_lock (threads s ! u)" using a by simp
      with inv u(1) have "m_mutex (m_queuelocker s) = Some u" by blast
      with False assms(10) le show ?thesis by auto
    qed
  qed
  have front: "\<forall>u < length (threads s). ?ts ! u = Front \<longrightarrow> q \<noteq> []"
  proof (intro allI impI)
    fix u assume u: "u < length (threads s)" "?ts ! u = Front"
    show "q \<noteq> []"
    proof (cases "u = t")
      case True
      with u nth assms(6) show ?thesis by simp
    next
      case False
      with u nth have a: "threads s ! u = Front" by simp
      with inv u(1) have ne: "m_workqueue s \<noteq> []" by blast
      have "holds_lock (threads s ! u)" using a by simp
      with inv u(1) have "m_mutex (m_queuelocker s) = Some u" by blast
      with False assms(10) ne show ?thesis by auto
    qed
  qed
  have "length (m_workqueue s) \<le> m_sem (m_queuestat s) + sum_list (map claim (threads s)) + sum_list (map debt (threads s))"
    using inv by blast
  then have len: "length q \<le> m_sem st + sum_list (map claim ?ts) + sum_list (map debt ?ts)"
    using c d assms(7) by linarith
  show ?thesis
    unfolding pool_inv_def goto_def
    using inv lock push front len nth assms(2-4,8) lk by (auto simp: is_worker_def)
qed

lemma thread_step_inv:
  assumes "pool_inv s" and "thread_step t s = Some r"
  shows "\<exists>ev s'. r = Inr (ev, s') \<and> pool_inv s'"
proof -
  note inv = assms(1) [unfolded pool_inv_def]
  have alive: "alive s" using inv by simp
  from assms(2) have t: "t < length (threads s)" by (auto simp: thread_step_def alive split: if_splits)
  let ?p = "threads s ! t"
  have lk: "holds_lock ?p \<longleftrightarrow> m_mutex (m_queuelocker s) = Some t" using inv t by blast
  have wk: "worker_pc ?p \<longleftrightarrow> is_worker s t" using inv t by blast
  have bound: "int (length (m_workqueue s)) \<le> m_max_requests s + 1" using inv by blast+
  note move = pool_inv_move [OF assms(1) t refl]
  have same: "s\<lparr>m_queuelocker := m_queuelocker s, m_queuestat := m_queuestat s, m_workqueue := m_workqueue s\<rparr> = s"
    by simp
  show ?thesis
  proof (cases "?p")
    case Test
    then show ?thesis using assms(2) t wk bound
        move [of "if m_stop s then Exited else Wait" "m_queuelocker s" "m_workqueue s" "m_queuestat s"]
      by (auto simp: thread_step_def alive)
  next
    case Wait
    then show ?thesis using assms(2) t wk bound
        move [of Lock "m_queuelocker s" "m_workqueue s" "m_queuestat s\<lparr>m_sem := m_sem (m_queuestat s) - 1\<rparr>"]
      by (auto simp: thread_step_def alive sem_wait_def split: if_splits)
  next
    case Lock
    then show ?thesis using assms(2) t wk bound
        move [of Check "m_queuelocker s\<lparr>m_mutex := Some t\<rparr>" "m_workqueue s" "m_queuestat s"]
      by (auto simp: thread_step_def alive lock_goto_def lock_def split: if_splits)
  next
    case Check
    then show ?thesis using assms(2) t wk bound
        move [of "if m_workqueue s = [] then UnlockEmpty else Front" "m_queuelocker s" "m_workqueue s" "m_queuestat s"]
      by (auto simp: thread_step_def alive)
  next
    case UnlockEmpty
    then show ?thesis using assms(2) t wk lk bound
        move [of Test "m_queuelocker s\<lparr>m_mutex := None\<rparr>" "m_workqueue s" "m_queuestat s"]
      by (auto simp: thread_step_def alive unlock_goto_def unlock_def)
  next
    case Front
    then have "m_workqueue s \<noteq> []" using inv t by blast
    then obtain r q where q: "m_workqueue s = r # q" by (cases "m_workqueue s") auto
    with Front show ?thesis using assms(2) t wk lk bound
        move [of "UnlockTaken r" "m_queuelocker s" q "m_queuestat s"]
      by (auto simp: thread_step_def alive)
  next
    case (UnlockTaken r)
    then show ?thesis using assms(2) t wk lk bound
        move [of "Dispatch r" "m_queuelocker s\<lparr>m_mutex := None\<rparr>" "m_workqueue s" "m_queuestat s"]
      by (auto simp: thread_step_def alive unlock_goto_def unlock_def)
  next
    case (Dispatch r)
    then show ?thesis using assms(2) t wk bound
        move [of Test "m_queuelocker s" "m_workqueue s" "m_queuestat s"]
      by (auto simp: thread_step_def alive split: option.splits)
  next
    case (ALock r)
    then show ?thesis using assms(2) t wk bound
        move [of "ACheck r" "m_queuelocker s\<lparr>m_mutex := Some t\<rparr>" "m_workqueue s" "m_queuestat s"]
      by (auto simp: thread_step_def alive lock_goto_def lock_def split: if_splits)
  next
    case (ACheck r)
    then show ?thesis using assms(2) t wk bound
        move [of "if int (length (m_workqueue s)) > m_max_requests s then AReject else APush r"
          "m_queuelocker s" "m_workqueue s" "m_queuestat s"]
      by (auto simp: thread_step_def alive)
  next
    case AReject
    then show ?thesis using assms(2) t wk lk bound
        move [of Idle "m_queuelocker s\<lparr>m_mutex := None\<rparr>" "m_workqueue s" "m_queuestat s"]
      by (auto simp: thread_step_def alive unlock_goto_def unlock_def)
  next
    case (APush r)
    then have "int (length (m_workqueue s)) \<le> m_max_requests s" using inv t by blast
    with APush show ?thesis using assms(2) t wk lk bound
        move [of AUnlock "m_queuelocker s" "m_workqueue s @ [r]" "m_queuestat s"]
      by (auto simp: thread_step_def alive)
  next
    case AUnlock
    then show ?thesis using assms(2) t wk lk bound
        move [of APost "m_queuelocker s\<lparr>m_mutex := None\<rparr>" "m_workqueue s" "m_queuestat s"]
      by (auto simp: thread_step_def alive unlock_goto_def unlock_def)
  next
    case APost
    let ?st = "snd (sem_post (m_queuestat s))"
    have "int (length (m_workqueue s)) \<le> int SEM_VALUE_MAX" using bound inv by linarith
    then have "length (m_workqueue s) \<le> m_sem ?st \<or> m_sem ?st = Suc (m_sem (m_queuestat s))"
      by (auto simp: sem_post_def)
    with APost show ?thesis using assms(2) t wk bound
        move [of Idle "m_queuelocker s" "m_workqueue s" ?st]
      by (auto simp: thread_step_def alive split_beta Let_def)
  qed (use assms(2) t wk in \<open>auto simp: thread_step_def alive\<close>)
qed

lemma pool_inv_construct:
  assumes "construct n m (Some junk) callers = Inr (Some s)" and "junk < int SEM_VALUE_MAX"
  shows "pool_inv s"
proof -
  from assms(1) have s: "s = \<lparr>m_thread_number = n, m_max_requests = junk, m_workqueue = [],
        m_queuelocker = new_locker, m_queuestat = new_sem, m_stop = False,
        threads = replicate (nat n) Test @ replicate callers Idle, alive = True\<rparr>" and "0 < n" "0 < junk"
    by (auto simp: construct_def split: if_splits)
  have "threads s ! t = (if t < nat n then Test else Idle)" if "t < length (threads s)" for t
    using that by (simp add: s nth_append)
  moreover have "sum_list (map claim (threads s)) = 0" "sum_list (map debt (threads s)) = 0"
    by (simp_all add: s sum_list_replicate)
  ultimately show ?thesis using \<open>0 < n\<close> \<open>0 < junk\<close> assms(2)
    unfolding pool_inv_def by (auto simp: s new_locker_def new_sem_def is_worker_def)
qed

lemma pool_step_inv:
  assumes "pool_inv s" and "ev \<noteq> Destroyed" and "pool_step s ev s'"
  shows "\<exists>s1. s' = Some s1 \<and> pool_inv s1"
  using assms(3)
proof (cases rule: pool_step.cases)
  case (call t r)
  have "pool_inv (goto t (ALock r) (s\<lparr>m_queuelocker := m_queuelocker s, m_queuestat := m_queuestat s,
      m_workqueue := m_workqueue s\<rparr>))"
    by (rule pool_inv_move [OF assms(1) call(3) refl]) (use call assms(1) in \<open>auto simp: pool_inv_def\<close>)
  with call show ?thesis by simp
next
  case (thread t s1)
  with thread_step_inv [OF assms(1)] show ?thesis by fastforce
next
  case (interrupted t b q)
  have "pool_inv (goto t Lock (s\<lparr>m_queuelocker := m_queuelocker s, m_queuestat := q, m_workqueue := m_workqueue s\<rparr>))"
    by (rule pool_inv_move [OF assms(1) interrupted(4) refl])
      (use interrupted assms(1) in \<open>auto simp: pool_inv_def sem_wait_interrupted_def\<close>)
  with interrupted show ?thesis by simp
next
  case (undefined t e)
  with thread_step_inv [OF assms(1)] show ?thesis by fastforce
next
  case stop
  moreover have "pool_inv (s\<lparr>m_stop := True\<rparr>) = pool_inv s"
    by (cases s) (simp add: pool_inv_def is_worker_def)
  ultimately show ?thesis using assms(1) by simp
qed (use assms(2) in simp_all)

interpretation pool_safe: safe_system pool_step pool_inv "\<lambda>ev. ev \<noteq> Destroyed"
  by unfold_locales (rule pool_step_inv)

section \<open>What the events record\<close>

fun accepted_of :: "'r event \<Rightarrow> 'r option list" where
  "accepted_of (Accepted t r) = [r]" | "accepted_of _ = []"

fun took_of :: "'r event \<Rightarrow> 'r option list" where
  "took_of (Took t r) = [r]" | "took_of _ = []"

fun processed_of :: "'r event \<Rightarrow> 'r list" where
  "processed_of (Processed t x) = [x]" | "processed_of _ = []"

definition accepted :: "'r event list \<Rightarrow> 'r option list" where "accepted evs = concat (map accepted_of evs)"
definition took :: "'r event list \<Rightarrow> 'r option list" where "took evs = concat (map took_of evs)"
definition processed :: "'r event list \<Rightarrow> 'r list" where "processed evs = concat (map processed_of evs)"

text \<open>The non-null requests of a list, and those a thread has taken but not yet processed.\<close>

definition proper :: "'r option list \<Rightarrow> 'r list" where
  "proper rs = map the (filter (\<lambda>r. r \<noteq> None) rs)"

definition one_request :: "'r option \<Rightarrow> 'r multiset" where
  "one_request r = mset (proper [r])"

lemma proper_simps [simp]:
  "proper [] = []" "proper (xs @ ys) = proper xs @ proper ys" "mset (proper [r]) = one_request r"
  "one_request None = {#}" "one_request (Some x) = {#x#}"
  by (simp_all add: proper_def one_request_def)

fun in_hand :: "'r pc \<Rightarrow> 'r multiset" where
  "in_hand (UnlockTaken r) = one_request r" | "in_hand (Dispatch r) = one_request r"
| "in_hand _ = {#}"

definition hands :: "'r threadpool \<Rightarrow> 'r multiset" where
  "hands s = sum_list (map in_hand (threads s))"

lemma hands_goto:
  "t < length (threads s) \<Longrightarrow> hands (goto t p s) + in_hand (threads s ! t) = hands s + in_hand p"
  unfolding hands_def goto_def using sum_list_update [of t "threads s" in_hand p] by simp

lemma hands_cong [simp]:
  "hands (s\<lparr>m_queuelocker := l\<rparr>) = hands s" "hands (s\<lparr>m_queuestat := q\<rparr>) = hands s"
  "hands (s\<lparr>m_workqueue := w\<rparr>) = hands s" "hands (s\<lparr>m_stop := b\<rparr>) = hands s" "hands (s\<lparr>alive := b\<rparr>) = hands s"
  "hands (goto t p (s\<lparr>m_queuelocker := l\<rparr>)) = hands (goto t p s)"
  "hands (goto t p (s\<lparr>m_queuestat := q\<rparr>)) = hands (goto t p s)"
  "hands (goto t p (s\<lparr>m_workqueue := w\<rparr>)) = hands (goto t p s)"
  by (simp_all add: hands_def goto_def)

lemma goto_simps [simp]:
  "m_workqueue (goto t p s) = m_workqueue s" "m_max_requests (goto t p s) = m_max_requests s"
  "m_queuelocker (goto t p s) = m_queuelocker s" "m_queuestat (goto t p s) = m_queuestat s"
  "m_stop (goto t p s) = m_stop s" "m_thread_number (goto t p s) = m_thread_number s"
  "length (threads (goto t p s)) = length (threads s)"
  by (simp_all add: goto_def)

text \<open>One step: what it appends to the queue or takes from its front, and what it processes.\<close>

lemma thread_step_effect:
  assumes "thread_step t s = Some (Inr (ev, s'))"
  shows "m_workqueue s @ accepted_of ev = took_of ev @ m_workqueue s' \<and>
    hands s + mset (proper (took_of ev)) = mset (processed_of ev) + hands s'"
proof -
  from assms have t: "t < length (threads s)" by (auto simp: thread_step_def split: if_splits)
  note hg = hands_goto [OF t]
  have "threads s ! t = UnlockTaken r \<Longrightarrow> hands (goto t (Dispatch r) s) = hands s" for r
    using hg [of "Dispatch r"] by simp
  note hg = hg this
  show ?thesis
    using assms t hg
    by (cases "threads s ! t")
      (auto simp: thread_step_def unlock_goto_def lock_goto_def unlock_def lock_def sem_wait_def sem_post_def
        Let_def split: if_splits list.splits option.splits)
qed

lemma pool_step_effect:
  assumes "pool_step s ev (Some s')"
  shows "m_workqueue s @ accepted_of ev = took_of ev @ m_workqueue s' \<and>
    hands s + mset (proper (took_of ev)) = mset (processed_of ev) + hands s'"
  using assms
proof (cases rule: pool_step.cases)
  case (call t r)
  with hands_goto [OF call(3), of "ALock r"] show ?thesis by simp
next
  case (interrupted t b q)
  with hands_goto [OF interrupted(4), of Lock] show ?thesis by simp
next
  case (thread t)
  then show ?thesis by (rule thread_step_effect)
next
  case stop
  then show ?thesis by simp
next
  case destroy
  then show ?thesis by (auto simp: destroy_pool_def map_res_Inr_iff split: if_splits)
qed

definition pool_trace :: "'r threadpool \<Rightarrow> 'r event list \<Rightarrow> 'r threadpool \<Rightarrow> bool" where
  "pool_trace s0 evs s \<longleftrightarrow> m_workqueue s0 @ accepted evs = took evs @ m_workqueue s \<and>
    hands s0 + mset (proper (took evs)) = mset (processed evs) + hands s"

lemma pool_trace_step:
  assumes "pool_trace s0 evs s1" and "pool_step s1 ev (Some s)"
  shows "pool_trace s0 (evs @ [ev]) s"
proof -
  from assms(1) have
    "m_workqueue s0 @ accepted evs = took evs @ m_workqueue s1"
    "hands s0 + mset (proper (took evs)) = mset (processed evs) + hands s1" by (simp_all add: pool_trace_def)
  moreover from pool_step_effect [OF assms(2)] have
    "m_workqueue s1 @ accepted_of ev = took_of ev @ m_workqueue s"
    "hands s1 + mset (proper (took_of ev)) = mset (processed_of ev) + hands s" by simp_all
  ultimately have "m_workqueue s0 @ accepted evs @ accepted_of ev = took evs @ took_of ev @ m_workqueue s"
    and "hands s0 + (mset (proper (took evs)) + mset (proper (took_of ev))) =
      mset (processed evs) + mset (processed_of ev) + hands s"
    by (metis append.assoc, metis add.assoc)
  then show ?thesis by (simp add: pool_trace_def accepted_def took_def processed_def)
qed

interpretation pool_events: traced_system pool_step pool_trace
proof unfold_locales
  show "pool_trace s [] s" for s :: "'a threadpool"
    by (simp add: pool_trace_def accepted_def took_def processed_def)
qed (rule pool_trace_step)

section \<open>Progress\<close>

definition running :: "'r threadpool \<Rightarrow> bool" where
  "running s \<longleftrightarrow> \<not> m_stop s \<and> (\<forall>t < length (threads s). threads s ! t \<noteq> Exited)"

lemma goto_nth: "u < length (threads s) \<Longrightarrow> threads (goto t p s) ! u = (if u = t then p else threads s ! u)"
  by (simp add: goto_def nth_list_update)

lemma running_goto: "running s \<Longrightarrow> p \<noteq> Exited \<Longrightarrow> running (goto t p s)"
  by (auto simp: running_def goto_nth)

lemma running_cong [simp]:
  "running (goto t p (s\<lparr>m_queuelocker := l\<rparr>)) = running (goto t p s)"
  "running (goto t p (s\<lparr>m_queuestat := q\<rparr>)) = running (goto t p s)"
  "running (goto t p (s\<lparr>m_workqueue := w\<rparr>)) = running (goto t p s)"
  by (simp_all add: running_def goto_def)

lemma pool_step_running:
  assumes "pool_step s ev (Some s')" and "running s" and "ev \<noteq> Stopped"
  shows "running s'"
  using assms(1)
proof (cases rule: pool_step.cases)
  case (call t r)
  with assms(2) show ?thesis by (simp add: running_goto)
next
  case (thread t)
  moreover have "\<not> m_stop s" using assms(2) by (simp add: running_def)
  ultimately show ?thesis using assms(2)
    by (cases "threads s ! t")
      (auto simp: thread_step_def unlock_goto_def lock_goto_def unlock_def lock_def sem_wait_def sem_post_def
        Let_def running_goto split: if_splits list.splits option.splits)
next
  case destroy
  with assms(2) show ?thesis by (simp add: running_def)
qed (use assms in \<open>auto simp: running_goto\<close>)

lemma pool_run_running:
  assumes "run pool_step s evs (Some s')" and "running s" and "Stopped \<notin> set evs"
  shows "running s'"
  using assms
proof (induction evs arbitrary: s' rule: rev_induct)
  case (snoc ev evs)
  then show ?case using pool_step_running by (auto simp: run_snoc)
qed simp

text \<open>Every thread but a waiting or idle one, or one in line for a mutex that is taken, can step.\<close>

lemma thread_can_step:
  assumes "pool_inv s" and "t < length (threads s)" and "threads s ! t \<noteq> Exited" and "threads s ! t \<noteq> Idle"
    and "threads s ! t = Wait \<Longrightarrow> 0 < m_sem (m_queuestat s)"
    and "\<not> holds_lock (threads s ! t) \<Longrightarrow> m_mutex (m_queuelocker s) = None"
  shows "\<exists>ev s'. thread_step t s = Some (Inr (ev, s'))"
proof -
  have w: "worker_pc (threads s ! t) \<longleftrightarrow> is_worker s t" using assms(1,2) unfolding pool_inv_def by blast
  have "thread_step t s \<noteq> None"
    using w assms(2-)
    by (cases "threads s ! t")
      (auto simp: thread_step_def lock_goto_def lock_def sem_wait_def split: list.splits option.splits prod.splits)
  then obtain r where "thread_step t s = Some r" by blast
  with thread_step_inv [OF assms(1)] show ?thesis by blast
qed

lemma work_progresses:
  assumes inv: "pool_inv s" and "running s" and "m_workqueue s \<noteq> []"
  shows "\<exists>t ev s'. thread_step t s = Some (Inr (ev, s'))"
proof (cases "m_mutex (m_queuelocker s)")
  case (Some t)
  then have t: "t < length (threads s)" "holds_lock (threads s ! t)"
    using inv unfolding pool_inv_def by blast+
  then have "threads s ! t \<noteq> Exited" "threads s ! t \<noteq> Idle" "threads s ! t \<noteq> Wait" by auto
  with thread_can_step [OF inv t(1)] t(2) show ?thesis by blast
next
  case None
  have len: "length (m_workqueue s) \<le>
      m_sem (m_queuestat s) + sum_list (map claim (threads s)) + sum_list (map debt (threads s))"
    using inv unfolding pool_inv_def by blast
  with assms(3) consider "0 < m_sem (m_queuestat s)" | "0 < sum_list (map claim (threads s))"
    | "0 < sum_list (map debt (threads s))" by fastforce
  then show ?thesis
  proof cases
    case 1
    have t: "0 < length (threads s)" "worker_pc (threads s ! 0)"
      using inv unfolding pool_inv_def is_worker_def by force+
    then have "threads s ! 0 \<noteq> Idle" by auto
    moreover have "threads s ! 0 \<noteq> Exited" using assms(2) t(1) by (simp add: running_def)
    ultimately show ?thesis using thread_can_step [OF inv t(1)] 1 None by blast
  next
    case 2
    then obtain t where t: "t < length (threads s)" "0 < claim (threads s ! t)" by (rule sum_list_pos)
    then have "threads s ! t \<noteq> Exited" "threads s ! t \<noteq> Idle" "threads s ! t \<noteq> Wait" by auto
    with thread_can_step [OF inv t(1)] None show ?thesis by blast
  next
    case 3
    then obtain t where t: "t < length (threads s)" "0 < debt (threads s ! t)" by (rule sum_list_pos)
    then have "threads s ! t \<noteq> Exited" "threads s ! t \<noteq> Idle" "threads s ! t \<noteq> Wait" by auto
    with thread_can_step [OF inv t(1)] None show ?thesis by blast
  qed
qed

section \<open>The properties of the pool\<close>

lemma sum_list_empty: "sum_list (replicate k {#}) = {#}"
  by (induction k) simp_all

lemma construct_start:
  assumes "construct n m junk callers = Inr (Some s)"
  shows "m_workqueue s = []" and "hands s = {#}" and "running s" and "alive s" and "junk = Some (m_max_requests s)"
  using assms by (auto simp: construct_def hands_def running_def sum_list_empty nth_append split: if_splits option.splits)

text \<open>The members exist until the event Destroyed, which the destructor's assignment of m\_stop precedes.\<close>

lemma thread_step_alive:
  assumes "thread_step t s = Some (Inr (ev, s'))"
  shows "alive s' = alive s \<and> ev \<noteq> Destroyed \<and> ev \<noteq> Stopped \<and> m_stop s' = m_stop s"
  using assms
  by (cases "threads s ! t")
    (auto simp: thread_step_def unlock_goto_def lock_goto_def unlock_def lock_def sem_wait_def sem_post_def goto_def
      Let_def split: if_splits list.splits option.splits)

lemma pool_step_alive:
  assumes "pool_step s ev (Some s')"
  shows "alive s' \<longleftrightarrow> alive s \<and> ev \<noteq> Destroyed" and "ev = Destroyed \<Longrightarrow> m_stop s"
    and "m_stop s' \<longleftrightarrow> m_stop s \<or> ev = Stopped"
proof -
  have "(alive s' \<longleftrightarrow> alive s \<and> ev \<noteq> Destroyed) \<and> (ev = Destroyed \<longrightarrow> m_stop s) \<and>
    (m_stop s' \<longleftrightarrow> m_stop s \<or> ev = Stopped)"
    using assms
  proof (cases rule: pool_step.cases)
    case (thread t)
    with thread_step_alive show ?thesis by blast
  qed (auto simp: goto_def destroy_pool_def map_res_Inr_iff split: if_splits)
  then show "alive s' \<longleftrightarrow> alive s \<and> ev \<noteq> Destroyed" and "ev = Destroyed \<Longrightarrow> m_stop s"
    and "m_stop s' \<longleftrightarrow> m_stop s \<or> ev = Stopped" by blast+
qed

lemma pool_run_alive:
  assumes "run pool_step s evs (Some s')"
  shows "(alive s' \<longleftrightarrow> alive s \<and> Destroyed \<notin> set evs) \<and> (m_stop s' \<longleftrightarrow> m_stop s \<or> Stopped \<in> set evs) \<and>
    (Destroyed \<in> set evs \<longrightarrow> m_stop s \<or> Stopped \<in> set evs)"
  using assms
proof (induction evs arbitrary: s' rule: rev_induct)
  case (snoc ev evs)
  then obtain s1 where s1: "run pool_step s evs (Some s1)" "pool_step s1 ev (Some s')" by (auto simp: run_snoc)
  from snoc.IH [OF s1(1)] pool_step_alive [OF s1(2)] show ?case by auto
qed simp

lemma destroyed_use: "\<not> alive s \<Longrightarrow> t < length (threads s) \<Longrightarrow> uses_pool (threads s ! t) \<Longrightarrow>
    thread_step t s = Some (Inl UseAfterFree)"
  by (simp add: thread_step_def)

text \<open>
  C2. The pool is safe under every interleaving until its members are destroyed: for a constructor that found the
  value junk in the storage of m\_max\_requests, below the maximum of a semaphore, no run of workers, callers,
  interruptions and the destructor's body reaches undefined behaviour (a pop from an empty queue, an unlock by a
  thread that does not hold the mutex); at most one thread is between lock and unlock; and the queue never
  holds more than the bound plus one. Once the members are destroyed, every further use of them by a thread, a
  worker's next test of m\_stop included, is undefined.
\<close>

theorem pool_safety:
  assumes "construct n m (Some junk) callers = Inr (Some s0)" and "junk < int SEM_VALUE_MAX"
    and "run pool_step s0 evs r"
  shows "(Destroyed \<notin> set evs \<longrightarrow>
      (\<exists>s. r = Some s \<and> int (length (m_workqueue s)) \<le> m_max_requests s + 1 \<and>
        (\<forall>t u. t < length (threads s) \<and> u < length (threads s) \<and>
           holds_lock (threads s ! t) \<and> holds_lock (threads s ! u) \<longrightarrow> t = u))) \<and>
    (\<forall>s t. Destroyed \<in> set evs \<and> r = Some s \<and> t < length (threads s) \<and> uses_pool (threads s ! t) \<longrightarrow>
       thread_step t s = Some (Inl UseAfterFree))"
proof (intro conjI impI allI)
  assume "Destroyed \<notin> set evs"
  with pool_safe.run_safe [OF assms(3) pool_inv_construct [OF assms(1,2)]] obtain s where
    r: "r = Some s" and inv: "pool_inv s" by blast
  have "t = u" if "t < length (threads s)" "u < length (threads s)" "holds_lock (threads s ! t)"
    "holds_lock (threads s ! u)" for t u
  proof -
    have "m_mutex (m_queuelocker s) = Some t" "m_mutex (m_queuelocker s) = Some u"
      using inv that unfolding pool_inv_def by blast+
    then show ?thesis by simp
  qed
  moreover have "int (length (m_workqueue s)) \<le> m_max_requests s + 1" using inv by (simp add: pool_inv_def)
  ultimately show "\<exists>s. r = Some s \<and> int (length (m_workqueue s)) \<le> m_max_requests s + 1 \<and>
        (\<forall>t u. t < length (threads s) \<and> u < length (threads s) \<and>
           holds_lock (threads s ! t) \<and> holds_lock (threads s ! u) \<longrightarrow> t = u)" using r by blast
next
  fix s t
  assume "Destroyed \<in> set evs \<and> r = Some s \<and> t < length (threads s) \<and> uses_pool (threads s ! t)"
  moreover from this pool_run_alive [of s0 evs s] assms(3) have "\<not> alive s" by simp
  ultimately show "thread_step t s = Some (Inl UseAfterFree)" by (simp add: destroyed_use)
qed

text \<open>A pool with one worker and one caller, and a run in which a request is pushed.\<close>

definition sample_pool :: "nat threadpool" where
  "sample_pool = \<lparr>m_thread_number = 1, m_max_requests = 1000, m_workqueue = [],
     m_queuelocker = new_locker, m_queuestat = new_sem, m_stop = False, threads = [Test, Idle], alive = True\<rparr>"

definition pushed_pool :: "nat threadpool" where
  "pushed_pool = sample_pool\<lparr>m_workqueue := [Some 7], m_queuelocker := \<lparr>m_mutex = Some 1\<rparr>,
     threads := [Test, AUnlock]\<rparr>"

lemma sample_pool_construct: "construct 1 5 (Some 1000) 1 = Inr (Some sample_pool)"
  by (simp add: sample_pool_def construct_def)

lemma sample_run:
  "run pool_step sample_pool [Called 1 (Some 7), Tau 1, Tau 1, Accepted 1 (Some 7)] (Some pushed_pool)"
proof (rule run_Cons)
  let ?s1 = "sample_pool\<lparr>threads := [Test, ALock (Some 7)]\<rparr>"
  let ?s2 = "?s1\<lparr>m_queuelocker := \<lparr>m_mutex = Some 1\<rparr>, threads := [Test, ACheck (Some 7)]\<rparr>"
  let ?s3 = "?s2\<lparr>threads := [Test, APush (Some 7)]\<rparr>"
  have "pool_step sample_pool (Called 1 (Some 7)) (Some (goto 1 (ALock (Some 7)) sample_pool))"
    by (rule pool_step.call) (simp_all add: sample_pool_def is_worker_def)
  then show "pool_step sample_pool (Called 1 (Some 7)) (Some ?s1)"
    by (simp add: goto_def sample_pool_def)
  note eval = thread_step_def is_worker_def sample_pool_def lock_goto_def lock_def goto_def new_locker_def
  have "pool_step ?s1 (Tau 1) (Some ?s2)"
    by (rule pool_step.thread [where t = 1]) (simp add: eval)
  moreover have "pool_step ?s2 (Tau 1) (Some ?s3)"
    by (rule pool_step.thread [where t = 1]) (simp add: eval)
  moreover have "pool_step ?s3 (Accepted 1 (Some 7)) (Some pushed_pool)"
    by (rule pool_step.thread [where t = 1]) (simp add: eval pushed_pool_def)
  ultimately show "run pool_step ?s1 [Tau 1, Tau 1, Accepted 1 (Some 7)] (Some pushed_pool)"
    by (intro run_Cons [of pool_step ?s1 _ ?s2] run_Cons [of pool_step ?s2 _ ?s3] run_single)
qed

text \<open>The destructor runs before the worker has read m\_stop: its members are gone at the worker's first statement.\<close>

lemma destroyed_run:
  "run pool_step sample_pool [Stopped, Destroyed] (Some (sample_pool\<lparr>m_stop := True, alive := False\<rparr>))"
proof (rule run_Cons)
  show "pool_step sample_pool Stopped (Some (sample_pool\<lparr>m_stop := True\<rparr>))"
    by (rule pool_step.stop) (simp add: sample_pool_def)
  have "pool_step (sample_pool\<lparr>m_stop := True\<rparr>) Destroyed (Some (sample_pool\<lparr>m_stop := True, alive := False\<rparr>))"
    by (rule pool_step.destroy)
      (simp_all add: sample_pool_def destroy_pool_def destroy_locker_def new_locker_def)
  then show "run pool_step (sample_pool\<lparr>m_stop := True\<rparr>) [Destroyed] (Some (sample_pool\<lparr>m_stop := True, alive := False\<rparr>))"
    by (rule run_single)
qed

lemma pool_safety_witness:
  "int (length (m_workqueue pushed_pool)) \<le> m_max_requests pushed_pool + 1 \<and>
   thread_step 0 (sample_pool\<lparr>m_stop := True, alive := False\<rparr>) = Some (Inl UseAfterFree)"
  using pool_safety [OF sample_pool_construct _ sample_run] pool_safety [OF sample_pool_construct _ destroyed_run]
  by (simp add: SEM_VALUE_MAX_def sample_pool_def)

text \<open>
  C9. Requests are served in the order in which append accepted them: at every moment the accepted
  requests are those the workers took, in order, followed by the queue; and every non-null request
  taken has been processed exactly once or is in the hands of exactly one worker.
\<close>

theorem pool_fifo_once:
  assumes "construct n m junk callers = Inr (Some s0)" and "run pool_step s0 evs (Some s)"
  shows "accepted evs = took evs @ m_workqueue s \<and>
    mset (proper (took evs)) = mset (processed evs) + hands s"
  using pool_events.run_rel [OF assms(2)] construct_start [OF assms(1)]
  by (simp add: pool_trace_def)

lemma pool_fifo_once_witness:
  "accepted [Called 1 (Some 7), Tau 1, Tau 1, Accepted 1 (Some 7)] =
   took [Called 1 (Some (7 :: nat)), Tau 1, Tau 1, Accepted 1 (Some 7)] @ m_workqueue pushed_pool"
  using pool_fifo_once [OF sample_pool_construct sample_run] by blast

text \<open>
  C34. No wakeup is lost: as long as the destructor has not run, whenever a request is in the queue some
  thread can take a step, whatever the interleaving before.
\<close>

theorem pool_no_lost_wakeup:
  assumes "construct n m (Some junk) callers = Inr (Some s0)" and "junk < int SEM_VALUE_MAX"
    and "run pool_step s0 evs (Some s)" and "Stopped \<notin> set evs" and "m_workqueue s \<noteq> []"
  shows "\<exists>t ev s'. thread_step t s = Some (Inr (ev, s'))"
proof -
  have "\<not> m_stop s0" using construct_start(3) [OF assms(1)] by (simp add: running_def)
  with pool_run_alive [OF assms(3)] assms(4) have "Destroyed \<notin> set evs" by blast
  then have "pool_inv s"
    using pool_safe.run_safe [OF assms(3) pool_inv_construct [OF assms(1,2)]] by auto
  moreover have "running s"
    using pool_run_running [OF assms(3) construct_start(3) [OF assms(1)] assms(4)] .
  ultimately show ?thesis using assms(5) by (rule work_progresses)
qed

lemma pool_no_lost_wakeup_witness: "\<exists>t ev s'. thread_step t pushed_pool = Some (Inr (ev, s'))"
  using pool_no_lost_wakeup [OF sample_pool_construct _ sample_run]
  by (simp add: SEM_VALUE_MAX_def pushed_pool_def)

text \<open>
  The constructor's second parameter has no effect: whether the constructor is undefined, whether it throws and the
  bound of the queue depend on the indeterminate value the member held before.
\<close>

theorem max_requests_ignored:
  "construct n m junk callers = construct n m' junk callers \<and> construct n m None callers = Inl UninitRead \<and>
   (\<forall>s. construct n m junk callers = Inr (Some s) \<longrightarrow> junk = Some (m_max_requests s))"
  by (auto simp: construct_def split: option.splits if_splits)

lemma max_requests_ignored_witness: "Some (m_max_requests sample_pool) = Some 1000"
  using max_requests_ignored [of 1 5 "Some 1000" 1 6] sample_pool_construct by metis

text \<open>
  The destructor does not end the workers: once every worker waits on an empty semaphore and no
  caller is active, setting m\_stop enables no thread; the flag is only read before the next wait.
\<close>

theorem stop_not_seen:
  assumes "\<forall>t < length (threads s). threads s ! t = (if is_worker s t then Wait else Idle)"
    and "m_sem (m_queuestat s) = 0" and "pool_step s Stopped (Some s')"
  shows "\<forall>t. thread_step t s' = None"
proof -
  have s': "alive s \<and> s' = s\<lparr>m_stop := True\<rparr>"
    using assms(3)
  proof (cases rule: pool_step.cases)
    case (thread t)
    then show ?thesis
      by (cases "threads s ! t")
        (auto simp: thread_step_def unlock_goto_def lock_goto_def unlock_def lock_def sem_wait_def sem_post_def
          Let_def split: if_splits list.splits option.splits)
  qed auto
  show ?thesis
    using assms(1,2) s' by (auto simp: thread_step_def is_worker_def sem_wait_def)
qed

lemma stop_not_seen_witness: "thread_step 0 (sample_pool\<lparr>threads := [Wait, Idle], m_stop := True\<rparr>) = None"
proof -
  let ?s = "sample_pool\<lparr>threads := [Wait, Idle]\<rparr>"
  have "pool_step ?s Stopped (Some (?s\<lparr>m_stop := True\<rparr>))"
    by (rule pool_step.stop) (simp add: sample_pool_def)
  moreover have "\<forall>t < length (threads ?s). threads ?s ! t = (if is_worker ?s t then Wait else Idle)"
    by (auto simp: sample_pool_def is_worker_def less_Suc_eq)
  ultimately show ?thesis
    using stop_not_seen [of ?s "?s\<lparr>m_stop := True\<rparr>"] by (simp add: sample_pool_def new_sem_def)
qed

section \<open>Failures of the constructor\<close>

lemma create_threads_None: "create_threads i as = None \<longleftrightarrow> (\<forall>a \<in> set as. a = Created)"
  by (induction i as rule: create_threads.induct) (auto split: create_answer.splits)

lemma create_threads_Some:
  "create_threads i as = Some k \<Longrightarrow> \<exists>m < length as. as ! m \<noteq> Created \<and> (\<forall>j < m. as ! j = Created) \<and>
     k = i + m + (if as ! m = Detach_failed then 1 else 0)"
proof (induction as arbitrary: i)
  case (Cons a as)
  show ?case
  proof (cases "a = Created")
    case True
    with Cons.prems obtain m where m: "m < length as" "as ! m \<noteq> Created" "\<forall>j < m. as ! j = Created"
      "k = Suc i + m + (if as ! m = Detach_failed then 1 else 0)"
      using Cons.IH [of "i + 1"] by auto
    have "\<forall>j < Suc m. (a # as) ! j = Created" using m(3) True by (simp add: All_less_Suc2)
    with m show ?thesis by (intro exI [of _ "Suc m"]) simp
  next
    case False
    with Cons.prems show ?thesis by (intro exI [of _ 0]) (cases a; simp)
  qed
qed simp

text \<open>
  The constructor succeeds exactly when its guards do and every thread was created and detached; otherwise the
  threads created before the first failure, and that thread itself when only detaching it failed, are left to run.
\<close>

lemma construct_with_outcome:
  assumes "0 < thread_number" "0 < junk"
  shows "case (construct_with answers thread_number max_requests (Some junk) callers :: 'r construction) of
      Misread u \<Rightarrow> False
    | Constructed p \<Rightarrow> construct thread_number max_requests (Some junk) callers = Inr (Some p) \<and>
        (\<forall>a \<in> set (take (nat thread_number) answers). a = Created)
    | Thrown k \<Rightarrow> \<exists>m < nat thread_number. m < length answers \<and> answers ! m \<noteq> Created \<and> (\<forall>j < m. answers ! j = Created) \<and>
        k = m + (if answers ! m = Detach_failed then 1 else 0)"
proof -
  obtain p :: "'r threadpool" where p: "construct thread_number max_requests (Some junk) callers = Inr (Some p)"
    using assms by (simp add: construct_def)
  show ?thesis
  proof (cases "create_threads 0 (take (nat thread_number) answers)")
    case None
    with create_threads_None [of 0 "take (nat thread_number) answers"]
    have "\<forall>a \<in> set (take (nat thread_number) answers). a = Created" by blast
    with None show ?thesis unfolding construct_with_def p by simp
  next
    case (Some k)
    from create_threads_Some [OF this] obtain m where "m < nat thread_number" "m < length answers" "answers ! m \<noteq> Created"
      "\<forall>j < m. answers ! j = Created" "k = m + (if answers ! m = Detach_failed then 1 else 0)" by auto
    then show ?thesis by (auto simp: construct_with_def p Some)
  qed
qed

end
