(* ===== verification/Cond_Var.thy ===== *)
theory Cond_Var
  imports Locker Transitions
begin

text \<open>
  Threads that wait on and signal one object of the class cond of \<^verbatim>\<open>src/src/include/locker.h\<close>, in any
  interleaving. The object locks its mutex inside wait and signal does not take it, so that a thread can
  only be woken by a signal that comes while it is blocked, or spuriously, as POSIX allows.
\<close>

section \<open>The model\<close>

record cond_system =
  cv :: cond
  points :: "wait_point list"

datatype cond_label = Calls nat | Moves nat | Wakes nat | Signals | Spurious nat

inductive cond_step :: "cond_system \<Rightarrow> cond_label \<Rightarrow> cond_system option \<Rightarrow> bool" where
  calls: "t < length (points s) \<Longrightarrow> points s ! t = Wait_done b \<Longrightarrow>
    cond_step s (Calls t) (Some (s\<lparr>points := (points s)[t := Wait_begin]\<rparr>))"
| moves: "t < length (points s) \<Longrightarrow> points s ! t \<noteq> Wait_blocked \<Longrightarrow> cond_wait_step t (points s ! t) (cv s) = Some (Inr (p, c)) \<Longrightarrow>
    cond_step s (Moves t) (Some (s\<lparr>cv := c, points := (points s)[t := p]\<rparr>))"
| wakes: "t < length (points s) \<Longrightarrow> points s ! t = Wait_blocked \<Longrightarrow> cond_wait_step t Wait_blocked (cv s) = Some (Inr (p, c)) \<Longrightarrow>
    cond_step s (Wakes t) (Some (s\<lparr>cv := c, points := (points s)[t := p]\<rparr>))"
| undefined: "t < length (points s) \<Longrightarrow> cond_wait_step t (points s ! t) (cv s) = Some (Inl u) \<Longrightarrow> cond_step s (Moves t) None"
| signals: "cond_step s Signals (Some (s\<lparr>cv := snd (cond_signal (cv s))\<rparr>))"
| spurious: "t \<in> set (waiters (cv s)) \<Longrightarrow>
    cond_step s (Spurious t) (Some (s\<lparr>cv := (cv s)\<lparr>waiters := remove1 t (waiters (cv s))\<rparr>\<rparr>))"

inductive_cases cond_stepE: "cond_step s l r"

definition cond_start :: "nat \<Rightarrow> cond_system" where
  "cond_start n = \<lparr>cv = new_cond, points = replicate n Wait_begin\<rparr>"

section \<open>The invariant\<close>

definition inside :: "wait_point \<Rightarrow> bool" where
  "inside p \<longleftrightarrow> p = Wait_call \<or> (\<exists>ret. p = Wait_unlock ret)"

text \<open>The threads that were woken and have not gone on.\<close>

definition woken :: "cond_system \<Rightarrow> nat set" where
  "woken s = {t. t < length (points s) \<and> points s ! t = Wait_blocked \<and> t \<notin> set (waiters (cv s))}"

definition cond_inv :: "cond_system \<Rightarrow> bool" where
  "cond_inv s \<longleftrightarrow> (\<forall>t < length (points s). inside (points s ! t) \<longleftrightarrow> m_mutex (c_mutex (cv s)) = Some t) \<and>
     distinct (waiters (cv s)) \<and> (\<forall>t \<in> set (waiters (cv s)). t < length (points s) \<and> points s ! t = Wait_blocked)"

lemma finite_woken [simp]: "finite (woken s)"
  by (rule finite_subset [of _ "{..<length (points s)}"]) (auto simp: woken_def)

lemma woken_same:
  assumes "t < length (points s)" "points s ! t \<noteq> Wait_blocked" "p \<noteq> Wait_blocked" "waiters c = waiters (cv s)"
  shows "woken (s\<lparr>cv := c, points := (points s)[t := p]\<rparr>) = woken s"
  using assms by (auto simp: woken_def nth_list_update)

lemma cond_move:
  assumes inv: "cond_inv s" and t: "t < length (points s)" "points s ! t \<noteq> Wait_blocked"
    and st: "cond_wait_step t (points s ! t) (cv s) = Some r"
  shows "\<exists>p c. r = Inr (p, c) \<and> cond_inv (s\<lparr>cv := c, points := (points s)[t := p]\<rparr>) \<and>
    woken (s\<lparr>cv := c, points := (points s)[t := p]\<rparr>) = woken s"
proof -
  have hold: "\<forall>i < length (points s). inside (points s ! i) \<longleftrightarrow> m_mutex (c_mutex (cv s)) = Some i"
    and ws: "distinct (waiters (cv s))" "\<forall>i \<in> set (waiters (cv s)). i < length (points s) \<and> points s ! i = Wait_blocked"
    using inv by (simp_all add: cond_inv_def)
  have nw: "t \<notin> set (waiters (cv s))" using ws t by auto
  have own: "inside (points s ! t) \<longleftrightarrow> m_mutex (c_mutex (cv s)) = Some t" using hold t by blast
  have inv_of: "cond_inv (s\<lparr>cv := c, points := (points s)[t := p]\<rparr>)"
    if "m_mutex (c_mutex c) = (if inside p then Some t else None)" "waiters c = waiters (cv s) @ (if p = Wait_blocked then [t] else [])"
      "m_mutex (c_mutex (cv s)) \<in> {None, Some t}" for p c
    using that hold ws nw t(1) unfolding cond_inv_def by (auto simp: nth_list_update)
  show ?thesis
  proof (cases "points s ! t")
    case Wait_begin
    then have f: "m_mutex (c_mutex (cv s)) = None" and r: "r = Inr (Wait_call, (cv s)\<lparr>c_mutex := (c_mutex (cv s))\<lparr>m_mutex := Some t\<rparr>\<rparr>)"
      using st by (auto simp: cond_wait_step_def lock_def split: if_splits)
    from inv_of [of "(cv s)\<lparr>c_mutex := (c_mutex (cv s))\<lparr>m_mutex := Some t\<rparr>\<rparr>" Wait_call] f r woken_same [OF t, of Wait_call]
    show ?thesis by (simp add: inside_def)
  next
    case Wait_call
    then have o1: "m_mutex (c_mutex (cv s)) = Some t" using own by (simp add: inside_def)
    define c where "c = (cv s)\<lparr>c_mutex := (c_mutex (cv s))\<lparr>m_mutex := None\<rparr>, waiters := waiters (cv s) @ [t]\<rparr>"
    have r: "r = Inr (Wait_blocked, c)" using st Wait_call o1 by (simp add: cond_wait_step_def unlock_def c_def)
    have "woken (s\<lparr>cv := c, points := (points s)[t := Wait_blocked]\<rparr>) = woken s"
      using t by (auto simp: woken_def c_def nth_list_update)
    with inv_of [of c Wait_blocked] o1 r show ?thesis by (simp add: inside_def c_def)
  next
    case (Wait_relock ret)
    then have f: "m_mutex (c_mutex (cv s)) = None" and r: "r = Inr (Wait_unlock ret, (cv s)\<lparr>c_mutex := (c_mutex (cv s))\<lparr>m_mutex := Some t\<rparr>\<rparr>)"
      using st by (auto simp: cond_wait_step_def lock_def split: if_splits)
    from inv_of [of "(cv s)\<lparr>c_mutex := (c_mutex (cv s))\<lparr>m_mutex := Some t\<rparr>\<rparr>" "Wait_unlock ret"] f r woken_same [OF t, of "Wait_unlock ret"]
    show ?thesis by (simp add: inside_def)
  next
    case (Wait_unlock ret)
    then have o1: "m_mutex (c_mutex (cv s)) = Some t" using own by (simp add: inside_def)
    then have r: "r = Inr (Wait_done (ret = 0), (cv s)\<lparr>c_mutex := (c_mutex (cv s))\<lparr>m_mutex := None\<rparr>\<rparr>)"
      using st Wait_unlock by (simp add: cond_wait_step_def unlock_def)
    from inv_of [of "(cv s)\<lparr>c_mutex := (c_mutex (cv s))\<lparr>m_mutex := None\<rparr>\<rparr>" "Wait_done (ret = 0)"] o1 r woken_same [OF t, of "Wait_done (ret = 0)"]
    show ?thesis by (simp add: inside_def)
  qed (use t st in \<open>simp_all add: cond_wait_step_def\<close>)
qed

text \<open>The steps of a trace in which a blocked thread goes on.\<close>

definition wakes :: "cond_label list \<Rightarrow> nat" where
  "wakes ls = length (filter (\<lambda>l. case l of Wakes t \<Rightarrow> True | _ \<Rightarrow> False) ls)"

text \<open>Those at which a blocked thread is woken, by a signal or spuriously.\<close>

definition wakeups :: "cond_label list \<Rightarrow> nat" where
  "wakeups ls = length (filter (\<lambda>l. case l of Signals \<Rightarrow> True | Spurious t \<Rightarrow> True | _ \<Rightarrow> False) ls)"

lemma wakes_snoc:
  "wakes (ls @ [l]) = wakes ls + (case l of Wakes t \<Rightarrow> 1 | _ \<Rightarrow> 0)"
  "wakeups (ls @ [l]) = wakeups ls + (case l of Signals \<Rightarrow> 1 | Spurious t \<Rightarrow> 1 | _ \<Rightarrow> 0)"
  by (simp_all add: wakes_def wakeups_def split: cond_label.splits)

lemma cond_step_outcome:
  assumes st: "cond_step s l r" and inv: "cond_inv s"
  shows "\<exists>s'. r = Some s' \<and> cond_inv s' \<and> length (points s') = length (points s) \<and>
    card (woken s') + (case l of Wakes t \<Rightarrow> 1 | _ \<Rightarrow> 0) \<le> card (woken s) + (case l of Signals \<Rightarrow> 1 | Spurious t \<Rightarrow> 1 | _ \<Rightarrow> 0)"
  using st
proof cases
  case (calls t b)
  have "cond_inv (s\<lparr>points := (points s)[t := Wait_begin]\<rparr>)"
    using inv calls by (auto simp: cond_inv_def nth_list_update inside_def)
  moreover have "woken (s\<lparr>points := (points s)[t := Wait_begin]\<rparr>) = woken s"
    using calls by (auto simp: woken_def nth_list_update)
  ultimately show ?thesis using calls by simp
next
  case (moves t p c)
  with cond_move [OF inv moves(3,4,5)] show ?thesis by auto
next
  case (wakes t p c)
  then have pc: "p = Wait_relock 0" "c = cv s" and nw: "t \<notin> set (waiters (cv s))"
    by (auto simp: cond_wait_step_def split: if_splits)
  let ?s = "s\<lparr>points := (points s)[t := Wait_relock 0]\<rparr>"
  have "cond_inv ?s" using inv wakes nw by (auto simp: cond_inv_def nth_list_update inside_def)
  moreover have "woken ?s = woken s - {t}" using wakes by (auto simp: woken_def nth_list_update)
  moreover have "t \<in> woken s" using wakes nw by (simp add: woken_def)
  then have "Suc (card (woken s - {t})) = card (woken s)" by (simp add: card_Suc_Diff1 del: card_Diff_insert)
  ultimately show ?thesis using wakes pc by simp
next
  case (undefined t u)
  show ?thesis
  proof (cases "points s ! t = Wait_blocked")
    case True
    with undefined show ?thesis by (simp add: cond_wait_step_def split: if_splits)
  next
    case False
    with cond_move [OF inv undefined(3) False undefined(4)] show ?thesis by simp
  qed
next
  case signals
  let ?s = "s\<lparr>cv := (cv s)\<lparr>waiters := tl (waiters (cv s))\<rparr>\<rparr>"
  have "set (tl (waiters (cv s))) \<subseteq> set (waiters (cv s))" by (cases "waiters (cv s)") auto
  then have "cond_inv ?s" using inv by (auto simp: cond_inv_def distinct_tl)
  moreover have "woken ?s \<subseteq> insert (hd (waiters (cv s))) (woken s)"
    by (cases "waiters (cv s)") (auto simp: woken_def)
  then have "card (woken ?s) \<le> Suc (card (woken s))"
    using card_mono [of "insert (hd (waiters (cv s))) (woken s)" "woken ?s"] by (simp add: card_insert_if split: if_splits)
  ultimately show ?thesis using signals by (simp add: cond_signal_def)
next
  case (spurious t)
  let ?s = "s\<lparr>cv := (cv s)\<lparr>waiters := remove1 t (waiters (cv s))\<rparr>\<rparr>"
  have "cond_inv ?s" using inv by (auto simp: cond_inv_def)
  moreover have "woken ?s \<subseteq> insert t (woken s)" using inv by (auto simp: woken_def cond_inv_def)
  then have "card (woken ?s) \<le> Suc (card (woken s))"
    using card_mono [of "insert t (woken s)" "woken ?s"] by (simp add: card_insert_if split: if_splits)
  ultimately show ?thesis using spurious by simp
qed

interpretation cond_runs: safe_system cond_step cond_inv "\<lambda>_. True"
  by unfold_locales (use cond_step_outcome in blast)

definition cond_trace :: "cond_system \<Rightarrow> cond_label list \<Rightarrow> cond_system \<Rightarrow> bool" where
  "cond_trace s ls s' \<longleftrightarrow> (cond_inv s \<and> woken s = {} \<longrightarrow> cond_inv s' \<and> wakes ls + card (woken s') \<le> wakeups ls)"

interpretation cond_counts: traced_system cond_step cond_trace
proof unfold_locales
  show "cond_trace s [] s" for s by (simp add: cond_trace_def wakes_def)
next
  fix s ls s1 l s2
  assume "cond_trace s ls s1" and "cond_step s1 l (Some s2)"
  then show "cond_trace s (ls @ [l]) s2" using cond_step_outcome [of s1 l "Some s2"]
    by (fastforce simp: cond_trace_def wakes_snoc split: cond_label.splits)
qed

section \<open>Properties\<close>

text \<open>C32. Any number of threads that wait on one condition variable while others signal it: no interleaving unlocks a
  mutex its thread does not hold, at most one thread is between a lock and its unlock, and a wait goes on
  only for a wakeup of its own, so that there are never more of them than signals and spurious wakeups.\<close>

theorem cond_waits_signalled:
  assumes "run cond_step (cond_start n) ls r"
  shows "\<exists>s. r = Some s \<and> wakes ls \<le> wakeups ls \<and>
    (\<forall>i < length (points s). \<forall>j < length (points s). inside (points s ! i) \<and> inside (points s ! j) \<longrightarrow> i = j)"
proof -
  have inv: "cond_inv (cond_start n)" and w: "woken (cond_start n) = {}"
    by (auto simp: cond_inv_def cond_start_def new_cond_def new_locker_def inside_def woken_def)
  from cond_runs.run_safe [OF assms inv] obtain s where r: "r = Some s" and s: "cond_inv s" by auto
  from cond_counts.run_rel [OF assms [unfolded r]] inv w have "wakes ls + card (woken s) \<le> wakeups ls"
    by (simp add: cond_trace_def)
  with r s show ?thesis by (auto simp: cond_inv_def)
qed

text \<open>One thread waits and is signalled; a signal that comes before it blocks does not count.\<close>

lemma cond_waits_signalled_witness:
  "\<exists>s. run cond_step (cond_start 1) [Signals, Moves 0, Moves 0, Signals, Wakes 0] (Some s) \<and>
     wakes [Signals, Moves 0, Moves 0, Signals, Wakes 0] = 1 \<and>
     wakeups [Signals, Moves 0, Moves 0, Signals, Wakes 0] = 2"
proof -
  let ?c = "\<lambda>m ws. \<lparr>c_mutex = \<lparr>m_mutex = m\<rparr>, waiters = ws\<rparr>"
  let ?s = "\<lambda>m ws p. \<lparr>cv = ?c m ws, points = [p]\<rparr>"
  have "cond_step (cond_start 1) Signals (Some (?s None [] Wait_begin))"
    using cond_step.signals [of "cond_start 1"] by (simp add: cond_start_def new_cond_def new_locker_def cond_signal_def)
  moreover have "cond_step (?s None [] Wait_begin) (Moves 0) (Some (?s (Some 0) [] Wait_call))"
    using cond_step.moves [of 0 "?s None [] Wait_begin"] by (simp add: cond_wait_step_def lock_def)
  moreover have "cond_step (?s (Some 0) [] Wait_call) (Moves 0) (Some (?s None [0] Wait_blocked))"
    using cond_step.moves [of 0 "?s (Some 0) [] Wait_call"] by (simp add: cond_wait_step_def unlock_def)
  moreover have "cond_step (?s None [0] Wait_blocked) Signals (Some (?s None [] Wait_blocked))"
    using cond_step.signals [of "?s None [0] Wait_blocked"] by (simp add: cond_signal_def)
  moreover have "cond_step (?s None [] Wait_blocked) (Wakes 0) (Some (?s None [] (Wait_relock 0)))"
    using cond_step.wakes [of 0 "?s None [] Wait_blocked"] by (simp add: cond_wait_step_def)
  ultimately have r: "run cond_step (cond_start 1) [Signals, Moves 0, Moves 0, Signals, Wakes 0] (Some (?s None [] (Wait_relock 0)))"
    by (meson run_Cons run_single)
  from cond_waits_signalled [OF r] r show ?thesis by (auto simp: wakes_def wakeups_def)
qed

end
