(* ===== verification/Linked_Lists.thy ===== *)
theory Linked_Lists
  imports Prelude
begin

text \<open>
  Heap objects linked by two pointers, as the list timer and the time wheel use them: loads, stores
  and deletes through pointers, the segment predicate that says which objects a chain of next
  pointers visits and that the prev pointers mirror it, and the locale of the node types, which
  proves the effect of every pointer manipulation of the two timers once.
\<close>

section \<open>The heap\<close>

type_synonym ptr = "nat option"
type_synonym 'n heap = "nat \<rightharpoonup> 'n"

definition load :: "'n heap \<Rightarrow> ptr \<Rightarrow> 'n res" where
  "load h p = (case p of None \<Rightarrow> Inl NullDeref
    | Some a \<Rightarrow> (case h a of None \<Rightarrow> Inl UseAfterFree | Some n \<Rightarrow> Inr n))"

definition store :: "'n heap \<Rightarrow> ptr \<Rightarrow> ('n \<Rightarrow> 'n) \<Rightarrow> 'n heap res" where
  "store h p f = (case p of None \<Rightarrow> Inl NullDeref
    | Some a \<Rightarrow> (case h a of None \<Rightarrow> Inl UseAfterFree | Some n \<Rightarrow> Inr (h(a \<mapsto> f n))))"

text \<open>delete on a null pointer does nothing; on a dangling one it is undefined.\<close>

definition free :: "'n heap \<Rightarrow> ptr \<Rightarrow> 'n heap res" where
  "free h p = (case p of None \<Rightarrow> Inr h
    | Some a \<Rightarrow> (case h a of None \<Rightarrow> Inl UseAfterFree | Some _ \<Rightarrow> Inr (h(a := None))))"

lemma load_simps [simp]:
  "load h None = Inl NullDeref"
  "h a = Some n \<Longrightarrow> load h (Some a) = Inr n"
  "h a = None \<Longrightarrow> load h (Some a) = Inl UseAfterFree"
  by (simp_all add: load_def)

lemma store_simps [simp]:
  "store h None f = Inl NullDeref"
  "h a = Some n \<Longrightarrow> store h (Some a) f = Inr (h(a \<mapsto> f n))"
  "h a = None \<Longrightarrow> store h (Some a) f = Inl UseAfterFree"
  by (simp_all add: store_def)

lemma free_simps [simp]:
  "free h None = Inr h"
  "h a = Some n \<Longrightarrow> free h (Some a) = Inr (h(a := None))"
  "h a = None \<Longrightarrow> free h (Some a) = Inl UseAfterFree"
  by (simp_all add: free_def)

section \<open>Segments\<close>

definition first_or :: "nat list \<Rightarrow> ptr \<Rightarrow> ptr" where
  "first_or xs n = (case xs of [] \<Rightarrow> n | x # _ \<Rightarrow> Some x)"

definition last_or :: "ptr \<Rightarrow> nat list \<Rightarrow> ptr" where
  "last_or p xs = (if xs = [] then p else Some (last xs))"

lemma first_or_simps [simp]:
  "first_or [] n = n" "first_or (x # xs) n = Some x"
  "first_or (xs @ ys) n = first_or xs (first_or ys n)"
  by (auto simp: first_or_def split: list.splits)

lemma last_or_simps [simp]:
  "last_or p [] = p" "last_or p (x # xs) = last_or (Some x) xs" "last_or p (xs @ [x]) = Some x"
  "last_or p (xs @ ys) = last_or (last_or p xs) ys"
  by (auto simp: last_or_def)

lemma first_or_None [simp]: "first_or xs None = None \<longleftrightarrow> xs = []"
  by (cases xs) auto

text \<open>
  The objects of xs are linked in order: the first one's prev is p, the last one's next is n.
\<close>

fun dseg :: "('n \<Rightarrow> ptr) \<Rightarrow> ('n \<Rightarrow> ptr) \<Rightarrow> 'n heap \<Rightarrow> ptr \<Rightarrow> nat list \<Rightarrow> ptr \<Rightarrow> bool" where
  "dseg nx pv h p [] n \<longleftrightarrow> True"
| "dseg nx pv h p (x # xs) n \<longleftrightarrow>
     (case h x of None \<Rightarrow> False
      | Some t \<Rightarrow> pv t = p \<and> nx t = first_or xs n \<and> dseg nx pv h (Some x) xs n)"

lemma dseg_append [simp]:
  "dseg nx pv h p (xs @ ys) n \<longleftrightarrow>
     dseg nx pv h p xs (first_or ys n) \<and> dseg nx pv h (last_or p xs) ys n"
  by (induction xs arbitrary: p) (auto split: option.splits)

lemma dseg_allocated: "dseg nx pv h p xs n \<Longrightarrow> x \<in> set xs \<Longrightarrow> \<exists>t. h x = Some t"
  by (induction xs arbitrary: p) (auto split: option.splits)

lemma dseg_cong: "(\<And>x. x \<in> set xs \<Longrightarrow> h x = h' x) \<Longrightarrow> dseg nx pv h p xs n = dseg nx pv h' p xs n"
  by (induction xs arbitrary: p) (auto split: option.splits)

lemma dseg_upd_other [simp]: "a \<notin> set xs \<Longrightarrow> dseg nx pv (h(a := v)) p xs n = dseg nx pv h p xs n"
  by (rule dseg_cong) auto

section \<open>Node types\<close>

text \<open>What the pointer manipulations rely on: the two link fields are independent.\<close>

locale link_node =
  fixes nx :: "'n \<Rightarrow> ptr" and pv :: "'n \<Rightarrow> ptr"
    and set_nx :: "ptr \<Rightarrow> 'n \<Rightarrow> 'n" and set_pv :: "ptr \<Rightarrow> 'n \<Rightarrow> 'n"
  assumes nx_set_nx [simp]: "nx (set_nx q t) = q" and pv_set_nx [simp]: "pv (set_nx q t) = pv t"
    and nx_set_pv [simp]: "nx (set_pv q t) = nx t" and pv_set_pv [simp]: "pv (set_pv q t) = q"
begin

lemma set_first_prev:
  assumes "dseg nx pv h p (x # xs) n" and "x \<notin> set xs" and "h x = Some t"
  shows "dseg nx pv (h(x \<mapsto> set_pv q t)) q (x # xs) n"
  using assms by simp

lemma set_last_next:
  assumes "dseg nx pv h p (xs @ [x]) n" and "x \<notin> set xs" and "h x = Some t"
  shows "dseg nx pv (h(x \<mapsto> set_nx m t)) p (xs @ [x]) m"
  using assms by simp

text \<open>A change that keeps both links of an object keeps every segment.\<close>

lemma dseg_same_links:
  assumes "h x = Some t" and "nx t' = nx t" and "pv t' = pv t"
  shows "dseg nx pv (h(x \<mapsto> t')) p xs n = dseg nx pv h p xs n"
  using assms by (induction xs arbitrary: p) (auto split: option.splits)

lemma link_at_front:
  assumes "dseg nx pv h p (y # ys) n" and "x \<notin> set (y # ys)" and "y \<notin> set ys" and "h y = Some ty"
    and "nx tx = Some y" and "pv tx = p"
  shows "dseg nx pv (h(y \<mapsto> set_pv (Some x) ty, x \<mapsto> tx)) p (x # y # ys) n"
  using assms by simp

lemma link_between:
  assumes "dseg nx pv h p (xs @ [a] @ b # ys) n" and "distinct (xs @ [a] @ b # ys)"
    and "x \<notin> set (xs @ [a] @ b # ys)" and "h a = Some ta" and "h b = Some tb"
    and "nx tx = Some b" and "pv tx = Some a"
  shows "dseg nx pv (h(x \<mapsto> tx, a \<mapsto> set_nx (Some x) ta, b \<mapsto> set_pv (Some x) tb)) p (xs @ [a] @ x # b # ys) n"
  using assms by auto

lemma link_at_end:
  assumes "dseg nx pv h p (xs @ [a]) n" and "a \<notin> set xs" and "x \<notin> set (xs @ [a])" and "h a = Some ta"
    and "nx tx = m" and "pv tx = Some a"
  shows "dseg nx pv (h(a \<mapsto> set_nx (Some x) ta, x \<mapsto> tx)) p (xs @ [a, x]) m"
  using assms by auto

lemma unlink_first:
  assumes "dseg nx pv h p (x # y # ys) n" and "distinct (x # y # ys)" and "h y = Some ty"
  shows "dseg nx pv (h(y \<mapsto> set_pv q ty)) q (y # ys) n"
  using assms by (auto split: option.splits)

lemma unlink_last:
  assumes "dseg nx pv h p (xs @ [a, x]) n" and "distinct (xs @ [a, x])" and "h a = Some ta"
  shows "dseg nx pv (h(a \<mapsto> set_nx m ta)) p (xs @ [a]) m"
  using assms by auto

lemma unlink_between:
  assumes "dseg nx pv h p (xs @ [a] @ x # b # ys) n" and "distinct (xs @ [a] @ x # b # ys)"
    and "h a = Some ta" and "h b = Some tb"
  shows "dseg nx pv (h(a \<mapsto> set_nx (Some b) ta, b \<mapsto> set_pv (Some a) tb)) p (xs @ [a] @ b # ys) n"
  using assms by (auto split: option.splits)

end

end
