(* ===== verification/Time_Wheel.thy ===== *)
theory Time_Wheel
  imports Linked_Lists
begin

text \<open>
  The time wheel of \<^verbatim>\<open>src/src/include/time_wheel_timer.h\<close>: an array of N lists of timers, each with the
  number of full rotations it still has to wait. The detailed model manipulates the pointers as the
  code does; it refines a map from timers to the number of ticks left, which every tick decreases.
\<close>

section \<open>The model\<close>

definition TW_N :: int where "TW_N = 60"
definition TW_SI :: int where "TW_SI = 1"

record tw_timer =
  rotation :: int
  time_slot :: int
  w_cb :: nat
  w_data :: nat
  w_next :: ptr
  w_prev :: ptr

record time_wheel_timer =
  slots :: "ptr list"
  cur_slot :: int
  wheel :: "tw_timer heap"

definition new_wheel :: time_wheel_timer where
  "new_wheel = \<lparr>slots = replicate (nat TW_N) None, cur_slot = 0, wheel = Map.empty\<rparr>"

definition slot_at :: "int \<Rightarrow> time_wheel_timer \<Rightarrow> ptr res" where
  "slot_at i s = (if 0 \<le> i \<and> i < TW_N then Inr (slots s ! nat i) else Inl OutOfBounds)"

definition set_slot :: "int \<Rightarrow> ptr \<Rightarrow> time_wheel_timer \<Rightarrow> time_wheel_timer res" where
  "set_slot i p s = (if 0 \<le> i \<and> i < TW_N then Inr (s\<lparr>slots := (slots s)[nat i := p]\<rparr>) else Inl OutOfBounds)"

text \<open>
  add\_timer allocates the timer x. The caller then sets its callback and data, which new leaves
  indeterminate; here they are given with the call.
\<close>

definition tw_add_timer :: "nat \<Rightarrow> nat \<Rightarrow> nat \<Rightarrow> int \<Rightarrow> time_wheel_timer \<Rightarrow> (ptr \<times> time_wheel_timer) res" where
  "tw_add_timer x f d timeout s =
     (if timeout < 0 then Inr (None, s)
      else let offset = (if timeout div TW_SI = 0 then 1 else timeout div TW_SI); rot = offset div TW_N in
        bind_res (add_int (cur_slot s) offset) (\<lambda>sum.
        let slot_pos = sum mod TW_N;
            timer = \<lparr>rotation = rot, time_slot = slot_pos, w_cb = f, w_data = d, w_next = None, w_prev = None\<rparr>;
            h = (wheel s)(x \<mapsto> timer) in
        bind_res (slot_at slot_pos s) (\<lambda>old.
        if old = None then bind_res (set_slot slot_pos (Some x) (s\<lparr>wheel := h\<rparr>)) (\<lambda>s1. Inr (Some x, s1))
        else
          bind_res (store h (Some x) (\<lambda>t. t\<lparr>w_next := old\<rparr>)) (\<lambda>h1.
          bind_res (load h1 (Some x)) (\<lambda>t1.
          bind_res (store h1 (w_next t1) (\<lambda>n. n\<lparr>w_prev := Some x\<rparr>)) (\<lambda>h2.
          bind_res (set_slot slot_pos (Some x) (s\<lparr>wheel := h2\<rparr>)) (\<lambda>s1.
          Inr (Some x, s1))))))))"

text \<open>The statements del\_timer and tick share: a timer that is not the first of its slot is unlinked.\<close>

definition unlink_inner :: "nat \<Rightarrow> tw_timer heap \<Rightarrow> tw_timer heap res" where
  "unlink_inner x h =
     bind_res (load h (Some x)) (\<lambda>t.
     bind_res (store h (w_prev t) (\<lambda>n. n\<lparr>w_next := w_next t\<rparr>)) (\<lambda>h1.
     bind_res (load h1 (Some x)) (\<lambda>t1.
     if w_next t1 \<noteq> None then store h1 (w_next t1) (\<lambda>n. n\<lparr>w_prev := w_prev t1\<rparr>) else Inr h1)))"

definition tw_del_timer :: "ptr \<Rightarrow> time_wheel_timer \<Rightarrow> time_wheel_timer res" where
  "tw_del_timer timer s =
     (case timer of
        None \<Rightarrow> Inr s
      | Some x \<Rightarrow>
        bind_res (load (wheel s) timer) (\<lambda>t.
        let ts = time_slot t in
        bind_res (slot_at ts s) (\<lambda>first.
        if timer = first then
          bind_res (set_slot ts (w_next t) s) (\<lambda>s1.
          bind_res (if w_next t \<noteq> None then store (wheel s1) (w_next t) (\<lambda>n. n\<lparr>w_prev := None\<rparr>)
                    else Inr (wheel s1)) (\<lambda>h1.
          bind_res (free h1 timer) (\<lambda>h2. Inr (s1\<lparr>wheel := h2\<rparr>))))
        else
          bind_res (unlink_inner x (wheel s)) (\<lambda>h1.
          bind_res (free h1 timer) (\<lambda>h2. Inr (s\<lparr>wheel := h2\<rparr>))))))"

text \<open>The removal of a timer that fires in a tick, and where the loop goes on.\<close>

definition remove_fired :: "nat \<Rightarrow> time_wheel_timer \<Rightarrow> (ptr \<times> time_wheel_timer) res" where
  "remove_fired x s =
     bind_res (slot_at (cur_slot s) s) (\<lambda>first.
     if Some x = first then
       bind_res (load (wheel s) (Some x)) (\<lambda>t.
       bind_res (set_slot (cur_slot s) (w_next t) s) (\<lambda>s1.
       bind_res (free (wheel s1) (Some x)) (\<lambda>h1.
       bind_res (if w_next t \<noteq> None then store h1 (w_next t) (\<lambda>n. n\<lparr>w_prev := None\<rparr>) else Inr h1) (\<lambda>h2.
       Inr (w_next t, s1\<lparr>wheel := h2\<rparr>)))))
     else
       bind_res (unlink_inner x (wheel s)) (\<lambda>h1.
       bind_res (load h1 (Some x)) (\<lambda>t.
       bind_res (free h1 (Some x)) (\<lambda>h2.
       Inr (w_next t, s\<lparr>wheel := h2\<rparr>)))))"

partial_function (option) tw_tick_loop ::
  "(nat \<Rightarrow> nat \<Rightarrow> 'w \<Rightarrow> 'w) \<Rightarrow> ptr \<Rightarrow> time_wheel_timer \<Rightarrow> 'w \<Rightarrow> (time_wheel_timer \<times> 'w) res option" where
  "tw_tick_loop call tmp s w =
     (case tmp of
        None \<Rightarrow> Some (Inr (s, w))
      | Some x \<Rightarrow>
        (case load (wheel s) tmp of
           Inl e \<Rightarrow> Some (Inl e)
         | Inr t \<Rightarrow>
             if rotation t > 0 then
               (case store (wheel s) tmp (\<lambda>t. t\<lparr>rotation := rotation t - 1\<rparr>) of
                  Inl e \<Rightarrow> Some (Inl e)
                | Inr h \<Rightarrow> tw_tick_loop call (w_next t) (s\<lparr>wheel := h\<rparr>) w)
             else
               (case remove_fired x s of
                  Inl e \<Rightarrow> Some (Inl e)
                | Inr (tmp2, s1) \<Rightarrow> tw_tick_loop call tmp2 s1 (call (w_cb t) (w_data t) w))))"

declare tw_tick_loop.simps [code]

definition tw_tick ::
  "(nat \<Rightarrow> nat \<Rightarrow> 'w \<Rightarrow> 'w) \<Rightarrow> time_wheel_timer \<Rightarrow> 'w \<Rightarrow> (time_wheel_timer \<times> 'w) res option" where
  "tw_tick call s w =
     bind_run (Some (slot_at (cur_slot s) s)) (\<lambda>tmp.
     bind_run (tw_tick_loop call tmp s w) (\<lambda>(s1, w1).
     Some (Inr (s1\<lparr>cur_slot := (cur_slot s1 + 1) mod TW_N\<rparr>, w1))))"

text \<open>The destructor: the timers of every slot are freed from the front.\<close>

partial_function (option) tw_delete_slot :: "int \<Rightarrow> ptr \<Rightarrow> time_wheel_timer \<Rightarrow> time_wheel_timer res option" where
  "tw_delete_slot i tmp s =
     (case tmp of
        None \<Rightarrow> Some (Inr s)
      | Some x \<Rightarrow>
        (case bind_res (load (wheel s) tmp) (\<lambda>t.
              bind_res (set_slot i (w_next t) s) (\<lambda>s1.
              bind_res (free (wheel s1) tmp) (\<lambda>h.
              bind_res (slot_at i s1) (\<lambda>tmp1. Inr (tmp1, s1\<lparr>wheel := h\<rparr>))))) of
           Inl e \<Rightarrow> Some (Inl e)
         | Inr (tmp1, s1) \<Rightarrow> tw_delete_slot i tmp1 s1))"

declare tw_delete_slot.simps [code]

fun tw_delete_slots :: "int list \<Rightarrow> time_wheel_timer \<Rightarrow> time_wheel_timer res option" where
  "tw_delete_slots [] s = Some (Inr s)"
| "tw_delete_slots (i # is) s =
     bind_run (Some (slot_at i s)) (\<lambda>tmp. bind_run (tw_delete_slot i tmp s) (tw_delete_slots is))"

definition tw_delete :: "time_wheel_timer \<Rightarrow> time_wheel_timer res option" where
  "tw_delete s = tw_delete_slots [0..TW_N - 1] s"

section \<open>Chains of the wheel\<close>

interpretation tw: link_node w_next w_prev "\<lambda>q. w_next_update (\<lambda>_. q)" "\<lambda>q. w_prev_update (\<lambda>_. q)"
  by unfold_locales simp_all

abbreviation wchain :: "tw_timer heap \<Rightarrow> ptr \<Rightarrow> nat list \<Rightarrow> ptr \<Rightarrow> bool" where
  "wchain \<equiv> dseg w_next w_prev"

text \<open>What a change of links keeps.\<close>

definition core :: "tw_timer heap \<Rightarrow> nat \<Rightarrow> (int \<times> int \<times> nat \<times> nat) option" where
  "core h x = map_option (\<lambda>t. (rotation t, time_slot t, w_cb t, w_data t)) (h x)"

lemma core_links [simp]:
  "h a = Some t \<Longrightarrow> rotation t' = rotation t \<Longrightarrow> time_slot t' = time_slot t \<Longrightarrow> w_cb t' = w_cb t \<Longrightarrow>
   w_data t' = w_data t \<Longrightarrow> core (h(a \<mapsto> t')) = core h"
  by (rule ext) (simp add: core_def)

lemma core_free [simp]: "core (h(a := None)) = (core h)(a := None)"
  by (rule ext) (simp add: core_def)

definition same_outside :: "nat set \<Rightarrow> 'n heap \<Rightarrow> 'n heap \<Rightarrow> bool" where
  "same_outside A h h' \<longleftrightarrow> (\<forall>a. a \<notin> A \<longrightarrow> h' a = h a)"

lemma unlink_inner_correct:
  assumes "wchain h None (pre @ x # post) None" and "distinct (pre @ x # post)" and "pre \<noteq> []"
  shows "\<exists>h'. unlink_inner x h = Inr h' \<and> h' x = h x \<and> wchain (h'(x := None)) None (pre @ post) None \<and>
    core h' = core h \<and> same_outside (set (pre @ x # post)) h h'"
proof -
  obtain ys a where pre: "pre = ys @ [a]" using assms(3) by (cases pre rule: rev_cases) auto
  obtain tx where tx: "h x = Some tx" "w_next tx = first_or post None" "w_prev tx = Some a"
    using assms(1) pre by (auto split: option.splits)
  have "a \<in> set (pre @ x # post)" using pre by simp
  with assms(1) obtain ta where ta: "h a = Some ta" using dseg_allocated by blast
  have xa: "x \<noteq> a" using assms(2) pre by auto
  show ?thesis
  proof (cases post)
    case Nil
    let ?h = "h(a \<mapsto> ta\<lparr>w_next := None\<rparr>)"
    have "wchain ?h None (ys @ [a]) None"
      using tw.unlink_last [of h None ys a x None ta None] assms pre ta Nil by simp
    then have "wchain (?h(x := None)) None (ys @ [a]) None"
      using assms(2) pre by (subst dseg_upd_other) auto
    moreover have "unlink_inner x h = Inr ?h" using tx ta xa Nil by (simp add: unlink_inner_def)
    ultimately show ?thesis using pre Nil ta xa
      by (intro exI [of _ ?h]) (simp add: same_outside_def)
  next
    case (Cons b zs)
    have "b \<in> set (pre @ x # post)" using Cons by simp
    with assms(1) obtain tb where tb: "h b = Some tb" using dseg_allocated by blast
    have ne: "x \<noteq> b" "a \<noteq> b" using assms(2) pre Cons by auto
    let ?h = "h(a \<mapsto> ta\<lparr>w_next := Some b\<rparr>, b \<mapsto> tb\<lparr>w_prev := Some a\<rparr>)"
    have "wchain ?h None (ys @ [a] @ b # zs) None"
      using tw.unlink_between [of h None ys a x b zs None ta tb] assms pre ta tb Cons by simp
    then have "wchain (?h(x := None)) None (ys @ [a] @ b # zs) None"
      using assms(2) pre Cons by (subst dseg_upd_other) auto
    moreover have "unlink_inner x h = Inr ?h" using tx ta tb xa ne Cons by (simp add: unlink_inner_def)
    ultimately show ?thesis using pre Cons ta tb xa ne
      by (intro exI [of _ ?h]) (simp add: same_outside_def)
  qed
qed

lemma unlink_front_correct:
  assumes "wchain h None (x # post) None" and "distinct (x # post)" and "h x = Some t"
  shows "w_next t = first_or post None \<and>
    (\<exists>h'. (if w_next t \<noteq> None then store h (w_next t) (\<lambda>n. n\<lparr>w_prev := None\<rparr>) else Inr h) = Inr h' \<and>
       free h' (Some x) = Inr (h'(x := None)) \<and>
       (if w_next t \<noteq> None then store (h(x := None)) (w_next t) (\<lambda>n. n\<lparr>w_prev := None\<rparr>) else Inr (h(x := None))) =
         Inr (h'(x := None)) \<and>
       wchain (h'(x := None)) None post None \<and> core h' = core h \<and> same_outside (set (x # post)) h h')"
proof (cases post)
  case Nil
  with assms show ?thesis by (auto simp: same_outside_def)
next
  case (Cons b zs)
  obtain tb where tb: "h b = Some tb" using assms(1) Cons by (auto split: option.splits)
  have xb: "x \<noteq> b" using assms(2) Cons by auto
  let ?h = "h(b \<mapsto> tb\<lparr>w_prev := None\<rparr>)"
  have "wchain ?h None (b # zs) None"
    using tw.unlink_first [of h None x b zs None tb None] assms tb Cons by simp
  then have "wchain (?h(x := None)) None (b # zs) None"
    using assms(2) Cons by (subst dseg_upd_other) auto
  moreover have "w_next t = Some b" using assms(1,3) Cons by simp
  ultimately show ?thesis using assms(3) tb xb Cons
    by (auto simp: same_outside_def fun_upd_twist)
qed

section \<open>One pass over a slot\<close>

definition wfire :: "(nat \<Rightarrow> nat \<Rightarrow> 'w \<Rightarrow> 'w) \<Rightarrow> tw_timer heap \<Rightarrow> nat list \<Rightarrow> 'w \<Rightarrow> 'w" where
  "wfire call h xs w =
     foldl (\<lambda>w x. case core h x of Some (_, _, f, d) \<Rightarrow> call f d w | None \<Rightarrow> w) w xs"

definition rot :: "tw_timer heap \<Rightarrow> nat \<Rightarrow> int" where
  "rot h x = (case h x of Some t \<Rightarrow> rotation t | None \<Rightarrow> 0)"

text \<open>The cores after the pass: the timers of A freed, those of B with one rotation less.\<close>

definition core_pass :: "tw_timer heap \<Rightarrow> nat set \<Rightarrow> nat set \<Rightarrow> nat \<Rightarrow> (int \<times> int \<times> nat \<times> nat) option" where
  "core_pass h A B x = (if x \<in> A then None
     else if x \<in> B then map_option (\<lambda>(r, ts, f, d). (r - 1, ts, f, d)) (core h x) else core h x)"

lemma rot_core: "core h x = core h' x \<Longrightarrow> rot h x = rot h' x"
  by (auto simp: core_def rot_def split: option.splits)

lemma wfire_cong: "(\<And>x. x \<in> set xs \<Longrightarrow> core h x = core h' x) \<Longrightarrow> wfire call h xs w = wfire call h' xs w"
  by (induction xs arbitrary: w) (simp_all add: wfire_def)

lemma wfire_Cons: "h x = Some t \<Longrightarrow> wfire call h (x # xs) w = wfire call h xs (call (w_cb t) (w_data t) w)"
  by (simp add: wfire_def core_def)

text \<open>A slot whose list is split where the loop stands.\<close>

definition at_slot :: "time_wheel_timer \<Rightarrow> nat list \<Rightarrow> nat list \<Rightarrow> bool" where
  "at_slot s pre post \<longleftrightarrow> wchain (wheel s) None (pre @ post) None \<and> distinct (pre @ post) \<and>
     0 \<le> cur_slot s \<and> cur_slot s < TW_N \<and> length (slots s) = nat TW_N \<and>
     slots s ! nat (cur_slot s) = first_or (pre @ post) None"

lemma at_slot_next:
  assumes "at_slot s pre (x # post)" and "wheel s x = Some t"
  shows "w_next t = first_or post None"
  using assms by (auto simp: at_slot_def)

lemma remove_fired_correct:
  assumes "at_slot s pre (x # post)"
  shows "\<exists>s'. remove_fired x s = Inr (first_or post None, s') \<and> at_slot s' pre post \<and>
    core (wheel s') = (core (wheel s))(x := None) \<and> cur_slot s' = cur_slot s \<and>
    slots s' = (slots s)[nat (cur_slot s) := first_or (pre @ post) None] \<and>
    same_outside (set (pre @ x # post)) (wheel s) (wheel s')"
proof -
  let ?h = "wheel s" and ?i = "nat (cur_slot s)"
  from assms have c: "wchain ?h None (pre @ x # post) None" and d: "distinct (pre @ x # post)"
    and i: "0 \<le> cur_slot s" "cur_slot s < TW_N" "?i < length (slots s)" "length (slots s) = nat TW_N"
    and sl: "slots s ! ?i = first_or (pre @ x # post) None"
    by (auto simp: at_slot_def)
  obtain t where t: "?h x = Some t" using c by (auto split: option.splits)
  have nx: "w_next t = first_or post None" using at_slot_next [OF assms t] .
  show ?thesis
  proof (cases pre)
    case Nil
    then have c0: "wchain ?h None (x # post) None" and d0: "distinct (x # post)" using c d by simp_all
    from unlink_front_correct [OF c0 d0 t] obtain h' where h':
      "(if w_next t \<noteq> None then store (?h(x := None)) (w_next t) (\<lambda>n. n\<lparr>w_prev := None\<rparr>) else Inr (?h(x := None))) =
         Inr (h'(x := None))"
      "wchain (h'(x := None)) None post None" "core h' = core ?h" "same_outside (set (x # post)) ?h h'"
      by blast
    let ?s = "s\<lparr>slots := (slots s)[?i := w_next t], wheel := h'(x := None)\<rparr>"
    have "remove_fired x s = Inr (w_next t, ?s)"
      using h'(1) Nil i sl t by (simp add: remove_fired_def slot_at_def set_slot_def)
    moreover have "at_slot ?s [] post" using h'(2) d i Nil nx by (simp add: at_slot_def)
    moreover have "same_outside (set (x # post)) ?h (h'(x := None))"
      using h'(4) by (simp add: same_outside_def)
    ultimately show ?thesis using Nil nx h'(3) by (intro exI [of _ ?s]) simp
  next
    case (Cons y ys)
    have "Some x \<noteq> slots s ! ?i" using sl d Cons by auto
    from unlink_inner_correct [OF c d] Cons obtain h' where h':
      "unlink_inner x ?h = Inr h'" "h' x = ?h x" "wchain (h'(x := None)) None (pre @ post) None"
      "core h' = core ?h" "same_outside (set (pre @ x # post)) ?h h'" by blast
    let ?s = "s\<lparr>wheel := h'(x := None)\<rparr>"
    have "remove_fired x s = Inr (w_next t, ?s)"
      using h'(1,2) t i \<open>Some x \<noteq> slots s ! ?i\<close> by (simp add: remove_fired_def slot_at_def)
    moreover have "slots s ! ?i = first_or (pre @ post) None" using sl Cons by simp
    then have "at_slot ?s pre post" and "slots s = (slots s)[?i := first_or (pre @ post) None]"
      using h'(3) d i by (simp add: at_slot_def, metis list_update_id)
    moreover have "same_outside (set (pre @ x # post)) ?h (h'(x := None))"
      using h'(5) by (simp add: same_outside_def)
    ultimately show ?thesis using nx h'(4) by (intro exI [of _ ?s]) simp
  qed
qed

lemma tw_tick_loop_correct:
  assumes "at_slot s pre post"
  shows "\<exists>s'. tw_tick_loop call (first_or post None) s w =
      Some (Inr (s', wfire call (wheel s) (filter (\<lambda>x. rot (wheel s) x \<le> 0) post) w)) \<and>
    at_slot s' (pre @ filter (\<lambda>x. 0 < rot (wheel s) x) post) [] \<and>
    core (wheel s') = core_pass (wheel s) {x \<in> set post. rot (wheel s) x \<le> 0} {x \<in> set post. 0 < rot (wheel s) x} \<and>
    cur_slot s' = cur_slot s \<and>
    slots s' = (slots s)[nat (cur_slot s) := first_or (pre @ filter (\<lambda>x. 0 < rot (wheel s) x) post) None] \<and>
    same_outside (set (pre @ post)) (wheel s) (wheel s')"
  using assms
proof (induction post arbitrary: pre s w)
  case Nil
  have "core (wheel s) = core_pass (wheel s) {} {}" by (rule ext) (simp add: core_pass_def)
  moreover have "slots s = (slots s)[nat (cur_slot s) := first_or (pre @ []) None]"
    using Nil by (metis at_slot_def list_update_id)
  ultimately show ?case using Nil by (simp add: tw_tick_loop.simps same_outside_def wfire_def)
next
  case (Cons x post)
  let ?h = "wheel s"
  from Cons.prems obtain t where t: "?h x = Some t" by (auto simp: at_slot_def split: option.splits)
  have nx: "w_next t = first_or post None" using at_slot_next [OF Cons.prems t] .
  have d: "distinct (pre @ x # post)" using Cons.prems by (simp add: at_slot_def)
  have rx: "rot ?h x = rotation t" using t by (simp add: rot_def)
  show ?case
  proof (cases "rotation t > 0")
    case True
    let ?h1 = "?h(x \<mapsto> t\<lparr>rotation := rotation t - 1\<rparr>)"
    let ?s1 = "s\<lparr>wheel := ?h1\<rparr>"
    have "wchain ?h1 p ys n = wchain ?h p ys n" for p ys n
      by (rule tw.dseg_same_links) (use t in simp_all)
    then have at: "at_slot ?s1 (pre @ [x]) post" using Cons.prems t by (simp add: at_slot_def)
    have same: "core ?h1 y = core ?h y" if "y \<noteq> x" for y using that by (simp add: core_def)
    then have keep: "rot ?h1 y = rot ?h y" if "y \<in> set post" for y
    proof -
      have "y \<noteq> x" using that d by auto
      then show ?thesis by (intro rot_core same)
    qed
    have f: "filter (\<lambda>y. 0 < rot ?h1 y) post = filter (\<lambda>y. 0 < rot ?h y) post"
      "filter (\<lambda>y. rot ?h1 y \<le> 0) post = filter (\<lambda>y. rot ?h y \<le> 0) post"
      using keep by (auto intro: filter_cong)
    have wf: "wfire call ?h1 (filter (\<lambda>y. rot ?h y \<le> 0) post) w = wfire call ?h (filter (\<lambda>y. rot ?h y \<le> 0) post) w"
      using d by (intro wfire_cong same) auto
    have step: "tw_tick_loop call (Some x) s w = tw_tick_loop call (first_or post None) ?s1 w"
      using True t nx by (subst tw_tick_loop.simps) simp
    have cp: "core_pass ?h1 {y \<in> set post. rot ?h1 y \<le> 0} {y \<in> set post. 0 < rot ?h1 y} =
        core_pass ?h {y \<in> set (x # post). rot ?h y \<le> 0} {y \<in> set (x # post). 0 < rot ?h y}"
    proof
      fix y
      show "core_pass ?h1 {y \<in> set post. rot ?h1 y \<le> 0} {y \<in> set post. 0 < rot ?h1 y} y =
        core_pass ?h {y \<in> set (x # post). rot ?h y \<le> 0} {y \<in> set (x # post). 0 < rot ?h y} y"
        using True rx d t keep same [of y] by (cases "y = x") (auto simp: core_pass_def core_def)
    qed
    have wh: "wheel ?s1 = ?h1" "cur_slot ?s1 = cur_slot s" "slots ?s1 = slots s" by simp_all
    from Cons.IH [OF at, of w, unfolded wh f wf cp] obtain s' where s':
      "tw_tick_loop call (first_or post None) ?s1 w = Some (Inr (s', wfire call ?h (filter (\<lambda>y. rot ?h y \<le> 0) post) w))"
      "at_slot s' ((pre @ [x]) @ filter (\<lambda>y. 0 < rot ?h y) post) []"
      "core (wheel s') = core_pass ?h {y \<in> set (x # post). rot ?h y \<le> 0} {y \<in> set (x # post). 0 < rot ?h y}"
      "cur_slot s' = cur_slot s"
      "slots s' = (slots s)[nat (cur_slot s) := first_or ((pre @ [x]) @ filter (\<lambda>y. 0 < rot ?h y) post) None]"
      "same_outside (set ((pre @ [x]) @ post)) ?h1 (wheel s')"
      by blast
    moreover have "same_outside (set (pre @ x # post)) ?h (wheel s')"
      using s'(6) by (auto simp: same_outside_def)
    ultimately show ?thesis using True rx step by (intro exI [of _ s']) simp
  next
    case False
    from remove_fired_correct [OF Cons.prems] obtain s1 where s1:
      "remove_fired x s = Inr (first_or post None, s1)" "at_slot s1 pre post"
      "core (wheel s1) = (core ?h)(x := None)" "cur_slot s1 = cur_slot s"
      "slots s1 = (slots s)[nat (cur_slot s) := first_or (pre @ post) None]"
      "same_outside (set (pre @ x # post)) ?h (wheel s1)" by blast
    have same: "core (wheel s1) y = core ?h y" if "y \<noteq> x" for y using that s1(3) by simp
    then have keep: "rot (wheel s1) y = rot ?h y" if "y \<in> set post" for y
    proof -
      have "y \<noteq> x" using that d by auto
      then show ?thesis by (intro rot_core same)
    qed
    have f: "filter (\<lambda>y. 0 < rot (wheel s1) y) post = filter (\<lambda>y. 0 < rot ?h y) post"
      "filter (\<lambda>y. rot (wheel s1) y \<le> 0) post = filter (\<lambda>y. rot ?h y \<le> 0) post"
      using keep by (auto intro: filter_cong)
    let ?w = "call (w_cb t) (w_data t) w"
    have wf: "wfire call (wheel s1) (filter (\<lambda>y. rot ?h y \<le> 0) post) ?w = wfire call ?h (filter (\<lambda>y. rot ?h y \<le> 0) post) ?w"
      using d by (intro wfire_cong same) auto
    have step: "tw_tick_loop call (Some x) s w = tw_tick_loop call (first_or post None) s1 ?w"
      using False t s1(1) by (subst tw_tick_loop.simps) simp
    have cp: "core_pass (wheel s1) {y \<in> set post. rot (wheel s1) y \<le> 0} {y \<in> set post. 0 < rot (wheel s1) y} =
        core_pass ?h {y \<in> set (x # post). rot ?h y \<le> 0} {y \<in> set (x # post). 0 < rot ?h y}"
    proof
      fix y
      show "core_pass (wheel s1) {y \<in> set post. rot (wheel s1) y \<le> 0} {y \<in> set post. 0 < rot (wheel s1) y} y =
        core_pass ?h {y \<in> set (x # post). rot ?h y \<le> 0} {y \<in> set (x # post). 0 < rot ?h y} y"
        using False rx d s1(3) keep same [of y] by (cases "y = x") (auto simp: core_pass_def)
    qed
    from Cons.IH [OF s1(2), of ?w, unfolded f wf cp] obtain s' where s':
      "tw_tick_loop call (first_or post None) s1 ?w =
         Some (Inr (s', wfire call ?h (filter (\<lambda>y. rot ?h y \<le> 0) post) ?w))"
      "at_slot s' (pre @ filter (\<lambda>y. 0 < rot ?h y) post) []"
      "core (wheel s') = core_pass ?h {y \<in> set (x # post). rot ?h y \<le> 0} {y \<in> set (x # post). 0 < rot ?h y}"
      "cur_slot s' = cur_slot s1"
      "slots s' = (slots s1)[nat (cur_slot s1) := first_or (pre @ filter (\<lambda>y. 0 < rot ?h y) post) None]"
      "same_outside (set (pre @ post)) (wheel s1) (wheel s')"
      by blast
    moreover have "same_outside (set (pre @ x # post)) ?h (wheel s')"
      using s'(6) s1(6) by (auto simp: same_outside_def)
    ultimately show ?thesis using False rx step s1(4,5) wfire_Cons [of ?h x t call, OF t]
      by (intro exI [of _ s']) simp
  qed
qed

section \<open>The wheel as a countdown\<close>

definition wheel_ok :: "time_wheel_timer \<Rightarrow> (nat \<Rightarrow> nat list) \<Rightarrow> bool" where
  "wheel_ok s xs \<longleftrightarrow> length (slots s) = nat TW_N \<and> 0 \<le> cur_slot s \<and> cur_slot s < TW_N \<and>
     (\<forall>i < nat TW_N. wchain (wheel s) None (xs i) None \<and> distinct (xs i) \<and> slots s ! i = first_or (xs i) None \<and>
        (\<forall>x \<in> set (xs i). \<exists>t. wheel s x = Some t \<and> time_slot t = int i \<and> 0 \<le> rotation t)) \<and>
     dom (wheel s) = (\<Union>i \<in> {..<nat TW_N}. set (xs i))"

text \<open>The ticks a timer has left: it fires in the tick that finds none left.\<close>

definition left_at :: "int \<Rightarrow> int \<times> int \<times> nat \<times> nat \<Rightarrow> int \<times> nat \<times> nat" where
  "left_at cur c = (case c of (r, ts, f, d) \<Rightarrow> (r * TW_N + (ts - cur) mod TW_N, f, d))"

definition view :: "time_wheel_timer \<Rightarrow> nat \<Rightarrow> (int \<times> nat \<times> nat) option" where
  "view s x = map_option (left_at (cur_slot s)) (core (wheel s) x)"

definition countdown :: "(int \<times> nat \<times> nat) option \<Rightarrow> (int \<times> nat \<times> nat) option" where
  "countdown v = (case v of None \<Rightarrow> None | Some (r, f, d) \<Rightarrow> if r = 0 then None else Some (r - 1, f, d))"

lemma wheel_okD:
  assumes "wheel_ok s xs" and "i < nat TW_N"
  shows "wchain (wheel s) None (xs i) None" "distinct (xs i)" "slots s ! i = first_or (xs i) None"
    and "x \<in> set (xs i) \<Longrightarrow> \<exists>t. wheel s x = Some t \<and> time_slot t = int i \<and> 0 \<le> rotation t"
  using assms unfolding wheel_ok_def by blast+

lemma wheel_ok_slot:
  assumes "wheel_ok s xs" and "wheel s x = Some t"
  obtains i where "i < nat TW_N" and "x \<in> set (xs i)" and "time_slot t = int i" and "0 \<le> rotation t"
proof -
  from assms have "x \<in> (\<Union>i \<in> {..<nat TW_N}. set (xs i))" unfolding wheel_ok_def by (auto simp: dom_def)
  then obtain i where i: "i < nat TW_N" "x \<in> set (xs i)" by auto
  with wheel_okD(4) [OF assms(1) i(1) i(2)] assms(2) that show thesis by auto
qed

lemma wheel_ok_disjoint:
  assumes "wheel_ok s xs" and "i < nat TW_N" "j < nat TW_N" and "x \<in> set (xs i)" "x \<in> set (xs j)"
  shows "i = j"
  using wheel_okD(4) [OF assms(1,2,4)] wheel_okD(4) [OF assms(1,3,5)] by auto

lemma wheel_ok_at_slot:
  assumes "wheel_ok s xs"
  shows "at_slot s [] (xs (nat (cur_slot s)))"
proof -
  have i: "0 \<le> cur_slot s" "cur_slot s < TW_N" "length (slots s) = nat TW_N"
    using assms unfolding wheel_ok_def by blast+
  then have "nat (cur_slot s) < nat TW_N" by simp
  with i wheel_okD [OF assms] show ?thesis by (simp add: at_slot_def)
qed

lemma core_None [simp]: "core h x = None \<longleftrightarrow> h x = None"
  by (simp add: core_def)

lemma core_Some: "core h x = Some (r, ts, f, d) \<longleftrightarrow>
  (\<exists>t. h x = Some t \<and> rotation t = r \<and> time_slot t = ts \<and> w_cb t = f \<and> w_data t = d)"
  by (auto simp: core_def)

text \<open>One slot is rewritten, the others keep their objects.\<close>

lemma wheel_ok_replace:
  assumes ok: "wheel_ok s xs" and i: "i < nat TW_N" and so: "same_outside A (wheel s) (wheel s')"
    and A: "\<forall>j < nat TW_N. j \<noteq> i \<longrightarrow> A \<inter> set (xs j) = {}"
    and sl: "slots s' = (slots s)[i := first_or ys None]" and cur: "0 \<le> cur_slot s'" "cur_slot s' < TW_N"
    and ch: "wchain (wheel s') None ys None" and d: "distinct ys"
    and ts: "\<forall>x \<in> set ys. \<exists>t. wheel s' x = Some t \<and> time_slot t = int i \<and> 0 \<le> rotation t"
    and dm: "dom (wheel s') = (dom (wheel s) - set (xs i)) \<union> set ys"
  shows "wheel_ok s' (xs(i := ys))"
proof -
  have other: "wheel s' x = wheel s x" if "j < nat TW_N" "j \<noteq> i" "x \<in> set (xs j)" for j x
    using that A so unfolding same_outside_def by blast
  have chains: "wchain (wheel s') None (xs j) None" if "j < nat TW_N" "j \<noteq> i" for j
  proof -
    have "wchain (wheel s') None (xs j) None = wchain (wheel s) None (xs j) None"
      using other that by (intro dseg_cong) auto
    with wheel_okD(1) [OF ok that(1)] show ?thesis by simp
  qed
  have len: "length (slots s) = nat TW_N" using ok by (simp add: wheel_ok_def)
  have dom: "dom (wheel s') = (\<Union>j \<in> {..<nat TW_N}. set ((xs(i := ys)) j))"
  proof -
    have "dom (wheel s) = (\<Union>j \<in> {..<nat TW_N}. set (xs j))" using ok by (simp add: wheel_ok_def)
    moreover have "x \<notin> set (xs i)" if "j < nat TW_N" "j \<noteq> i" "x \<in> set (xs j)" for j x
      using wheel_ok_disjoint [OF ok that(1) i that(3)] that(2) by blast
    ultimately show ?thesis unfolding dm using i by (auto split: if_splits)
  qed
  have one: "wchain (wheel s') None ((xs(i := ys)) j) None \<and> distinct ((xs(i := ys)) j) \<and>
      slots s' ! j = first_or ((xs(i := ys)) j) None \<and>
      (\<forall>x \<in> set ((xs(i := ys)) j). \<exists>t. wheel s' x = Some t \<and> time_slot t = int j \<and> 0 \<le> rotation t)"
    if j: "j < nat TW_N" for j
  proof (cases "j = i")
    case True
    then show ?thesis using ch d ts sl len i by simp
  next
    case False
    then show ?thesis using chains [OF j False] wheel_okD [OF ok j] other [OF j False] sl by simp
  qed
  show ?thesis unfolding wheel_ok_def using len sl cur one dom by simp
qed

lemma mod_step: "((a :: int) - (b + 1) mod 60) mod 60 = (if (a - b) mod 60 = 0 then 59 else (a - b) mod 60 - 1)"
proof -
  have "(a - (b + 1) mod 60) mod 60 = (a - (b + 1)) mod 60" by (rule mod_diff_right_eq)
  also have "\<dots> = ((a - b) mod 60 - 1) mod 60" by (simp add: mod_diff_left_eq diff_diff_eq)
  also have "\<dots> = (if (a - b) mod 60 = 0 then 59 else (a - b) mod 60 - 1)"
    by (simp add: mod_pos_pos_trivial)
  finally show ?thesis .
qed

lemma mod_zero_eq:
  assumes "(a - b) mod 60 = 0" and "0 \<le> a" "a < 60" "0 \<le> b" "b < (60 :: int)"
  shows "a = b"
proof -
  have "a mod 60 = b mod 60" using assms(1) by (simp add: mod_eq_dvd_iff mod_0_imp_dvd)
  then show ?thesis using assms by simp
qed

lemma tw_tick_correct:
  assumes ok: "wheel_ok s xs"
  defines "i \<equiv> nat (cur_slot s)"
  defines "fired \<equiv> filter (\<lambda>x. rot (wheel s) x \<le> 0) (xs i)"
    and "kept \<equiv> filter (\<lambda>x. 0 < rot (wheel s) x) (xs i)"
  shows "\<exists>s'. tw_tick call s w = Some (Inr (s', wfire call (wheel s) fired w)) \<and>
    wheel_ok s' (xs(i := kept)) \<and> distinct fired \<and> set fired = {x. \<exists>f d. view s x = Some (0, f, d)} \<and>
    (\<forall>x. view s' x = countdown (view s x))"
proof -
  let ?h = "wheel s"
  have i: "i < nat TW_N" "int i = cur_slot s" and cur: "0 \<le> cur_slot s" "cur_slot s < TW_N"
    using ok by (auto simp: wheel_ok_def i_def TW_N_def)
  note slot = wheel_okD [OF ok i(1)]
  have first: "slot_at (cur_slot s) s = Inr (first_or (xs i) None)"
    using slot(3) cur by (simp add: slot_at_def i_def)
  from tw_tick_loop_correct [OF wheel_ok_at_slot [OF ok], of call w] obtain s1 where
    lo: "tw_tick_loop call (first_or (xs i) None) s w = Some (Inr (s1, wfire call ?h fired w))"
    and at: "at_slot s1 kept []"
    and co: "core (wheel s1) = core_pass ?h {x \<in> set (xs i). rot ?h x \<le> 0} {x \<in> set (xs i). 0 < rot ?h x}"
    and c1: "cur_slot s1 = cur_slot s" and sl: "slots s1 = (slots s)[i := first_or kept None]"
    and so: "same_outside (set (xs i)) ?h (wheel s1)"
    unfolding i_def [symmetric] fired_def kept_def by auto
  let ?s = "s1\<lparr>cur_slot := (cur_slot s1 + 1) mod TW_N\<rparr>"
  have tick: "tw_tick call s w = Some (Inr (?s, wfire call ?h fired w))"
    using first lo by (simp add: tw_tick_def)
  have in_slot: "\<exists>t. ?h x = Some t \<and> time_slot t = int i \<and> 0 \<le> rotation t \<and> rot ?h x = rotation t"
    if "x \<in> set (xs i)" for x
    using slot(4) [OF that] by (auto simp: rot_def)
  have ok': "wheel_ok ?s (xs(i := kept))"
  proof (rule wheel_ok_replace [OF ok i(1)])
    show "same_outside (set (xs i)) ?h (wheel ?s)" using so by simp
    show "\<forall>j < nat TW_N. j \<noteq> i \<longrightarrow> set (xs i) \<inter> set (xs j) = {}"
      using wheel_ok_disjoint [OF ok i(1)] by blast
    show "slots ?s = (slots s)[i := first_or kept None]" using sl by simp
    show "0 \<le> cur_slot ?s" "cur_slot ?s < TW_N" by (simp_all add: TW_N_def)
    show "wchain (wheel ?s) None kept None" "distinct kept" using at by (simp_all add: at_slot_def)
    show "\<forall>x \<in> set kept. \<exists>t. wheel ?s x = Some t \<and> time_slot t = int i \<and> 0 \<le> rotation t"
    proof
      fix x assume "x \<in> set kept"
      then have x: "x \<in> set (xs i)" "0 < rot ?h x" by (simp_all add: kept_def)
      with in_slot obtain t where t: "?h x = Some t" "time_slot t = int i" "rot ?h x = rotation t" by blast
      with x have "core (wheel s1) x = Some (rotation t - 1, time_slot t, w_cb t, w_data t)"
        by (simp add: co core_pass_def) (simp add: core_def)
      with t x show "\<exists>t. wheel ?s x = Some t \<and> time_slot t = int i \<and> 0 \<le> rotation t"
        by (auto simp: core_Some)
    qed
    show "dom (wheel ?s) = (dom ?h - set (xs i)) \<union> set kept"
    proof -
      have "core (wheel s1) x = None \<longleftrightarrow> core ?h x = None \<or> x \<in> set (xs i) \<and> rot ?h x \<le> 0" for x
        unfolding co core_pass_def by auto
      then have "wheel s1 x = None \<longleftrightarrow> ?h x = None \<or> x \<in> set (xs i) \<and> rot ?h x \<le> 0" for x
        unfolding core_None .
      moreover have "?h x \<noteq> None" if "x \<in> set (xs i)" for x using in_slot [OF that] by auto
      ultimately show ?thesis
        unfolding dom_def kept_def by (auto simp: not_le) 
    qed
  qed
  have "distinct fired" using slot(2) by (simp add: fired_def)
  moreover have "set fired = {x. \<exists>f d. view s x = Some (0, f, d)}"
  proof (intro set_eqI iffI)
    fix x assume "x \<in> set fired"
    then have "x \<in> set (xs i)" "rot ?h x \<le> 0" by (simp_all add: fired_def)
    with in_slot obtain t where "?h x = Some t" "time_slot t = int i" "rotation t = 0" by fastforce
    then show "x \<in> {x. \<exists>f d. view s x = Some (0, f, d)}"
      using i(2) by (simp add: view_def left_at_def core_def)
  next
    fix x assume "x \<in> {x. \<exists>f d. view s x = Some (0, f, d)}"
    then obtain t where t: "?h x = Some t" "rotation t * TW_N + (time_slot t - cur_slot s) mod TW_N = 0"
      by (auto simp: view_def left_at_def core_def)
    obtain j where j: "j < nat TW_N" "x \<in> set (xs j)" "time_slot t = int j" "0 \<le> rotation t"
      by (rule wheel_ok_slot [OF ok t(1)])
    have "0 \<le> (time_slot t - cur_slot s) mod TW_N" by (simp add: TW_N_def)
    with t(2) j(4) have z: "rotation t = 0" "(int j - cur_slot s) mod TW_N = 0" by (auto simp: TW_N_def j(3))
    then have "j = i" using cur j(1) i(2) mod_zero_eq [of "int j" "cur_slot s"] by (simp add: TW_N_def)
    with j z t(1) show "x \<in> set fired" by (simp add: fired_def rot_def)
  qed
  moreover have "view ?s x = countdown (view s x)" for x
  proof (cases "?h x")
    case None
    then have "x \<notin> set (xs i)" using in_slot by fastforce
    with None show ?thesis by (simp add: view_def co core_pass_def countdown_def core_def)
  next
    case (Some t)
    obtain j where j: "j < nat TW_N" "x \<in> set (xs j)" "time_slot t = int j" "0 \<le> rotation t"
      by (rule wheel_ok_slot [OF ok Some])
    have ch: "core ?h x = Some (rotation t, int j, w_cb t, w_data t)" using Some j(3) by (simp add: core_def)
    show ?thesis
    proof (cases "j = i")
      case True
      then have "x \<in> set (xs i)" using j(2) by simp
      with Some have "core (wheel s1) x = (if rotation t \<le> 0 then None else Some (rotation t - 1, int j, w_cb t, w_data t))"
        using ch by (simp add: co core_pass_def rot_def)
      with ch j(4) True i(2) c1 show ?thesis
        using mod_step [of "cur_slot s" "cur_slot s"]
        by (auto simp: view_def left_at_def countdown_def TW_N_def)
    next
      case False
      then have "x \<notin> set (xs i)" using wheel_ok_disjoint [OF ok j(1) i(1) j(2)] by blast
      then have "core (wheel s1) x = core ?h x" by (simp add: co core_pass_def)
      moreover have "(int j - cur_slot s) mod 60 \<noteq> 0"
        using False j(1) i(2) cur mod_zero_eq [of "int j" "cur_slot s"] by (auto simp: TW_N_def)
      moreover have "0 \<le> (int j - cur_slot s) mod 60" by simp
      ultimately show ?thesis using ch c1 j(4) mod_step [of "int j" "cur_slot s"]
        by (auto simp: view_def left_at_def countdown_def TW_N_def)
    qed
  qed
  ultimately show ?thesis using tick ok' by blast
qed

lemma view_None: "wheel s x = None \<Longrightarrow> view s x = None"
  by (simp add: view_def core_def)

lemma tw_del_timer_correct:
  assumes ok: "wheel_ok s xs" and "wheel s x \<noteq> None"
  shows "\<exists>s' xs'. tw_del_timer (Some x) s = Inr s' \<and> wheel_ok s' xs' \<and> view s' = (view s)(x := None)"
proof -
  let ?h = "wheel s"
  from assms(2) obtain t where t: "?h x = Some t" by auto
  obtain i where i: "i < nat TW_N" "x \<in> set (xs i)" "time_slot t = int i" by (rule wheel_ok_slot [OF ok t])
  from i(2) obtain pre post where sp: "xs i = pre @ x # post" by (auto simp: in_set_conv_decomp)
  note slot = wheel_okD [OF ok i(1), unfolded sp]
  have lt: "int i < TW_N" using i(1) by simp
  have at: "slot_at (time_slot t) s = Inr (first_or (pre @ x # post) None)"
    using slot(3) i(1,3) by (simp add: slot_at_def)
  have "\<exists>s'. tw_del_timer (Some x) s = Inr s' \<and> wchain (wheel s') None (pre @ post) None \<and>
      core (wheel s') = (core ?h)(x := None) \<and> cur_slot s' = cur_slot s \<and>
      slots s' = (slots s)[i := first_or (pre @ post) None] \<and> same_outside (set (pre @ x # post)) ?h (wheel s')"
  proof (cases pre)
    case Nil
    then have c0: "wchain ?h None (x # post) None" and d0: "distinct (x # post)" using slot by simp_all
    from unlink_front_correct [OF c0 d0 t] obtain h' where h': "w_next t = first_or post None"
      "(if w_next t \<noteq> None then store ?h (w_next t) (\<lambda>n. n\<lparr>w_prev := None\<rparr>) else Inr ?h) = Inr h'"
      "free h' (Some x) = Inr (h'(x := None))" "wchain (h'(x := None)) None post None" "core h' = core ?h"
      "same_outside (set (x # post)) ?h h'" by blast
    let ?s = "s\<lparr>slots := (slots s)[i := w_next t], wheel := h'(x := None)\<rparr>"
    have ch: "wchain (wheel ?s) None ([] @ post) None" and so: "same_outside (set ([] @ x # post)) ?h (wheel ?s)"
      using h'(4,6) by (simp_all add: same_outside_def)
    have "tw_del_timer (Some x) s = Inr ?s"
      using h'(2,3) t at lt i(3) Nil
      by (cases "w_next t") (simp_all add: tw_del_timer_def set_slot_def Let_def)
    with Nil h'(1,5) ch so show ?thesis by (intro exI [of _ ?s]) simp
  next
    case (Cons y ys)
    then have "Some x \<noteq> first_or (pre @ x # post) None" using slot(2) by auto
    moreover from unlink_inner_correct [OF slot(1,2)] Cons obtain h' where h':
      "unlink_inner x ?h = Inr h'" "h' x = ?h x" "wchain (h'(x := None)) None (pre @ post) None"
      "core h' = core ?h" "same_outside (set (pre @ x # post)) ?h h'" by blast
    ultimately have "tw_del_timer (Some x) s = Inr (s\<lparr>wheel := h'(x := None)\<rparr>)"
      using t at by (simp add: tw_del_timer_def)
    moreover have "slots s = (slots s)[i := first_or (pre @ post) None]"
      using slot(3) Cons by (metis append_Cons first_or_simps(2) list_update_id)
    moreover have "same_outside (set (pre @ x # post)) ?h (h'(x := None))" using h'(5) by (simp add: same_outside_def)
    ultimately show ?thesis using h'(3,4) by (intro exI [of _ "s\<lparr>wheel := h'(x := None)\<rparr>"]) simp
  qed
  then obtain s' where s': "tw_del_timer (Some x) s = Inr s'" "wchain (wheel s') None (pre @ post) None"
    "core (wheel s') = (core ?h)(x := None)" "cur_slot s' = cur_slot s"
    "slots s' = (slots s)[i := first_or (pre @ post) None]" "same_outside (set (pre @ x # post)) ?h (wheel s')"
    by blast
  have "wheel_ok s' (xs(i := pre @ post))"
  proof (rule wheel_ok_replace [OF ok i(1) s'(6) _ s'(5) _ _ s'(2)])
    show "\<forall>j < nat TW_N. j \<noteq> i \<longrightarrow> set (pre @ x # post) \<inter> set (xs j) = {}"
      using wheel_ok_disjoint [OF ok i(1)] sp by fastforce
    show "0 \<le> cur_slot s'" "cur_slot s' < TW_N" using ok s'(4) by (simp_all add: wheel_ok_def)
    show "distinct (pre @ post)" using slot(2) by simp
    show "\<forall>y \<in> set (pre @ post). \<exists>t. wheel s' y = Some t \<and> time_slot t = int i \<and> 0 \<le> rotation t"
    proof
      fix y assume y: "y \<in> set (pre @ post)"
      then have "y \<noteq> x" using slot(2) by auto
      then have "core (wheel s') y = core ?h y" by (simp add: s'(3))
      moreover obtain ty where "?h y = Some ty" "time_slot ty = int i" "0 \<le> rotation ty" using slot(4) y by auto
      ultimately have "core (wheel s') y = Some (rotation ty, int i, w_cb ty, w_data ty)" by (simp add: core_def)
      with \<open>0 \<le> rotation ty\<close> show "\<exists>t. wheel s' y = Some t \<and> time_slot t = int i \<and> 0 \<le> rotation t"
        by (auto simp: core_Some)
    qed
    have "core (wheel s') y = None \<longleftrightarrow> y = x \<or> core ?h y = None" for y
      by (simp add: s'(3) del: core_None)
    then have "wheel s' y = None \<longleftrightarrow> y = x \<or> ?h y = None" for y unfolding core_None .
    moreover have "?h y \<noteq> None" if "y \<in> set (pre @ post)" for y using slot(4) [of y] that by auto
    ultimately show "dom (wheel s') = (dom ?h - set (xs i)) \<union> set (pre @ post)"
      using slot(2) by (auto simp: sp dom_def)
  qed
  moreover have "view s' = (view s)(x := None)" by (rule ext) (simp add: view_def s'(3,4))
  ultimately show ?thesis using s'(1) by blast
qed

lemma tw_add_timer_correct:
  assumes ok: "wheel_ok s xs" and new: "wheel s x = None" and "0 \<le> timeout"
    and fits: "cur_slot s + max 1 timeout \<le> INT_MAX"
  shows "\<exists>s' xs'. tw_add_timer x f d timeout s = Inr (Some x, s') \<and> wheel_ok s' xs' \<and>
    view s' = (view s)(x \<mapsto> (max 1 timeout, f, d))"
proof -
  let ?h = "wheel s" and ?o = "max 1 timeout"
  let ?pos = "(cur_slot s + ?o) mod TW_N"
  let ?i = "nat ?pos"
  let ?t = "\<lparr>rotation = ?o div TW_N, time_slot = ?pos, w_cb = f, w_data = d, w_next = None, w_prev = None\<rparr>"
  have off: "(if timeout div TW_SI = 0 then 1 else timeout div TW_SI) = ?o"
    using assms(3) by (auto simp: TW_SI_def)
  have cur: "0 \<le> cur_slot s" "cur_slot s < TW_N" using ok by (simp_all add: wheel_ok_def)
  then have sum: "add_int (cur_slot s) ?o = Inr (cur_slot s + ?o)"
    using fits by (simp add: add_int_def INT_MIN_def)
  have pos: "0 \<le> ?pos" "?pos < TW_N" by (simp_all add: TW_N_def)
  then have i: "?i < nat TW_N" "int ?i = ?pos" by simp_all
  note slot = wheel_okD [OF ok i(1)]
  have x: "x \<notin> set (xs ?i)" using slot(4) [of x] new by auto
  have at: "slot_at ?pos s = Inr (first_or (xs ?i) None)" using slot(3) pos by (simp add: slot_at_def)
  have "\<exists>h'. tw_add_timer x f d timeout s = Inr (Some x, s\<lparr>slots := (slots s)[?i := Some x], wheel := h'\<rparr>) \<and>
      wchain h' None (x # xs ?i) None \<and> core h' = (core ?h)(x \<mapsto> (?o div TW_N, ?pos, f, d)) \<and>
      same_outside (set (x # xs ?i)) ?h h'"
  proof (cases "xs ?i")
    case Nil
    let ?h' = "?h(x \<mapsto> ?t)"
    have "core ?h' = (core ?h)(x \<mapsto> (?o div TW_N, ?pos, f, d))" by (rule ext) (simp add: core_def)
    moreover have "tw_add_timer x f d timeout s = Inr (Some x, s\<lparr>slots := (slots s)[?i := Some x], wheel := ?h'\<rparr>)"
      using assms(3) at Nil pos by (simp add: tw_add_timer_def off sum Let_def set_slot_def)
    ultimately show ?thesis using Nil by (intro exI [of _ ?h']) (simp add: same_outside_def)
  next
    case (Cons b zs)
    obtain tb where tb: "?h b = Some tb" using slot(1) Cons by (auto split: option.splits)
    have xb: "x \<noteq> b" using x Cons by auto
    let ?tx = "?t\<lparr>w_next := Some b\<rparr>"
    let ?h' = "?h(b \<mapsto> tb\<lparr>w_prev := Some x\<rparr>, x \<mapsto> ?tx)"
    have "wchain ?h' None (x # b # zs) None"
      using tw.link_at_front [of ?h None b zs None x tb ?tx] slot(1,2) x tb Cons by simp
    moreover have "core ?h' = (core ?h)(x \<mapsto> (?o div TW_N, ?pos, f, d))"
      using tb by (intro ext) (simp add: core_def)
    moreover have "tw_add_timer x f d timeout s = Inr (Some x, s\<lparr>slots := (slots s)[?i := Some x], wheel := ?h'\<rparr>)"
      using assms(3) at Cons pos xb tb
      by (simp add: tw_add_timer_def off sum Let_def set_slot_def fun_upd_twist)
    ultimately show ?thesis using Cons by (intro exI [of _ ?h']) (simp add: same_outside_def)
  qed
  then obtain h' where h':
    "tw_add_timer x f d timeout s = Inr (Some x, s\<lparr>slots := (slots s)[?i := Some x], wheel := h'\<rparr>)"
    "wchain h' None (x # xs ?i) None" "core h' = (core ?h)(x \<mapsto> (?o div TW_N, ?pos, f, d))"
    "same_outside (set (x # xs ?i)) ?h h'" by blast
  let ?s = "s\<lparr>slots := (slots s)[?i := Some x], wheel := h'\<rparr>"
  have "wheel_ok ?s (xs(?i := x # xs ?i))"
  proof (rule wheel_ok_replace [OF ok i(1)])
    show "same_outside (set (x # xs ?i)) ?h (wheel ?s)" using h'(4) by simp
    show "\<forall>j < nat TW_N. j \<noteq> ?i \<longrightarrow> set (x # xs ?i) \<inter> set (xs j) = {}"
      using wheel_ok_disjoint [OF ok i(1)] wheel_okD(4) [OF ok, of _ x] new by fastforce
    show "slots ?s = (slots s)[?i := first_or (x # xs ?i) None]" by simp
    show "0 \<le> cur_slot ?s" "cur_slot ?s < TW_N" using cur by simp_all
    show "wchain (wheel ?s) None (x # xs ?i) None" using h'(2) by simp
    show "distinct (x # xs ?i)" using slot(2) x by simp
    show "\<forall>y \<in> set (x # xs ?i). \<exists>t. wheel ?s y = Some t \<and> time_slot t = int ?i \<and> 0 \<le> rotation t"
    proof
      fix y assume y: "y \<in> set (x # xs ?i)"
      have "\<exists>r f d. core h' y = Some (r, int ?i, f, d) \<and> 0 \<le> r"
      proof (cases "y = x")
        case True
        moreover have "0 \<le> ?o div TW_N" by (simp add: TW_N_def pos_imp_zdiv_nonneg_iff)
        ultimately show ?thesis using i(2) by (simp add: h'(3))
      next
        case False
        with y obtain ty where "?h y = Some ty" "time_slot ty = int ?i" "0 \<le> rotation ty"
          using slot(4) by auto
        with False show ?thesis by (simp add: h'(3)) (simp add: core_def)
      qed
      then show "\<exists>t. wheel ?s y = Some t \<and> time_slot t = int ?i \<and> 0 \<le> rotation t"
        by (auto simp: core_Some)
    qed
    have "core h' y = None \<longleftrightarrow> y \<noteq> x \<and> core ?h y = None" for y
      by (simp add: h'(3) del: core_None)
    then have "h' y = None \<longleftrightarrow> y \<noteq> x \<and> ?h y = None" for y unfolding core_None .
    moreover have "?h y \<noteq> None" if "y \<in> set (xs ?i)" for y using slot(4) [of y] that by auto
    ultimately show "dom (wheel ?s) = (dom ?h - set (xs ?i)) \<union> set (x # xs ?i)"
      by (auto simp: dom_def)
  qed
  moreover have "view ?s = (view s)(x \<mapsto> (?o, f, d))"
  proof -
    have "(?pos - cur_slot s) mod TW_N = ?o mod TW_N" by (simp add: mod_diff_left_eq)
    then have "?o div TW_N * TW_N + (?pos - cur_slot s) mod TW_N = ?o" by simp
    then show ?thesis by (intro ext) (simp add: view_def h'(3) left_at_def)
  qed
  ultimately show ?thesis using h'(1) by blast
qed

section \<open>The destructor\<close>

lemma tw_delete_slot_correct:
  assumes "wchain (wheel s) p xs None" and "distinct xs" and "0 \<le> i" and "i < TW_N" and "length (slots s) = nat TW_N"
    and "slots s ! nat i = first_or xs None"
  shows "tw_delete_slot i (first_or xs None) s = Some (Inr (s\<lparr>slots := (slots s)[nat i := None],
    wheel := (wheel s) |` (- set xs)\<rparr>))"
  using assms
proof (induction xs arbitrary: s p)
  case Nil
  then have "(slots s)[nat i := None] = slots s" by (metis first_or_simps(1) list_update_id)
  then show ?case by (subst tw_delete_slot.simps) (simp add: restrict_map_def)
next
  case (Cons x xs)
  from Cons.prems obtain t where t: "wheel s x = Some t" "w_next t = first_or xs None"
    by (auto split: option.splits)
  let ?s = "s\<lparr>slots := (slots s)[nat i := first_or xs None], wheel := (wheel s)(x := None)\<rparr>"
  have "tw_delete_slot i (Some x) s = tw_delete_slot i (first_or xs None) ?s"
    using t Cons.prems(3-5) by (subst tw_delete_slot.simps) (simp add: set_slot_def slot_at_def)
  also have "\<dots> = Some (Inr (?s\<lparr>slots := (slots ?s)[nat i := None], wheel := (wheel ?s) |` (- set xs)\<rparr>))"
    using Cons.prems t by (intro Cons.IH [of ?s "Some x"]) (simp_all del: fun_upd_apply)
  also have "\<dots> = Some (Inr (s\<lparr>slots := (slots s)[nat i := None], wheel := (wheel s) |` (- set (x # xs))\<rparr>))"
    by (auto simp: restrict_map_def fun_eq_iff)
  finally show ?case by simp
qed

lemma tw_delete_slots_correct:
  assumes "distinct is" and "\<forall>i \<in> set is. 0 \<le> i \<and> i < TW_N" and "length (slots s) = nat TW_N"
    and "\<forall>i \<in> set is. wchain (wheel s) None (xs i) None \<and> distinct (xs i) \<and> slots s ! nat i = first_or (xs i) None"
    and "\<forall>i \<in> set is. \<forall>j \<in> set is. i \<noteq> j \<longrightarrow> set (xs i) \<inter> set (xs j) = {}"
  shows "\<exists>s'. tw_delete_slots is s = Some (Inr s') \<and> wheel s' = (wheel s) |` (- (\<Union>i \<in> set is. set (xs i))) \<and>
    length (slots s') = nat TW_N \<and>
    (\<forall>j < nat TW_N. slots s' ! j = (if int j \<in> set is then None else slots s ! j))"
  using assms
proof (induction "is" arbitrary: s)
  case (Cons i "is")
  let ?s = "s\<lparr>slots := (slots s)[nat i := None], wheel := (wheel s) |` (- set (xs i))\<rparr>"
  have i: "0 \<le> i" "i < TW_N" "wchain (wheel s) None (xs i) None" "distinct (xs i)"
    "slots s ! nat i = first_or (xs i) None" using Cons.prems by simp_all
  have step: "tw_delete_slots (i # is) s = tw_delete_slots is ?s"
    using tw_delete_slot_correct [OF i(3,4,1,2) Cons.prems(3) i(5)] i by (simp add: slot_at_def)
  have "wchain (wheel ?s) None (xs j) None \<and> distinct (xs j) \<and> slots ?s ! nat j = first_or (xs j) None"
    if j: "j \<in> set is" for j
  proof -
    have "i \<noteq> j" using Cons.prems(1) j by auto
    then have d: "set (xs i) \<inter> set (xs j) = {}" and n: "nat i \<noteq> nat j" using Cons.prems(2,5) j by auto
    have "wchain (wheel ?s) None (xs j) None = wchain (wheel s) None (xs j) None"
      by (rule dseg_cong) (use d in \<open>auto simp: restrict_map_def\<close>)
    then show ?thesis using Cons.prems(4) j n by simp
  qed
  then have "\<exists>s'. tw_delete_slots is ?s = Some (Inr s') \<and> wheel s' = (wheel ?s) |` (- (\<Union>i \<in> set is. set (xs i))) \<and>
    length (slots s') = nat TW_N \<and> (\<forall>j < nat TW_N. slots s' ! j = (if int j \<in> set is then None else slots ?s ! j))"
    using Cons.prems by (intro Cons.IH) simp_all
  then obtain s' where s': "tw_delete_slots is ?s = Some (Inr s')"
    "wheel s' = (wheel ?s) |` (- (\<Union>i \<in> set is. set (xs i)))" "length (slots s') = nat TW_N"
    "\<forall>j < nat TW_N. slots s' ! j = (if int j \<in> set is then None else slots ?s ! j)" by blast
  have "wheel s' = (wheel s) |` (- (\<Union>i \<in> set (i # is). set (xs i)))" unfolding s'(2) by (simp add: Int_commute)
  moreover have "slots s' ! j = (if int j \<in> set (i # is) then None else slots s ! j)" if "j < nat TW_N" for j
    using s'(4) that i(1) Cons.prems(3) by (auto simp: nth_list_update)
  ultimately show ?case using step s'(1,3) by (intro exI [of _ s']) simp
qed (simp add: restrict_map_def)

lemma tw_delete_correct:
  assumes "wheel_ok s xs"
  shows "\<exists>s'. tw_delete s = Some (Inr s') \<and> wheel s' = Map.empty \<and> slots s' = replicate (nat TW_N) None"
proof -
  have ln: "length (slots s) = nat TW_N" using assms by (simp add: wheel_ok_def)
  have N: "nat i < nat TW_N \<longleftrightarrow> 0 \<le> i \<and> i < TW_N" if "0 \<le> i" for i
    using that nat_less_eq_zless [OF that] by blast
  have r: "\<forall>i \<in> set [0..TW_N - 1]. 0 \<le> i \<and> i < TW_N" by auto
  have c: "\<forall>i \<in> set [0..TW_N - 1]. wchain (wheel s) None (xs (nat i)) None \<and> distinct (xs (nat i)) \<and>
      slots s ! nat i = first_or (xs (nat i)) None"
  proof
    fix i assume "i \<in> set [0..TW_N - 1]"
    then have "nat i < nat TW_N" using r N by blast
    from wheel_okD(1,2,3) [OF assms this] show "wchain (wheel s) None (xs (nat i)) None \<and> distinct (xs (nat i)) \<and>
      slots s ! nat i = first_or (xs (nat i)) None" by blast
  qed
  have d: "\<forall>i \<in> set [0..TW_N - 1]. \<forall>j \<in> set [0..TW_N - 1]. i \<noteq> j \<longrightarrow> set (xs (nat i)) \<inter> set (xs (nat j)) = {}"
  proof (intro ballI impI)
    fix i j :: int assume "i \<in> set [0..TW_N - 1]" "j \<in> set [0..TW_N - 1]" "i \<noteq> j"
    then have "nat i < nat TW_N" "nat j < nat TW_N" "nat i \<noteq> nat j" by auto
    with wheel_ok_disjoint [OF assms] show "set (xs (nat i)) \<inter> set (xs (nat j)) = {}" by blast
  qed
  from tw_delete_slots_correct [of "[0..TW_N - 1]" s "\<lambda>i. xs (nat i)", OF distinct_upto r ln c d] obtain s' where
    s': "tw_delete s = Some (Inr s')" "length (slots s') = nat TW_N"
      "wheel s' = (wheel s) |` (- (\<Union>i \<in> set [0..TW_N - 1]. set (xs (nat i))))"
      "\<forall>j < nat TW_N. slots s' ! j = (if int j \<in> set [0..TW_N - 1] then None else slots s ! j)"
    unfolding tw_delete_def by blast
  have "dom (wheel s) = (\<Union>i \<in> {..<nat TW_N}. set (xs i))" using assms by (simp add: wheel_ok_def)
  also have "{..<nat TW_N} = nat ` set [0..TW_N - 1]"
  proof
    show "{..<nat TW_N} \<subseteq> nat ` set [0..TW_N - 1]"
    proof
      fix j assume "j \<in> {..<nat TW_N}"
      then have "j = nat (int j)" "int j \<in> set [0..TW_N - 1]" by auto
      then show "j \<in> nat ` set [0..TW_N - 1]" by blast
    qed
  qed auto
  finally have "dom (wheel s) = (\<Union>i \<in> set [0..TW_N - 1]. set (xs (nat i)))" by (simp only: image_image)
  then have "wheel s' = Map.empty" unfolding s'(3) by (auto simp: restrict_map_def fun_eq_iff domIff)
  moreover have "slots s' = replicate (nat TW_N) None"
    using s'(2,4) by (intro nth_equalityI) auto
  ultimately show ?thesis using s'(1) by blast
qed

section \<open>The properties of the wheel\<close>

text \<open>Ticks in a row.\<close>

fun tw_ticks :: "(nat \<Rightarrow> nat \<Rightarrow> 'w \<Rightarrow> 'w) \<Rightarrow> nat \<Rightarrow> time_wheel_timer \<Rightarrow> 'w \<Rightarrow> (time_wheel_timer \<times> 'w) res option" where
  "tw_ticks call 0 s w = Some (Inr (s, w))"
| "tw_ticks call (Suc n) s w = bind_run (tw_tick call s w) (\<lambda>(s', w'). tw_ticks call n s' w')"

lemma wheel_ok_new: "wheel_ok new_wheel (\<lambda>_. [])"
  by (simp add: wheel_ok_def new_wheel_def TW_N_def)

text \<open>
  tick refines a countdown: it returns without undefined behaviour, keeps the wheel well formed, takes
  one tick from every timer that has some left, and runs once the callback of exactly those that have
  none, which it frees.
\<close>

theorem tick_counts_down:
  assumes "wheel_ok s xs"
  shows "\<exists>s' xs' fired. tw_tick call s w = Some (Inr (s', wfire call (wheel s) fired w)) \<and> wheel_ok s' xs' \<and>
    distinct fired \<and> set fired = {x. \<exists>f d. view s x = Some (0, f, d)} \<and>
    (\<forall>x. view s' x = countdown (view s x))"
  using tw_tick_correct [OF assms, of call w] by blast

lemma tick_counts_down_witness:
  "\<exists>s'. tw_tick (\<lambda>f d w. w @ [d]) new_wheel [] = Some (Inr (s', []))"
proof -
  have e: "{x. \<exists>f d. view new_wheel x = Some (0, f, d)} = {}" by (simp add: view_def new_wheel_def core_def)
  from tick_counts_down [OF wheel_ok_new, of "\<lambda>f d w. w @ [d]" "[]"] show ?thesis
    unfolding e by (auto simp: wfire_def)
qed

text \<open>
  add\_timer on a well-formed wheel: a negative timeout is refused, one that makes the slot computation
  overflow an int is undefined, and any other adds the timer with max(1, timeout) ticks to go.
\<close>

theorem add_timer_counts:
  assumes "wheel_ok s xs" and "wheel s x = None"
  shows "if timeout < 0 then tw_add_timer x f d timeout s = Inr (None, s)
    else if INT_MAX < cur_slot s + max 1 timeout then tw_add_timer x f d timeout s = Inl SignedOverflow
    else \<exists>s' xs'. tw_add_timer x f d timeout s = Inr (Some x, s') \<and> wheel_ok s' xs' \<and>
      view s' = (view s)(x \<mapsto> (max 1 timeout, f, d))"
proof (cases "timeout < 0 \<or> INT_MAX < cur_slot s + max 1 timeout")
  case True
  have "(if timeout div TW_SI = 0 then 1 else timeout div TW_SI) = max 1 timeout" if "0 \<le> timeout"
    using that by (auto simp: TW_SI_def)
  with True show ?thesis by (auto simp: tw_add_timer_def add_int_def Let_def)
next
  case False
  then have "0 \<le> timeout" and le: "cur_slot s + max 1 timeout \<le> INT_MAX" by auto
  from tw_add_timer_correct [OF assms this] False show ?thesis by auto
qed

lemma add_timer_counts_witness:
  "\<exists>s' xs'. tw_add_timer 1 0 7 90 new_wheel = Inr (Some 1, s') \<and> wheel_ok s' xs' \<and>
     view s' 1 = Some (90, 0, 7)"
  using add_timer_counts [OF wheel_ok_new, of 1 90 0 7] by (auto simp: new_wheel_def INT_MAX_def)

text \<open>del\_timer frees exactly the given timer and leaves the countdown of the others.\<close>

theorem wheel_del_removes:
  assumes "wheel_ok s xs" and "wheel s x \<noteq> None"
  shows "\<exists>s' xs'. tw_del_timer (Some x) s = Inr s' \<and> wheel_ok s' xs' \<and> view s' = (view s)(x := None)"
  by (rule tw_del_timer_correct [OF assms])

definition one_timer :: time_wheel_timer where
  "one_timer = new_wheel\<lparr>slots := (slots new_wheel)[5 := Some 1], wheel := [1 \<mapsto>
     \<lparr>rotation = 0, time_slot = 5, w_cb = 0, w_data = 7, w_next = None, w_prev = None\<rparr>]\<rparr>"

lemma wheel_ok_one_timer: "wheel_ok one_timer ((\<lambda>_. [])(5 := [1]))"
  by (auto simp: wheel_ok_def one_timer_def new_wheel_def TW_N_def)

lemma wheel_del_removes_witness: "\<exists>s'. tw_del_timer (Some 1) one_timer = Inr s' \<and> view s' 1 = None"
proof -
  have "wheel one_timer 1 \<noteq> None" by (simp add: one_timer_def)
  from wheel_del_removes [OF wheel_ok_one_timer this] show ?thesis by auto
qed

text \<open>A callback that records its call.\<close>

definition record_call :: "nat \<Rightarrow> nat \<Rightarrow> (nat \<times> nat) list \<Rightarrow> (nat \<times> nat) list" where
  "record_call f d w = w @ [(f, d)]"

lemma wfire_record:
  assumes "\<forall>x \<in> set xs. \<exists>r. core h x = Some r"
  shows "wfire record_call h xs w = w @ map (\<lambda>x. case core h x of Some (_, _, f, d) \<Rightarrow> (f, d)) xs"
  using assms
proof (induction xs arbitrary: w)
  case (Cons x xs)
  then obtain r ts f d where "core h x = Some (r, ts, f, d)" by (metis list.set_intros(1) prod_cases4)
  moreover have "wfire record_call h (x # xs) w =
      wfire record_call h xs (case core h x of Some (_, _, f, d) \<Rightarrow> record_call f d w | None \<Rightarrow> w)"
    by (simp add: wfire_def)
  ultimately show ?case using Cons record_call_def [of f d w] by simp
qed (simp add: wfire_def)

lemma count_map_distinct: "distinct xs \<Longrightarrow> count_list (map g xs) y = card {x \<in> set xs. g x = y}"
proof (induction xs)
  case (Cons x xs)
  have "{z \<in> set (x # xs). g z = y} = (if g x = y then {x} else {}) \<union> {z \<in> set xs. g z = y}" by auto
  with Cons show ?case by (simp add: card_insert_if)
qed simp

text \<open>One tick calls the callbacks of the timers that have no tick left, once each.\<close>

lemma tick_calls:
  assumes "wheel_ok s xs"
  shows "\<exists>s' xs' cs. tw_tick record_call s w = Some (Inr (s', w @ cs)) \<and> wheel_ok s' xs' \<and>
    (\<forall>x. view s' x = countdown (view s x)) \<and>
    (\<forall>g e. finite {y. view s y = Some (0, g, e)} \<and> count_list cs (g, e) = card {y. view s y = Some (0, g, e)})"
proof -
  from tick_counts_down [OF assms, of record_call w] obtain s' xs' fired where
    t: "tw_tick record_call s w = Some (Inr (s', wfire record_call (wheel s) fired w))" "wheel_ok s' xs'" "distinct fired"
      "set fired = {x. \<exists>f d. view s x = Some (0, f, d)}" "\<forall>x. view s' x = countdown (view s x)" by blast
  let ?g = "\<lambda>x. case core (wheel s) x of Some (_, _, f, d) \<Rightarrow> (f, d)"
  have c: "\<exists>r ts. core (wheel s) x = Some (r, ts, f, d)" if "view s x = Some (k, f, d)" for x k f d
    using that by (auto simp: view_def left_at_def)
  then have "\<forall>x \<in> set fired. \<exists>r. core (wheel s) x = Some r" using t(4) by blast
  with t(1) have "tw_tick record_call s w = Some (Inr (s', w @ map ?g fired))" by (simp add: wfire_record)
  moreover have fire: "{x \<in> set fired. ?g x = (g, e)} = {y. view s y = Some (0, g, e)}" for g e
    using c unfolding t(4) by fastforce
  moreover have "finite {y. view s y = Some (0, g, e)}" for g e unfolding fire [symmetric] by simp
  ultimately show ?thesis using t(2,3,5)
    by (intro exI [of _ s'] exI [of _ xs'] exI [of _ "map ?g fired"]) (simp add: count_map_distinct)
qed

lemma ticks_count_down:
  assumes "wheel_ok s xs"
  shows "\<exists>s' xs' w'. tw_ticks record_call n s w = Some (Inr (s', w')) \<and> wheel_ok s' xs' \<and>
    (\<forall>x. view s' x = (countdown ^^ n) (view s x))"
  using assms
proof (induction n arbitrary: s xs w)
  case (Suc n)
  from tick_calls [OF Suc.prems, of w] obtain s1 ys cs where
    1: "tw_tick record_call s w = Some (Inr (s1, w @ cs))" "wheel_ok s1 ys" "\<forall>x. view s1 x = countdown (view s x)" by blast
  from Suc.IH [OF 1(2), of "w @ cs"] 1 show ?case by (auto simp: funpow_Suc_right simp del: funpow.simps)
qed auto

lemma countdown_Some: "0 \<le> k \<Longrightarrow> countdown v = Some (k, f, d) \<longleftrightarrow> v = Some (k + 1, f, d)"
  by (auto simp: countdown_def split: option.splits)

lemma countdown_zero: "(countdown ^^ n) v = Some (0, f, d) \<longleftrightarrow> v = Some (int n, f, d)"
proof (induction n arbitrary: v)
  case (Suc n)
  have "(countdown ^^ Suc n) v = (countdown ^^ n) (countdown v)" by (simp add: funpow_Suc_right del: funpow.simps)
  with Suc countdown_Some [of "int n" v f d] show ?case by (simp add: add.commute)
qed simp

lemma countdown_None: "(countdown ^^ n) (Some (int r, f, d)) = None \<longleftrightarrow> r < n"
proof -
  have "(countdown ^^ n) (Some (int r, f, d)) = (if n \<le> r then Some (int (r - n), f, d) else None)"
    by (induction n) (auto simp: countdown_def)
  then show ?thesis by auto
qed

text \<open>
  C6. The moment a timer fires. add\_timer adds x with callback f, data d and the given timeout to a well-formed wheel;
  n ticks follow, and one more, tick n + 1. Every tick returns, and tick n + 1 calls any callback as
  often as timers of the wheel before the addition had n ticks to go, and the callback of x once more exactly when n is
  max(1, timeout): x fires in tick max(1, timeout) + 1 and in no other, one tick later than its timeout, and that
  tick frees it.
\<close>

theorem fires_in_tick:
  assumes "wheel_ok s xs" and "wheel s x = None" and "0 \<le> timeout" and "cur_slot s + max 1 timeout \<le> INT_MAX"
  shows "\<exists>s1 s2 s3 w2 cs. tw_add_timer x f d timeout s = Inr (Some x, s1) \<and>
    tw_ticks record_call n s1 w = Some (Inr (s2, w2)) \<and> tw_tick record_call s2 w2 = Some (Inr (s3, w2 @ cs)) \<and>
    (\<forall>g e. count_list cs (g, e) =
       card {y. view s y = Some (int n, g, e)} + (if (g, e) = (f, d) \<and> int n = max 1 timeout then 1 else 0)) \<and>
    (wheel s3 x = None \<longleftrightarrow> max 1 timeout \<le> int n)"
proof -
  from add_timer_counts [OF assms(1,2), of timeout f d] assms(3,4) obtain s1 ys where
    1: "tw_add_timer x f d timeout s = Inr (Some x, s1)" "wheel_ok s1 ys" "view s1 = (view s)(x \<mapsto> (max 1 timeout, f, d))"
    by (auto split: if_splits)
  from ticks_count_down [OF 1(2), of n w] obtain s2 zs w2 where
    2: "tw_ticks record_call n s1 w = Some (Inr (s2, w2))" "wheel_ok s2 zs" "\<forall>x. view s2 x = (countdown ^^ n) (view s1 x)" by blast
  from tick_calls [OF 2(2), of w2] obtain s3 us cs where
    3: "tw_tick record_call s2 w2 = Some (Inr (s3, w2 @ cs))" "\<forall>x. view s3 x = countdown (view s2 x)"
      "\<forall>g e. finite {y. view s2 y = Some (0, g, e)} \<and> count_list cs (g, e) = card {y. view s2 y = Some (0, g, e)}" by blast
  have nx: "view s x = None" using assms(2) by (simp add: view_def)
  have "count_list cs (g, e) =
      card {y. view s y = Some (int n, g, e)} + (if (g, e) = (f, d) \<and> int n = max 1 timeout then 1 else 0)" for g e
  proof -
    let ?old = "{y. view s y = Some (int n, g, e)}" and ?new = "if (g, e) = (f, d) \<and> int n = max 1 timeout then {x} else {}"
    have u: "{y. view s2 y = Some (0, g, e)} = ?old \<union> ?new" using nx by (auto simp: 2(3) countdown_zero 1(3))
    then have "finite ?old" using 3(3) by (metis finite_Un)
    then have "card (?old \<union> ?new) = card ?old + card ?new" using nx by (intro card_Un_disjoint) auto
    with u 3(3) show ?thesis by simp
  qed
  moreover have "wheel s3 x = None \<longleftrightarrow> max 1 timeout \<le> int n"
  proof -
    obtain r where r: "max 1 timeout = int r" by (metis int_nat_eq max.coboundedI1 zero_le_one)
    have "wheel s3 x = None \<longleftrightarrow> view s3 x = None" by (simp add: view_def)
    also have "view s3 x = (countdown ^^ Suc n) (Some (int r, f, d))" by (simp add: 3(2) 2(3) 1(3) r)
    also have "\<dots> = None \<longleftrightarrow> max 1 timeout \<le> int n" unfolding countdown_None r by linarith
    finally show ?thesis .
  qed
  ultimately show ?thesis using 1(1) 2(1) 3(1)
    by (intro exI [of _ s1] exI [of _ s2] exI [of _ s3] exI [of _ w2] exI [of _ cs] conjI allI)
qed

text \<open>A timer added with timeout 2 to a wheel that has one with 5 ticks to go: tick 3 calls its callback.\<close>

lemma fires_in_tick_witness:
  "\<exists>s1 s2 s3 w2 cs. tw_add_timer 9 0 8 2 one_timer = Inr (Some 9, s1) \<and>
    tw_ticks record_call 2 s1 [] = Some (Inr (s2, w2)) \<and> tw_tick record_call s2 w2 = Some (Inr (s3, w2 @ cs)) \<and>
    count_list cs (0, 8) = 1 \<and> wheel s3 9 = None"
proof -
  have v: "view one_timer = [1 \<mapsto> (5, 0, 7)]"
    by (rule ext) (simp add: view_def core_def one_timer_def new_wheel_def left_at_def TW_N_def)
  then have "{y. view one_timer y = Some (2, 0, 8)} = {}" by auto
  moreover have "wheel one_timer 9 = None" "cur_slot one_timer + max 1 2 \<le> INT_MAX"
    by (simp_all add: one_timer_def new_wheel_def INT_MAX_def)
  ultimately show ?thesis using fires_in_tick [OF wheel_ok_one_timer, of 9 2 0 8 2 "[]"] by fastforce
qed

text \<open>
  The destructor returns without undefined behaviour, frees every timer of every slot exactly once and
  leaves no slot pointing to one.
\<close>

theorem wheel_delete_frees:
  assumes "wheel_ok s xs"
  shows "\<exists>s'. tw_delete s = Some (Inr s') \<and> wheel s' = Map.empty \<and> slots s' = replicate (nat TW_N) None"
  by (rule tw_delete_correct [OF assms])

lemma wheel_delete_frees_witness: "\<exists>s'. tw_delete one_timer = Some (Inr s') \<and> wheel s' 1 = None"
  using wheel_delete_frees [OF wheel_ok_one_timer] by auto

end
