(* ===== verification/Time_Heap.thy ===== *)
theory Time_Heap
  imports Linked_Lists "HOL-Library.Multiset" "HOL-Library.Signed_Division"
begin

text \<open>
  The timer heap of \<^verbatim>\<open>src/src/include/time_heap.h\<close>. The header does not compile as it stands
  (\<open>std::execption\<close>, a missing semicolon in resize, a call of the non-const empty in the const
  top); it is modelled with these slips of syntax corrected and everything else as written. The second
  constructor initialises members with a variable cap that is declared nowhere; its value is an
  argument of the model. The array of pointers is a
  block of memory of its own, so that the \<open>delete[]\<close> in resize can be followed.
\<close>

section \<open>The model\<close>

record heap_timer =
  h_expire :: int
  h_cb :: "nat option"
  h_data :: nat

text \<open>An element of a new array is None until it is assigned.\<close>

type_synonym cells = "ptr option list"

record time_heap =
  arr :: nat
  capacity :: int
  cur_size :: int
  blocks :: "nat \<rightharpoonup> cells"
  h_timers :: "heap_timer heap"

definition arr_get :: "int \<Rightarrow> time_heap \<Rightarrow> ptr res" where
  "arr_get i s = (case blocks s (arr s) of None \<Rightarrow> Inl UseAfterFree
     | Some b \<Rightarrow> if 0 \<le> i \<and> i < int (length b)
                then (case b ! nat i of None \<Rightarrow> Inl UninitRead | Some p \<Rightarrow> Inr p) else Inl OutOfBounds)"

definition arr_set :: "int \<Rightarrow> ptr \<Rightarrow> time_heap \<Rightarrow> time_heap res" where
  "arr_set i p s = (case blocks s (arr s) of None \<Rightarrow> Inl UseAfterFree
     | Some b \<Rightarrow> if 0 \<le> i \<and> i < int (length b)
                then Inr (s\<lparr>blocks := (blocks s)(arr s \<mapsto> b[nat i := Some p])\<rparr>) else Inl OutOfBounds)"

definition arr_expire :: "int \<Rightarrow> time_heap \<Rightarrow> int res" where
  "arr_expire i s = bind_res (arr_get i s) (\<lambda>p. map_res h_expire (load (h_timers s) p))"

text \<open>The constructor; the new array is the block a. A negative size makes new throw (None).\<close>

definition new_heap :: "nat \<Rightarrow> int \<Rightarrow> heap_timer heap \<Rightarrow> time_heap option" where
  "new_heap a cap h =
     (if cap < 0 then None
      else Some \<lparr>arr = a, capacity = cap, cur_size = 0, blocks = [a \<mapsto> replicate (nat cap) (Some None)], h_timers = h\<rparr>)"

definition heap_empty :: "time_heap \<Rightarrow> bool" where
  "heap_empty s \<longleftrightarrow> cur_size s = 0"

definition top :: "time_heap \<Rightarrow> ptr res" where
  "top s = (if heap_empty s then Inr None else arr_get 0 s)"

text \<open>
  resize: the old array is deleted, and the member set to the new one, inside the loop that copies. The
  new array is the block a.
\<close>

definition delete_array :: "nat \<Rightarrow> time_heap \<Rightarrow> time_heap res" where
  "delete_array a s = (case blocks s a of None \<Rightarrow> Inl UseAfterFree | Some _ \<Rightarrow> Inr (s\<lparr>blocks := (blocks s)(a := None)\<rparr>))"

definition set_new :: "nat \<Rightarrow> int \<Rightarrow> ptr \<Rightarrow> time_heap \<Rightarrow> time_heap res" where
  "set_new a i p s = map_res (\<lambda>s'. s'\<lparr>arr := arr s\<rparr>) (arr_set i p (s\<lparr>arr := a\<rparr>))"

fun resize_loop :: "nat \<Rightarrow> int list \<Rightarrow> time_heap \<Rightarrow> time_heap res" where
  "resize_loop a [] s = Inr s"
| "resize_loop a (i # is) s =
     bind_res (if i < cur_size s then bind_res (arr_get i s) (\<lambda>p. set_new a i p s) else set_new a i None s) (\<lambda>s1.
     bind_res (delete_array (arr s1) s1) (\<lambda>s2.
     resize_loop a is (s2\<lparr>arr := a\<rparr>)))"

definition resize :: "nat \<Rightarrow> time_heap \<Rightarrow> time_heap res" where
  "resize a s =
     bind_res (if capacity s * 2 \<le> INT_MAX then Inr (capacity s * 2) else Inl SignedOverflow) (\<lambda>cap.
     resize_loop a [0..cap - 1]
       (s\<lparr>capacity := cap, blocks := (blocks s)(a \<mapsto> replicate (nat cap) None)\<rparr>))"

text \<open>add\_timer: the index of the parent is computed from the size and not from the hole.\<close>

partial_function (option) add_loop :: "int \<Rightarrow> nat \<Rightarrow> time_heap \<Rightarrow> time_heap res option" where
  "add_loop hole x s =
     (if hole > 0 then
        let parent = (cur_size s - 1) div 2 in
        (case bind_res (arr_expire parent s) (\<lambda>e. bind_res (load (h_timers s) (Some x)) (\<lambda>t. Inr (e > h_expire t))) of
           Inl u \<Rightarrow> Some (Inl u)
         | Inr later \<Rightarrow>
             if later then
               (case bind_res (arr_get parent s) (\<lambda>p. arr_set hole p s) of
                  Inl u \<Rightarrow> Some (Inl u)
                | Inr s1 \<Rightarrow> add_loop parent x s1)
             else Some (arr_set hole (Some x) s))
      else Some (arr_set hole (Some x) s))"

declare add_loop.simps [code]

definition heap_add :: "nat \<Rightarrow> ptr \<Rightarrow> time_heap \<Rightarrow> time_heap res option" where
  "heap_add a timer s =
     (case timer of
        None \<Rightarrow> Some (Inr s)
      | Some x \<Rightarrow>
          bind_run (Some (if cur_size s \<ge> capacity s then resize a s else Inr s)) (\<lambda>s1.
          add_loop (cur_size s1) x (s1\<lparr>cur_size := cur_size s1 + 1\<rparr>)))"

definition heap_del :: "ptr \<Rightarrow> time_heap \<Rightarrow> time_heap res" where
  "heap_del timer s =
     (if timer = None then Inr s
      else map_res (\<lambda>h. s\<lparr>h_timers := h\<rparr>) (store (h_timers s) timer (\<lambda>t. t\<lparr>h_cb := None\<rparr>)))"

text \<open>
  precolate\_down: the loop tests the child of the last round; the next child is computed in the body and
  not compared with the size before it is read.
\<close>

definition next_child :: "int \<Rightarrow> time_heap \<Rightarrow> int res" where
  "next_child pos s =
     (let child = 2 * pos + 1 in
      if child < cur_size s - 1
      then bind_res (arr_expire child s) (\<lambda>e1. bind_res (arr_expire (child + 1) s) (\<lambda>e2.
           Inr (if e1 > e2 then child + 1 else child)))
      else Inr child)"

definition move_up :: "int \<Rightarrow> int \<Rightarrow> time_heap \<Rightarrow> (bool \<times> time_heap) res" where
  "move_up pos child s =
     bind_res (arr_expire child s) (\<lambda>e1. bind_res (arr_expire pos s) (\<lambda>e2.
     if e1 < e2 then bind_res (arr_get child s) (\<lambda>p. map_res (Pair True) (arr_set pos p s)) else Inr (False, s)))"

partial_function (option) sift_loop :: "int \<Rightarrow> int \<Rightarrow> time_heap \<Rightarrow> (int \<times> time_heap) res option" where
  "sift_loop pos child s =
     (if child < cur_size s then
        (case bind_res (next_child pos s) (\<lambda>child. map_res (Pair child) (move_up pos child s)) of
           Inl u \<Rightarrow> Some (Inl u)
         | Inr (child, moved, s1) \<Rightarrow> if moved then sift_loop child child s1 else Some (Inr (pos, s1)))
      else Some (Inr (pos, s)))"

declare sift_loop.simps [code]

definition precolate_down :: "int \<Rightarrow> time_heap \<Rightarrow> time_heap res option" where
  "precolate_down pos s =
     (if pos < 0 \<or> pos \<ge> cur_size s then Some (Inr s)
      else bind_run (Some (arr_get pos s)) (\<lambda>tmp.
           bind_run (sift_loop pos (2 * pos + 1) s) (\<lambda>(p, s1).
           Some (arr_set p tmp s1))))"

text \<open>
  The constructor from an array of timers: cap is the undeclared variable, the parameters len and limit
  bound the array. The inner option is None when it throws, and so does new on a negative size.
\<close>

fun assign_cells :: "(int \<Rightarrow> ptr res) \<Rightarrow> int list \<Rightarrow> time_heap \<Rightarrow> time_heap res" where
  "assign_cells f [] s = Inr s"
| "assign_cells f (i # is) s = bind_res (f i) (\<lambda>p. bind_res (arr_set i p s) (assign_cells f is))"

fun sift_all :: "int list \<Rightarrow> time_heap \<Rightarrow> time_heap res option" where
  "sift_all [] s = Some (Inr s)"
| "sift_all (i # is) s = bind_run (precolate_down i s) (sift_all is)"

definition element_of :: "ptr list \<Rightarrow> int \<Rightarrow> ptr res" where
  "element_of xs i = (if 0 \<le> i \<and> i < int (length xs) then Inr (xs ! nat i) else Inl OutOfBounds)"

definition heap_of :: "int \<Rightarrow> nat \<Rightarrow> ptr list \<Rightarrow> int \<Rightarrow> int \<Rightarrow> heap_timer heap \<Rightarrow> time_heap option res option" where
  "heap_of cap a cur_array len limit h =
     (if limit < len \<or> limit < 0 then Some (Inr None)
      else
        bind_run (Some (assign_cells (\<lambda>i. Inr None) [0..cap - 1]
          \<lparr>arr = a, capacity = cap, cur_size = cap, blocks = [a \<mapsto> replicate (nat limit) None], h_timers = h\<rparr>)) (\<lambda>s.
        map_option (map_res Some) (if len = 0 then Some (Inr s)
          else bind_run (Some (assign_cells (element_of cur_array) [0..len - 1] s)) (\<lambda>s1.
               sift_all (rev [0..(cur_size s1 - 1) sdiv 2]) s1))))"

definition pop_timer :: "time_heap \<Rightarrow> time_heap res option" where
  "pop_timer s =
     (if heap_empty s then Some (Inr s)
      else bind_run (Some (arr_get 0 s)) (\<lambda>first.
        if first = None then Some (Inr s)
        else
          bind_run (Some (map_res (\<lambda>h. s\<lparr>h_timers := h, cur_size := cur_size s - 1\<rparr>) (free (h_timers s) first))) (\<lambda>s1.
          bind_run (Some (bind_res (arr_get (cur_size s1) s1) (\<lambda>last. arr_set 0 last s1))) (\<lambda>s2.
          precolate_down 0 s2))))"

text \<open>tick reads the first element before it looks whether there is one.\<close>

partial_function (option) heap_tick_loop ::
  "(nat \<Rightarrow> nat \<Rightarrow> 'w \<Rightarrow> 'w) \<Rightarrow> int \<Rightarrow> ptr \<Rightarrow> time_heap \<Rightarrow> 'w \<Rightarrow> (time_heap \<times> 'w) res option" where
  "heap_tick_loop call cur tmp s w =
     (if heap_empty s \<or> tmp = None then Some (Inr (s, w))
      else case bind_res (load (h_timers s) tmp) (\<lambda>t.
                if h_expire t > cur then Inr None
                else bind_res (arr_get 0 s) (\<lambda>first. bind_res (load (h_timers s) first) (\<lambda>f.
                     Inr (Some (case h_cb f of None \<Rightarrow> w | Some cb \<Rightarrow> call cb (h_data t) w))))) of
        Inl u \<Rightarrow> Some (Inl u)
      | Inr None \<Rightarrow> Some (Inr (s, w))
      | Inr (Some w1) \<Rightarrow>
          (case pop_timer s of
             None \<Rightarrow> None
           | Some (Inl u) \<Rightarrow> Some (Inl u)
           | Some (Inr s1) \<Rightarrow>
               (case arr_get 0 s1 of
                  Inl u \<Rightarrow> Some (Inl u)
                | Inr tmp1 \<Rightarrow> heap_tick_loop call cur tmp1 s1 w1)))"

declare heap_tick_loop.simps [code]

definition heap_tick :: "(nat \<Rightarrow> nat \<Rightarrow> 'w \<Rightarrow> 'w) \<Rightarrow> int \<Rightarrow> time_heap \<Rightarrow> 'w \<Rightarrow> (time_heap \<times> 'w) res option" where
  "heap_tick call cur s w = bind_run (Some (arr_get 0 s)) (\<lambda>tmp. heap_tick_loop call cur tmp s w)"

text \<open>The destructor.\<close>

fun delete_timers :: "int list \<Rightarrow> time_heap \<Rightarrow> time_heap res" where
  "delete_timers [] s = Inr s"
| "delete_timers (i # is) s =
     bind_res (arr_get i s) (\<lambda>p. bind_res (free (h_timers s) p) (\<lambda>h. delete_timers is (s\<lparr>h_timers := h\<rparr>)))"

definition delete_heap :: "time_heap \<Rightarrow> time_heap res" where
  "delete_heap s = bind_res (delete_timers [0..cur_size s - 1] s) (\<lambda>s1. delete_array (arr s1) s1)"

section \<open>The represented array\<close>

text \<open>
  The first cur\_size elements point to the timers xs; the elements behind them are the cells rest: null
  as the constructor left them, or what a pop left behind.
\<close>

definition holds_heap :: "time_heap \<Rightarrow> nat list \<Rightarrow> cells \<Rightarrow> bool" where
  "holds_heap s xs rest \<longleftrightarrow> cur_size s = int (length xs) \<and> capacity s = int (length xs + length rest) \<and>
     blocks s (arr s) = Some (map (\<lambda>x. Some (Some x)) xs @ rest) \<and> distinct xs \<and> set xs \<subseteq> dom (h_timers s)"

definition heap_key :: "time_heap \<Rightarrow> nat \<Rightarrow> int" where
  "heap_key s x = (case h_timers s x of None \<Rightarrow> 0 | Some t \<Rightarrow> h_expire t)"

definition heap_ordered :: "(nat \<Rightarrow> int) \<Rightarrow> nat list \<Rightarrow> bool" where
  "heap_ordered key xs \<longleftrightarrow> (\<forall>i < length xs. 0 < i \<longrightarrow> key (xs ! ((i - 1) div 2)) \<le> key (xs ! i))"

lemma holds_load:
  assumes "holds_heap s xs rest" and "x \<in> set xs"
  shows "\<exists>t. h_timers s x = Some t \<and> h_expire t = heap_key s x"
  using assms by (auto simp: holds_heap_def heap_key_def)

lemma arr_get_holds:
  assumes "holds_heap s xs rest" and "0 \<le> i" and "i < int (length xs)"
  shows "arr_get i s = Inr (Some (xs ! nat i))"
  using assms by (auto simp: arr_get_def holds_heap_def nth_append)

lemma arr_expire_holds:
  assumes "holds_heap s xs rest" and "0 \<le> i" and "i < int (length xs)"
  shows "arr_expire i s = Inr (heap_key s (xs ! nat i))"
proof -
  have "xs ! nat i \<in> set xs" using assms by simp
  from holds_load [OF assms(1) this] arr_get_holds [OF assms] show ?thesis by (auto simp: arr_expire_def)
qed

lemma arr_get_block:
  assumes "blocks s (arr s) = Some b" and "0 \<le> i" and "i < int (length b)" and "b ! nat i = Some p"
  shows "arr_get i s = Inr p"
  using assms by (simp add: arr_get_def)

lemma arr_set_block:
  assumes "blocks s (arr s) = Some b" and "0 \<le> i" and "i < int (length b)"
  shows "arr_set i p s = Inr (s\<lparr>blocks := (blocks s)(arr s \<mapsto> b[nat i := Some p])\<rparr>)"
  using assms by (simp add: arr_set_def)

section \<open>Adding\<close>

text \<open>The hole has reached the parent that every round computes, and its timer expires later.\<close>

definition add_stuck :: "int \<Rightarrow> nat \<Rightarrow> time_heap \<Rightarrow> bool" where
  "add_stuck hole x s \<longleftrightarrow> 0 < hole \<and> hole = (cur_size s - 1) div 2 \<and>
     (\<exists>p e t. arr_get hole s = Inr p \<and> arr_expire hole s = Inr e \<and> h_timers s x = Some t \<and> h_expire t < e \<and>
        arr_set hole p s = Inr s)"

lemma add_loop_stuck:
  assumes "add_stuck hole x s"
  shows "add_loop hole x s = None"
proof (rule ccontr)
  assume "add_loop hole x s \<noteq> None"
  then obtain r where r: "add_loop hole x s = Some r" by blast
  have "\<not> add_stuck hole x s"
  proof (rule add_loop.raw_induct
      [where P = "\<lambda>hole x s r. \<not> add_stuck hole x s" and xa = "((hole, x), s)", unfolded prod.case, OF _ r])
    fix f :: "int \<Rightarrow> nat \<Rightarrow> time_heap \<Rightarrow> time_heap res option"
    fix hole x s r
    assume IH: "\<And>hole x s r. f hole x s = Some r \<Longrightarrow> \<not> add_stuck hole x s"
      and body: "(if hole > 0 then
        let parent = (cur_size s - 1) div 2 in
        (case bind_res (arr_expire parent s) (\<lambda>e. bind_res (load (h_timers s) (Some x)) (\<lambda>t. Inr (e > h_expire t))) of
           Inl u \<Rightarrow> Some (Inl u)
         | Inr later \<Rightarrow>
             if later then
               (case bind_res (arr_get parent s) (\<lambda>p. arr_set hole p s) of
                  Inl u \<Rightarrow> Some (Inl u)
                | Inr s1 \<Rightarrow> f parent x s1)
             else Some (arr_set hole (Some x) s))
      else Some (arr_set hole (Some x) s)) = Some r"
    show "\<not> add_stuck hole x s"
    proof
      assume st: "add_stuck hole x s"
      then obtain p e t where ps: "0 < hole" "(cur_size s - 1) div 2 = hole" "arr_get hole s = Inr p" "arr_expire hole s = Inr e"
        "h_timers s x = Some t" "h_expire t < e" "arr_set hole p s = Inr s" unfolding add_stuck_def by metis
      have "f hole x s = Some r" using body ps(1,3-) unfolding Let_def ps(2) by simp
      with IH st show False by blast
    qed
  qed
  with assms show False by blast
qed

lemma holds_add:
  assumes "holds_heap s xs (c # rest)" and "x \<notin> set xs" and "h_timers s x = Some t"
  shows "\<exists>s'. arr_set (int (length xs)) (Some x) (s\<lparr>cur_size := cur_size s + 1\<rparr>) = Inr s' \<and>
    holds_heap s' (xs @ [x]) rest \<and> h_timers s' = h_timers s"
proof -
  let ?s = "s\<lparr>cur_size := cur_size s + 1\<rparr>"
  have b: "blocks ?s (arr ?s) = Some (map (\<lambda>x. Some (Some x)) xs @ c # rest)"
    using assms(1) by (simp add: holds_heap_def)
  from arr_set_block [OF b, of "int (length xs)" "Some x"] show ?thesis
    using assms by (auto simp: holds_heap_def list_update_append)
qed

lemma heap_add_correct:
  assumes h: "holds_heap s xs (c # rest)" and x: "x \<notin> set xs" "h_timers s x = Some t"
  shows "if xs = [] \<or> heap_key s (xs ! (length xs div 2)) \<le> heap_key s x
    then \<exists>s'. heap_add a (Some x) s = Some (Inr s') \<and> holds_heap s' (xs @ [x]) rest \<and> h_timers s' = h_timers s
    else if length xs = 1
    then \<exists>s'. heap_add a (Some x) s = Some (Inr s') \<and> holds_heap s' (x # xs) rest \<and> h_timers s' = h_timers s
    else heap_add a (Some x) s = None"
proof -
  let ?n = "length xs"
  let ?s = "s\<lparr>cur_size := cur_size s + 1\<rparr>"
  have sz: "cur_size s = int ?n" "cur_size s < capacity s" using h by (simp_all add: holds_heap_def)
  have add: "heap_add a (Some x) s = add_loop (int ?n) x ?s" using sz by (simp add: heap_add_def)
  have par: "(cur_size ?s - 1) div 2 = int (?n div 2)" using sz(1) by simp
  have key: "h_expire t = heap_key s x" using x(2) by (simp add: heap_key_def)
  obtain s' where s': "arr_set (int ?n) (Some x) ?s = Inr s'" "holds_heap s' (xs @ [x]) rest" "h_timers s' = h_timers s"
    using holds_add [OF h x] by blast
  have ex: "arr_expire (int i) ?s = Inr (heap_key s (xs ! i))" "arr_get (int i) ?s = Inr (Some (xs ! i))" if "i < ?n" for i
    using arr_expire_holds [OF h, of "int i"] arr_get_holds [OF h, of "int i"] that
    by (simp_all add: arr_expire_def arr_get_def)
  show ?thesis
  proof (cases "xs = [] \<or> heap_key s (xs ! (?n div 2)) \<le> heap_key s x")
    case True
    have "heap_add a (Some x) s = Some (Inr s')"
    proof (cases "xs = []")
      case True
      then show ?thesis using s'(1) unfolding add by (subst add_loop.simps) simp
    next
      case False
      with True have le: "heap_key s (xs ! (?n div 2)) \<le> heap_key s x" and "?n div 2 < ?n" by auto
      with ex x(2) key s'(1) False show ?thesis unfolding add
        by (subst add_loop.simps) (simp only: par Let_def, simp)
    qed
    with True s' show ?thesis by auto
  next
    case False
    then have ne: "xs \<noteq> []" and gt: "heap_key s x < heap_key s (xs ! (?n div 2))" by auto
    let ?p = "xs ! (?n div 2)"
    let ?b = "map (\<lambda>x. Some (Some x)) xs @ Some (Some ?p) # rest"
    let ?s1 = "?s\<lparr>blocks := (blocks s)(arr s \<mapsto> ?b)\<rparr>"
    have pos: "0 < ?n" "?n div 2 < ?n" using ne by simp_all
    have set1: "arr_set (int ?n) (Some ?p) ?s = Inr ?s1"
      using h by (simp add: arr_set_def holds_heap_def list_update_append)
    have step: "add_loop (int ?n) x ?s = add_loop (int (?n div 2)) x ?s1"
      using ex [OF pos(2)] x(2) key gt pos(1) set1
      by (subst add_loop.simps) (simp only: par Let_def, simp)
    show ?thesis
    proof (cases "?n = 1")
      case True
      then obtain y where y: "xs = [y]" by (cases xs) auto
      have "add_loop 0 x ?s1 = Some (arr_set 0 (Some x) ?s1)" by (subst add_loop.simps) simp
      moreover have "arr_set 0 (Some x) ?s1 = Inr (?s1\<lparr>blocks := (blocks s)(arr s \<mapsto> Some (Some x) # Some (Some y) # rest)\<rparr>)"
        using y by (simp add: arr_set_def)
      moreover have "holds_heap (?s1\<lparr>blocks := (blocks s)(arr s \<mapsto> Some (Some x) # Some (Some y) # rest)\<rparr>) (x # xs) rest"
        using h x y by (auto simp: holds_heap_def)
      ultimately show ?thesis using False True y step add by simp
    next
      case False
      then have n2: "0 < ?n div 2" using pos(1) by (cases "length xs") (auto simp: div_greater_zero_iff)
      have nth: "?b ! (?n div 2) = Some (Some ?p)" using pos(2) by (simp add: nth_append)
      have "?b[?n div 2 := Some (Some ?p)] = ?b" using nth by (metis list_update_id)
      then have "arr_set (int (?n div 2)) (Some ?p) ?s1 = Inr ?s1" using pos(2) by (simp add: arr_set_def)
      moreover have g: "arr_get (int (?n div 2)) ?s1 = Inr (Some ?p)" using pos(2) nth by (simp add: arr_get_def)
      moreover have "arr_expire (int (?n div 2)) ?s1 = Inr (heap_key s ?p)"
        using g holds_load [OF h, of ?p] pos(2) by (auto simp: arr_expire_def)
      ultimately have "add_stuck (int (?n div 2)) x ?s1"
        unfolding add_stuck_def using n2 par x(2) key gt by auto
      then show ?thesis using add_loop_stuck False step add \<open>\<not> (xs = [] \<or> _)\<close> by simp
    qed
  qed
qed

lemma resize_loop_two:
  assumes "blocks s (arr s) = Some (Some p # b)" and "blocks s a = Some (None # None # l)" and "a \<noteq> arr s"
    and "2 \<le> cur_size s"
  shows "resize_loop a (0 # 1 # is) s = Inl UninitRead"
  using assms by (simp add: arr_get_def set_new_def arr_set_def delete_array_def)

text \<open>A full heap: resize deletes the array it has just installed.\<close>

lemma heap_add_full:
  assumes h: "holds_heap s xs []" and a: "a \<noteq> arr s" and x: "h_timers s x = Some t"
  shows "heap_add a (Some x) s = Some (Inl (if xs = [] then OutOfBounds else if INT_MAX < 2 * int (length xs) then SignedOverflow
    else if length xs = 1 then UseAfterFree else UninitRead))"
proof -
  let ?n = "length xs"
  have sz: "cur_size s = int ?n" "capacity s = int ?n"
    and b: "blocks s (arr s) = Some (map (\<lambda>x. Some (Some x)) xs)" using h by (simp_all add: holds_heap_def)
  have add: "heap_add a (Some x) s = bind_run (Some (resize a s)) (\<lambda>s1.
      add_loop (cur_size s1) x (s1\<lparr>cur_size := cur_size s1 + 1\<rparr>))" using sz by (simp add: heap_add_def)
  consider "xs = []" | "INT_MAX < 2 * int ?n" "xs \<noteq> []" | y where "xs = [y]" | "2 \<le> ?n" "2 * int ?n \<le> INT_MAX"
    by (cases xs; cases "tl xs") (auto, linarith)
  then show ?thesis
  proof cases
    case 1
    let ?s = "s\<lparr>capacity := 0, blocks := (blocks s)(a \<mapsto> [])\<rparr>"
    have "resize a s = Inr ?s" using 1 sz by (simp add: resize_def INT_MAX_def)
    moreover have "add_loop 0 x (?s\<lparr>cur_size := 1\<rparr>) = Some (Inl OutOfBounds)"
      using 1 b a by (subst add_loop.simps) (simp add: arr_set_def)
    ultimately show ?thesis using 1 sz unfolding add by simp
  next
    case 2
    then show ?thesis using sz unfolding add by (simp add: resize_def)
  next
    case 3
    have up: "[0..1] = [0, 1 :: int]" by (simp add: upto.simps)
    let ?s = "s\<lparr>capacity := 2, blocks := (blocks s)(a := None, arr s := None), arr := a\<rparr>"
    have "resize a s = Inr ?s" using 3 sz b a
      by (simp add: resize_def INT_MAX_def up arr_get_def set_new_def arr_set_def delete_array_def numeral_2_eq_2 fun_upd_twist)
    moreover have "add_loop 1 x (?s\<lparr>cur_size := 2\<rparr>) = Some (Inl UseAfterFree)"
      using 3 a by (subst add_loop.simps) (simp add: arr_expire_def arr_get_def)
    ultimately show ?thesis using 3 sz unfolding add by (simp add: INT_MAX_def)
  next
    case 4
    obtain y z ys where xs: "xs = y # z # ys" using 4(1) by (cases xs; cases "tl xs") auto
    obtain k where k: "nat (2 * int ?n) = Suc (Suc k)" using 4(1) by (cases "nat (2 * int ?n)"; cases "nat (2 * int ?n) - 1") auto
    have up: "[0..2 * int ?n - 1] = 0 # 1 # [2..2 * int ?n - 1]"
    proof -
      have "0 \<le> 2 * int ?n - 1" "0 + 1 \<le> 2 * int ?n - 1" using 4(1) by linarith+
      then have "[0..2 * int ?n - 1] = 0 # (0 + 1) # [0 + 1 + 1..2 * int ?n - 1]" by (simp only: upto_rec1)
      then show ?thesis by (simp only: add_0_left one_add_one)
    qed
    let ?cap = "2 * int ?n"
    let ?s = "s\<lparr>capacity := ?cap, blocks := (blocks s)(a \<mapsto> replicate (nat ?cap) None)\<rparr>"
    have "resize_loop a (0 # 1 # [2..?cap - 1]) ?s = Inl UninitRead"
      by (rule resize_loop_two) (use a b k sz 4(1) in \<open>simp_all add: xs\<close>)
    moreover have "capacity s * 2 = ?cap" using sz by simp
    ultimately have "resize a s = Inl UninitRead" using 4(2) by (simp only: resize_def up if_True bind_res_simps)
    moreover have "xs \<noteq> []" using xs by simp
    ultimately show ?thesis using 4 unfolding add by simp
  qed
qed

section \<open>Popping\<close>

abbreviation cells_of :: "nat list \<Rightarrow> cells" where
  "cells_of \<equiv> map (\<lambda>x. Some (Some x))"

lemma arr_get_cells:
  assumes "blocks s (arr s) = Some (cells_of xs @ rest)" and "i < length xs"
  shows "arr_get (int i) s = Inr (Some (xs ! i))"
  using assms by (simp add: arr_get_def nth_append)

lemma arr_expire_cells:
  assumes "blocks s (arr s) = Some (cells_of xs @ rest)" and "i < length xs" and "set xs \<subseteq> dom (h_timers s)"
  shows "arr_expire (int i) s = Inr (heap_key s (xs ! i))"
proof -
  have "xs ! i \<in> set xs" using assms(2) by simp
  then have "xs ! i \<in> dom (h_timers s)" using assms(3) by blast
  with arr_get_cells [OF assms(1,2)] show ?thesis by (auto simp: arr_expire_def heap_key_def)
qed

lemma arr_set_cells:
  assumes "blocks s (arr s) = Some (cells_of xs @ rest)" and "i < length xs"
  shows "arr_set (int i) (Some x) s = Inr (s\<lparr>blocks := (blocks s)(arr s \<mapsto> cells_of (xs[i := x]) @ rest)\<rparr>)"
  using assms by (simp add: arr_set_def list_update_append map_update)

text \<open>The child the root is compared with.\<close>

definition small_child :: "(nat \<Rightarrow> int) \<Rightarrow> nat list \<Rightarrow> nat \<Rightarrow> nat" where
  "small_child key xs p = (if 2 * p + 2 < length xs \<and> key (xs ! (2 * p + 2)) < key (xs ! (2 * p + 1)) then 2 * p + 2 else 2 * p + 1)"

text \<open>One round of the loop at p, as long as it stays within the array ws and what lies one behind it.\<close>

lemma sift_round:
  assumes b: "blocks s (arr s) = Some (cells_of (ws @ [t]) @ rest)" and dom: "set (ws @ [t]) \<subseteq> dom (h_timers s)"
    and sz: "cur_size s = int (length ws)" and ch: "ch < length ws" and p: "2 * p + 1 \<le> length ws"
    and c: "c = small_child (heap_key s) ws p"
  shows "sift_loop (int p) (int ch) s =
    (if heap_key s ((ws @ [t]) ! c) < heap_key s (ws ! p)
     then sift_loop (int c) (int c) (s\<lparr>blocks := (blocks s)(arr s \<mapsto> cells_of (ws[p := (ws @ [t]) ! c] @ [t]) @ rest)\<rparr>)
     else Some (Inr (int p, s)))"
proof -
  let ?ws = "ws @ [t]"
  have ex: "arr_expire (int i) s = Inr (heap_key s (?ws ! i))" if "i \<le> length ws" for i
    using arr_expire_cells [OF b _ dom, of i] that by simp
  have pl: "p < length ws" using p by linarith
  have cl: "c \<le> length ws" using c p by (auto simp: small_child_def)
  have e: "2 * int p + 1 = int (2 * p + 1)" "int (2 * p + 1) + 1 = int (2 * p + 2)" by simp_all
  have nth: "?ws ! (2 * p + 1) = ws ! (2 * p + 1)" "?ws ! (2 * p + 2) = ws ! (2 * p + 2)" if "2 * p + 2 < length ws"
    using that by (simp_all add: nth_append)
  have child: "next_child (int p) s = Inr (int c)"
  proof (cases "2 * p + 2 < length ws")
    case True
    then show ?thesis using ex [of "2 * p + 1"] ex [of "2 * p + 2"] nth sz
      unfolding next_child_def Let_def e by (simp add: c small_child_def)
  next
    case False
    then show ?thesis using sz unfolding next_child_def Let_def e by (simp add: c small_child_def)
  qed
  have "?ws ! p = ws ! p" using pl by (simp add: nth_append)
  then have mv: "move_up (int p) (int c) s = (if heap_key s (?ws ! c) < heap_key s (ws ! p)
      then Inr (True, s\<lparr>blocks := (blocks s)(arr s \<mapsto> cells_of (ws[p := ?ws ! c] @ [t]) @ rest)\<rparr>) else Inr (False, s))"
    using ex [OF cl] ex [of p] pl arr_get_cells [OF b, of c] arr_set_cells [OF b, of p "?ws ! c"] cl
    by (simp add: move_up_def list_update_append)
  have "int ch < cur_size s" using ch sz by simp
  then show ?thesis unfolding sift_loop.simps [of "int p" "int ch" s] child by (simp add: mv)
qed


text \<open>Past the element behind the array the loop reads what lies there.\<close>

lemma sift_round_outside:
  assumes b: "blocks s (arr s) = Some (cells_of ws @ rest)" and sz: "int (length ws) = cur_size s + 1"
    and ch: "int ch < cur_size s" and p: "length ws < 2 * p + 2"
    and cell: "2 * p + 1 - length ws < length rest \<longrightarrow> rest ! (2 * p + 1 - length ws) = Some None"
  shows "sift_loop (int p) (int ch) s =
    Some (Inl (if 2 * p + 1 - length ws < length rest then NullDeref else OutOfBounds))"
proof -
  define k where "k = 2 * p + 1"
  have e: "2 * int p + 1 = int k" by (simp add: k_def)
  have child: "next_child (int p) s = Inr (int k)"
    using p sz unfolding next_child_def Let_def e by (simp add: k_def)
  have lk: "length ws \<le> k" using p by (simp add: k_def)
  then have "(cells_of ws @ rest) ! k = rest ! (k - length ws)" by (simp add: nth_append)
  then have "arr_expire (int k) s = Inl (if k - length ws < length rest then NullDeref else OutOfBounds)"
    using b lk cell [folded k_def] by (auto simp: arr_expire_def arr_get_def)
  then have "move_up (int p) (int k) s = Inl (if k - length ws < length rest then NullDeref else OutOfBounds)"
    by (simp add: move_up_def)
  then show ?thesis using ch unfolding sift_loop.simps [of "int p" "int ch" s] child by (simp add: k_def)
qed

lemma pop_prepare:
  assumes h: "holds_heap s (x # us @ [t]) rest"
  defines "s2 \<equiv> s\<lparr>h_timers := (h_timers s)(x := None), cur_size := int (Suc (length us)),
    blocks := (blocks s)(arr s \<mapsto> cells_of ((t # us) @ [t]) @ rest)\<rparr>"
  shows "pop_timer s = precolate_down 0 s2"
proof -
  have b: "blocks s (arr s) = Some (cells_of (x # us @ [t]) @ rest)" and sz: "cur_size s = int (length us + 2)"
    using h by (simp_all add: holds_heap_def)
  obtain tx where tx: "h_timers s x = Some tx" using h by (auto simp: holds_heap_def)
  let ?s1 = "s\<lparr>h_timers := (h_timers s)(x := None), cur_size := cur_size s - 1\<rparr>"
  have g0: "arr_get 0 s = Inr (Some x)" using arr_get_cells [OF b, of 0] by simp
  have b1: "blocks ?s1 (arr ?s1) = Some (cells_of (x # us @ [t]) @ rest)" using b by simp
  have g1: "arr_get (cur_size ?s1) ?s1 = Inr (Some t)"
    using arr_get_cells [OF b1, of "Suc (length us)"] sz by (simp add: nth_append)
  have "arr_set 0 (Some t) ?s1 = Inr s2"
    using arr_set_cells [OF b1, of 0 t] sz by (simp add: s2_def)
  then show ?thesis using g0 g1 tx sz by (simp add: pop_timer_def heap_empty_def)
qed

lemma swap_down:
  assumes "c < length ws" and "0 < c" and "distinct ws"
  shows "distinct (ws[0 := ws ! c, c := ws ! 0])" and "set (ws[0 := ws ! c, c := ws ! 0]) = set ws"
proof -
  have "0 < length ws" using assms(1) by linarith
  then have "mset (ws[0 := ws ! c, c := ws ! 0]) = mset ws" by (rule mset_swap [OF assms(1)])
  then show "set (ws[0 := ws ! c, c := ws ! 0]) = set ws" "distinct (ws[0 := ws ! c, c := ws ! 0])"
    using assms(3) by (metis set_mset_mset, metis mset_eq_imp_distinct_iff)
qed

lemma pop_timer_correct:
  assumes h: "holds_heap s (x # us @ [t]) rest" and ord: "heap_ordered (heap_key s) (x # us @ [t])"
  defines "ws \<equiv> t # us" and "m \<equiv> Suc (length us)"
  defines "c \<equiv> small_child (heap_key s) ws 0"
  shows "if m = 1 \<or> heap_key s t \<le> heap_key s (ws ! c)
     then \<exists>s'. pop_timer s = Some (Inr s') \<and> holds_heap s' ws (Some (Some t) # rest) \<and> h_timers s' = (h_timers s)(x := None)
     else if 2 * c + 1 \<le> m
     then \<exists>s'. pop_timer s = Some (Inr s') \<and> holds_heap s' (ws[0 := ws ! c, c := t]) (Some (Some t) # rest) \<and>
            h_timers s' = (h_timers s)(x := None)
     else (2 * c - m < length rest \<longrightarrow> rest ! (2 * c - m) = Some None) \<longrightarrow>
       pop_timer s = Some (Inl (if 2 * c - m < length rest then NullDeref else OutOfBounds))"
proof -
  let ?h = "(h_timers s)(x := None)"
  define s2 where "s2 = s\<lparr>h_timers := ?h, cur_size := int m, blocks := (blocks s)(arr s \<mapsto> cells_of (ws @ [t]) @ rest)\<rparr>"
  have pop: "pop_timer s = precolate_down 0 s2" using pop_prepare [OF h] by (simp add: s2_def ws_def m_def)
  have ds: "distinct (x # us @ [t])" and dm: "set (x # us @ [t]) \<subseteq> dom (h_timers s)"
    and cap: "capacity s = int (m + length (Some (Some t) # rest))" using h by (simp_all add: holds_heap_def m_def)
  have lw: "length ws = m" and dw: "distinct ws" "x \<notin> set ws" using ds by (auto simp: ws_def m_def)
  have dom2: "set (ws @ [t]) \<subseteq> dom (h_timers s2)" using dm dw by (auto simp: s2_def ws_def)
  have key: "heap_key s2 y = heap_key s y" if "y \<noteq> x" for y using that by (simp add: heap_key_def s2_def)
  have keyw: "heap_key s2 y = heap_key s y" if "y \<in> set ws" for y using key dw(2) that by metis
  have b2: "blocks s2 (arr s2) = Some (cells_of (ws @ [t]) @ rest)" by (simp add: s2_def)
  have holds: "holds_heap (s2\<lparr>blocks := B\<rparr>) ys (Some (Some t) # rest)"
    if "B (arr s) = Some (cells_of (ys @ [t]) @ rest)" "length ys = m" "distinct ys" "set ys \<subseteq> set ws" for B ys
    using that cap dm dw by (auto simp: holds_heap_def s2_def ws_def)
  have tmp: "arr_get 0 s2 = Inr (Some t)" using arr_get_cells [OF b2, of 0] by (simp add: ws_def)
  have pre: "precolate_down 0 s2 = bind_run (sift_loop 0 1 s2) (\<lambda>(p, s1). Some (arr_set p (Some t) s1))"
    using tmp by (simp add: precolate_down_def s2_def m_def)
  have again: "arr_set 0 (Some t) s2 = Inr s2"
    using arr_set_cells [OF b2, of 0 t] by (simp add: ws_def s2_def)
  have stay: "\<exists>s'. pop_timer s = Some (Inr s') \<and> holds_heap s' ws (Some (Some t) # rest) \<and> h_timers s' = ?h"
    if "sift_loop 0 1 s2 = Some (Inr (0, s2))"
  proof -
    have "pop_timer s = Some (Inr s2)" using that again pop pre by simp
    moreover have "holds_heap s2 ws (Some (Some t) # rest)"
      using holds [of "blocks s2" ws] lw dw by (simp add: s2_def)
    ultimately show ?thesis by (simp add: s2_def)
  qed
  show ?thesis
  proof (cases "m = 1")
    case True
    then have "sift_loop 0 1 s2 = Some (Inr (0, s2))" by (subst sift_loop.simps) (simp add: s2_def)
    from stay [OF this] True show ?thesis by simp
  next
    case False
    then have m2: "2 \<le> m" by (cases us) (simp_all add: m_def)
    have c: "c = 1 \<or> c = 2 \<and> 2 < m" and cm: "c < m" using m2 lw by (auto simp: c_def small_child_def)
    have c': "c = small_child (heap_key s2) ws 0"
      using keyw [of "ws ! 1"] keyw [of "ws ! 2"] lw m2 by (auto simp: c_def small_child_def numeral_2_eq_2)
    have "ws ! c \<in> set ws" using cm lw by (intro nth_mem) simp
    moreover have w0: "ws ! 0 = t" and "t \<in> set ws" by (simp_all add: ws_def)
    ultimately have kc: "heap_key s2 (ws ! c) = heap_key s (ws ! c)" "heap_key s2 t = heap_key s t" using keyw by simp_all
    have wc: "(ws @ [t]) ! c = ws ! c" using cm lw by (simp add: nth_append)
    let ?B = "(blocks s2)(arr s2 \<mapsto> cells_of (ws[0 := ws ! c] @ [t]) @ rest)"
    let ?s3 = "s2\<lparr>blocks := ?B\<rparr>"
    have round: "sift_loop 0 1 s2 = (if heap_key s (ws ! c) < heap_key s t then sift_loop (int c) (int c) ?s3
        else Some (Inr (0, s2)))"
      using sift_round [OF b2 dom2 _ _ _ c', of 1] m2 lw kc w0 wc by (simp add: s2_def)
    show ?thesis
    proof (cases "heap_key s t \<le> heap_key s (ws ! c)")
      case True
      then have "sift_loop 0 1 s2 = Some (Inr (0, s2))" using round by simp
      from stay [OF this] True show ?thesis by simp
    next
      case False
      then have loop: "sift_loop 0 1 s2 = sift_loop (int c) (int c) ?s3" using round by simp
      let ?w3 = "ws[0 := ws ! c]"
      have b3: "blocks ?s3 (arr ?s3) = Some (cells_of (?w3 @ [t]) @ rest)" by simp
      have sz3: "cur_size ?s3 = int (length ?w3)" using lw by (simp add: s2_def)
      have key3: "heap_key ?s3 = heap_key s2" by (simp add: heap_key_def fun_eq_iff)
      show ?thesis
      proof (cases "2 * c + 1 \<le> m")
        case True
        define g where "g = small_child (heap_key ?s3) ?w3 c"
        have g: "g = 2 * c + 1 \<or> g = 2 * c + 2 \<and> 2 * c + 2 < m" using lw by (auto simp: g_def small_child_def)
        have gm: "g \<le> m" "(g - 1) div 2 = c" "0 < g" "0 < c" using g True c by auto
        have "(?w3 @ [t]) ! g = (x # us @ [t]) ! g" "(x # us @ [t]) ! c = ws ! c"
          using gm cm lw by (auto simp: ws_def nth_append nth_Cons' m_def)
        moreover have "heap_key s ((x # us @ [t]) ! ((g - 1) div 2)) \<le> heap_key s ((x # us @ [t]) ! g)"
        proof -
          have "g < length (x # us @ [t])" using gm(1) by (simp add: m_def)
          then show ?thesis using ord gm(3) unfolding heap_ordered_def by blast
        qed
        moreover have "(x # us @ [t]) ! g \<noteq> x"
          using ds gm by (auto simp: nth_Cons' m_def nth_append in_set_conv_nth)
        ultimately have le: "heap_key s (ws ! c) \<le> heap_key ?s3 ((?w3 @ [t]) ! g)" using gm(2) key key3 by simp
        have "set ?w3 \<subseteq> set ws" using nth_mem [of c ws] cm lw set_update_subset_insert [of ws 0 "ws ! c"] by auto
        then have dom3: "set (?w3 @ [t]) \<subseteq> dom (h_timers ?s3)" using dom2 by auto
        have "?w3 ! c = ws ! c" using gm(4) by simp
        then have "sift_loop (int c) (int c) ?s3 = Some (Inr (int c, ?s3))"
          using sift_round [OF b3 dom3 sz3 _ _ g_def, of c] le kc key3 cm True lw by simp
        moreover have "arr_set (int c) (Some t) ?s3 =
            Inr (s2\<lparr>blocks := ?B(arr s2 \<mapsto> cells_of (ws[0 := ws ! c, c := t] @ [t]) @ rest)\<rparr>)"
          using arr_set_cells [OF b3, of c t] cm lw by (simp add: list_update_append)
        moreover have "holds_heap (s2\<lparr>blocks := ?B(arr s2 \<mapsto> cells_of (ws[0 := ws ! c, c := t] @ [t]) @ rest)\<rparr>)
            (ws[0 := ws ! c, c := t]) (Some (Some t) # rest)"
          using swap_down [of c ws] cm lw gm(4) dw(1) w0 by (intro holds) (simp_all add: s2_def)
        ultimately have "\<exists>s'. pop_timer s = Some (Inr s') \<and>
            holds_heap s' (ws[0 := ws ! c, c := t]) (Some (Some t) # rest) \<and> h_timers s' = ?h"
          using pop pre loop by (simp add: s2_def)
        then show ?thesis using False True m2 by simp
      next
        case out: False
        then have "2 * c + 1 - length (?w3 @ [t]) = 2 * c - m" "length (?w3 @ [t]) < 2 * c + 2" using lw by simp_all
        with sift_round_outside [OF b3, of c c] sz3 cm lw pop pre loop out show ?thesis
          using False m2 by (auto simp: s2_def)
      qed
    qed
  qed
qed

section \<open>Construction from an array\<close>

lemma arr_set_same:
  assumes "holds_heap s xs rest" and "i < length xs"
  shows "arr_set (int i) (Some (xs ! i)) s = Inr s"
  using assms arr_set_cells [of s xs rest i "xs ! i"] by (simp add: holds_heap_def fun_upd_idem)

lemma precolate_ordered:
  assumes h: "holds_heap s xs rest" and ord: "heap_ordered (heap_key s) xs" and i: "i < length xs"
  shows "precolate_down (int i) s = Some (Inr s)"
proof -
  have sz: "cur_size s = int (length xs)" using h by (simp add: holds_heap_def)
  have ex: "arr_expire (int k) s = Inr (heap_key s (xs ! k))" if "k < length xs" for k
    using arr_expire_holds [OF h, of "int k"] that by simp
  have le: "heap_key s (xs ! i) \<le> heap_key s (xs ! k)" if "k < length xs" "k = 2 * i + 1 \<or> k = 2 * i + 2" for k
  proof -
    from that(2) have "0 < k" "(k - 1) div 2 = i" by auto
    with ord that(1) show ?thesis by (auto simp: heap_ordered_def)
  qed
  have "sift_loop (int i) (2 * int i + 1) s = Some (Inr (int i, s))"
  proof (cases "2 * i + 1 < length xs")
    case True
    obtain c where c: "next_child (int i) s = Inr (int c)" "c < length xs" "c = 2 * i + 1 \<or> c = 2 * i + 2"
    proof (cases "2 * i + 2 < length xs")
      case two: True
      then have "next_child (int i) s = Inr (int (if heap_key s (xs ! (2 * i + 1)) > heap_key s (xs ! (2 * i + 2)) then 2 * i + 2 else 2 * i + 1))"
        using ex [of "2 * i + 1"] ex [of "2 * i + 2"] sz by (simp add: next_child_def Let_def add.commute)
      with two that show ?thesis by (auto split: if_splits)
    next
      case False
      with that [of "2 * i + 1"] True sz show ?thesis by (simp add: next_child_def)
    qed
    have "move_up (int i) (int c) s = Inr (False, s)"
      using ex [OF c(2)] ex [OF i] le [OF c(2,3)] by (simp add: move_up_def)
    with c(1) True sz show ?thesis by (subst sift_loop.simps) simp
  qed (use sz in \<open>simp add: sift_loop.simps\<close>)
  then show ?thesis
    using arr_get_holds [OF h, of "int i"] arr_set_same [OF h i] i sz by (simp add: precolate_down_def)
qed

lemma sift_all_ordered:
  assumes "holds_heap s xs rest" and "heap_ordered (heap_key s) xs" and "\<forall>i \<in> set is. 0 \<le> i \<and> i < int (length xs)"
  shows "sift_all is s = Some (Inr s)"
  using assms(3)
proof (induction "is")
  case (Cons i "is")
  then have "precolate_down (int (nat i)) s = Some (Inr s)" by (intro precolate_ordered [OF assms(1,2)]) auto
  with Cons show ?case by simp
qed simp

lemma assign_cells_append: "assign_cells f (is @ js) s = bind_res (assign_cells f is s) (assign_cells f js)"
proof (induction "is" arbitrary: s)
  case (Cons i "is")
  then have "assign_cells f (is @ js) = (\<lambda>s. bind_res (assign_cells f is s) (assign_cells f js))" by (simp add: fun_eq_iff)
  then show ?case by (simp add: bind_res_assoc)
qed simp

lemma assign_cells_upto:
  assumes "blocks s (arr s) = Some b" and "n \<le> length b" and "\<forall>i < n. f (int i) = Inr (g i)"
  shows "assign_cells f [0..int n - 1] s = Inr (s\<lparr>blocks := (blocks s)(arr s \<mapsto> map (Some \<circ> g) [0..<n] @ drop n b)\<rparr>)"
  using assms(2,3)
proof (induction n)
  case 0
  then show ?case using assms(1) by (simp add: fun_upd_idem)
next
  case (Suc n)
  have u: "[0..int (Suc n) - 1] = [0..int n - 1] @ [int n]" using upto_rec2 [of 0 "int n"] by simp
  have d: "drop n b = b ! n # drop (Suc n) b" using Suc.prems by (simp add: Cons_nth_drop_Suc)
  have "(map (Some \<circ> g) [0..<n] @ drop n b)[n := Some (g n)] = map (Some \<circ> g) [0..<Suc n] @ drop (Suc n) b"
    unfolding d by (simp add: list_update_append)
  moreover let ?s1 = "s\<lparr>blocks := (blocks s)(arr s \<mapsto> map (Some \<circ> g) [0..<n] @ drop n b)\<rparr>"
  have "arr_set (int n) (g n) ?s1 = Inr (?s1\<lparr>blocks := (blocks ?s1)(arr ?s1 \<mapsto> (map (Some \<circ> g) [0..<n] @ drop n b)[n := Some (g n)])\<rparr>)"
    using arr_set_block [of ?s1 "map (Some \<circ> g) [0..<n] @ drop n b" "int n" "g n"] Suc.prems(1) by simp
  ultimately have st: "arr_set (int n) (g n) ?s1 = Inr (s\<lparr>blocks := (blocks s)(arr s \<mapsto> map (Some \<circ> g) [0..<Suc n] @ drop (Suc n) b)\<rparr>)"
    by (simp del: upt_Suc map_append)
  have "assign_cells f [0..int n - 1] s = Inr ?s1" by (rule Suc.IH) (use Suc.prems in auto)
  moreover have "f (int n) = Inr (g n)" using Suc.prems(2) by simp
  ultimately show ?case unfolding u by (simp only: assign_cells_append assign_cells.simps bind_res_simps st)
qed

text \<open>
  From timers in heap order, with cap, the size and the capacity all the same, the constructor makes the heap of
  these timers; with a cap beyond the capacity it writes behind its array.
\<close>

lemma heap_of_ordered:
  assumes "xs \<noteq> []" "distinct xs" "set xs \<subseteq> dom h"
    and ord: "heap_ordered (\<lambda>x. case h x of None \<Rightarrow> 0 | Some t \<Rightarrow> h_expire t) xs"
  shows "\<exists>s. heap_of (int (length xs)) a (map Some xs) (int (length xs)) (int (length xs)) h = Some (Inr (Some s)) \<and>
    holds_heap s xs [] \<and> h_timers s = h"
proof -
  let ?n = "length xs"
  let ?s0 = "\<lparr>arr = a, capacity = int ?n, cur_size = int ?n, blocks = [a \<mapsto> replicate ?n None], h_timers = h\<rparr>"
  let ?s1 = "?s0\<lparr>blocks := [a \<mapsto> replicate ?n (Some None)]\<rparr>" and ?s2 = "?s0\<lparr>blocks := [a \<mapsto> cells_of xs]\<rparr>"
  have "assign_cells (\<lambda>i. Inr None) [0..int ?n - 1] ?s0 = Inr ?s1"
    using assign_cells_upto [of ?s0 "replicate ?n None" ?n "\<lambda>i. Inr None" "\<lambda>_. None"]
    by (simp add: comp_def map_replicate_const)
  moreover have "assign_cells (element_of (map Some xs)) [0..int ?n - 1] ?s1 = Inr ?s2"
  proof -
    have "map (Some \<circ> (\<lambda>i. Some (xs ! i))) [0..<?n] = cells_of xs" by (rule nth_equalityI) simp_all
    with assign_cells_upto [of ?s1 "replicate ?n (Some None)" ?n "element_of (map Some xs)" "\<lambda>i. Some (xs ! i)"]
    show ?thesis by (simp add: element_of_def)
  qed
  moreover have h2: "holds_heap ?s2 xs []" using assms by (simp add: holds_heap_def)
  moreover have "sift_all (rev [0..(int ?n - 1) sdiv 2]) ?s2 = Some (Inr ?s2)"
  proof (rule sift_all_ordered [OF h2])
    have "heap_key ?s2 = (\<lambda>x. case h x of None \<Rightarrow> 0 | Some t \<Rightarrow> h_expire t)" by (simp add: heap_key_def fun_eq_iff)
    then show "heap_ordered (heap_key ?s2) xs" using ord by simp
    have "(int ?n - 1) sdiv 2 = (int ?n - 1) div 2" using assms(1) by (cases xs) (auto simp: signed_divide_int_def)
    then show "\<forall>i \<in> set (rev [0..(int ?n - 1) sdiv 2]). 0 \<le> i \<and> i < int ?n" using assms(1) by (cases xs) auto
  qed
  ultimately show ?thesis using assms(1) by (simp add: heap_of_def)
qed

lemma heap_of_overrun:
  assumes "len \<le> limit" "0 \<le> limit" "limit < cap"
  shows "heap_of cap a cur_array len limit h = Some (Inl OutOfBounds)"
proof -
  let ?s = "\<lparr>arr = a, capacity = cap, cur_size = cap, blocks = [a \<mapsto> replicate (nat limit) None], h_timers = h\<rparr>"
  have u: "[0..cap - 1] = [0..int (nat limit) - 1] @ [limit..cap - 1]" using assms upto_split1 [of 0 limit "cap - 1"] by simp
  have v: "[limit..cap - 1] = limit # [limit + 1..cap - 1]" using assms by (simp add: upto_rec1)
  have "assign_cells (\<lambda>i. Inr None) [0..cap - 1] ?s = Inl OutOfBounds"
    using assign_cells_upto [of ?s "replicate (nat limit) None" "nat limit" "\<lambda>i. Inr None" "\<lambda>_. None"] assms
    unfolding u by (simp add: assign_cells_append v arr_set_def del: int_nat_eq)
  with assms show ?thesis by (simp add: heap_of_def)
qed

section \<open>The properties of the heap\<close>

lemma holds_new: "0 \<le> cap \<Longrightarrow> new_heap a cap h = Some s \<Longrightarrow> holds_heap s [] (replicate (nat cap) (Some None))"
  by (auto simp: new_heap_def holds_heap_def)

text \<open>Heaps for closed instances: k timers, expiring at 1, 2, ..., in an array of eight cells.\<close>

definition sample_heap :: "nat \<Rightarrow> time_heap" where
  "sample_heap k = \<lparr>arr = 0, capacity = 8, cur_size = int k,
     blocks = [0 \<mapsto> map (\<lambda>i. Some (if i < k then Some i else None)) [0..<8]],
     h_timers = (\<lambda>x. if x < 10 then Some \<lparr>h_expire = int x + 1, h_cb = Some 0, h_data = x\<rparr> else None)\<rparr>"

lemma sample_heap_holds:
  assumes "k \<le> 8"
  shows "holds_heap (sample_heap k) [0..<k] (replicate (8 - k) (Some None))"
proof -
  have "map (\<lambda>i. Some (if i < k then Some i else None)) [0..<8] =
      map (\<lambda>x. Some (Some x)) [0..<k] @ replicate (8 - k) (Some None)"
    using assms by (intro nth_equalityI) (auto simp: nth_append)
  then show ?thesis using assms by (auto simp: holds_heap_def sample_heap_def)
qed

text \<open>
  C20. add\_timer, on a heap with room and on a full one. On a full heap it is always undefined. On one with room
  the index of the parent is computed from the size, so the timer is
  compared with the element in the middle of the array only. When that one does not expire later, the timer
  is put at the end, whatever its own parent is. Otherwise a heap of one timer is reordered, and
  on every larger heap add\_timer never returns.
\<close>

theorem heap_add_outcome:
  assumes "holds_heap s xs spare" and "x \<notin> set xs" and "h_timers s x = Some t" and "a \<noteq> arr s"
  shows "case spare of
      [] \<Rightarrow> heap_add a (Some x) s = Some (Inl (if xs = [] then OutOfBounds else if INT_MAX < 2 * int (length xs) then SignedOverflow
        else if length xs = 1 then UseAfterFree else UninitRead))
    | c # rest \<Rightarrow>
        if xs = [] \<or> heap_key s (xs ! (length xs div 2)) \<le> heap_key s x
        then \<exists>s'. heap_add a (Some x) s = Some (Inr s') \<and> holds_heap s' (xs @ [x]) rest \<and> h_timers s' = h_timers s
        else if length xs = 1
        then \<exists>s'. heap_add a (Some x) s = Some (Inr s') \<and> holds_heap s' (x # xs) rest \<and> h_timers s' = h_timers s
        else heap_add a (Some x) s = None"
proof (cases spare)
  case Nil
  with assms heap_add_full [of s xs a x t] show ?thesis by simp
next
  case (Cons c rest)
  from heap_add_correct [OF assms(1) [unfolded Cons] assms(2,3), of a] show ?thesis
    unfolding Cons by (simp only: list.case)
qed

lemma heap_add_outcome_witness:
  "heap_add 1 (Some 0) ((sample_heap 3)\<lparr>blocks := [0 \<mapsto> map (\<lambda>x. Some (Some x)) [1, 2, 3] @ replicate 5 (Some None)]\<rparr>) = None"
proof -
  let ?s = "(sample_heap 3)\<lparr>blocks := [0 \<mapsto> map (\<lambda>x. Some (Some x)) [1, 2, 3] @ replicate 5 (Some None)]\<rparr>"
  have "holds_heap ?s [1, 2, 3] (Some None # replicate 4 (Some None))"
    by (auto simp: holds_heap_def sample_heap_def eval_nat_numeral)
  from heap_add_outcome [OF this, of 0 _ 1] show ?thesis by (simp add: sample_heap_def heap_key_def)
qed

text \<open>
  add\_timer on a full heap is always undefined: resize deletes the array inside the loop that copies
  it and installs the new one, which the next round reads uninitialised and deletes as well.
\<close>

theorem heap_full_add_undefined:
  assumes "holds_heap s xs []" and "a \<noteq> arr s" and "h_timers s x = Some t"
  shows "heap_add a (Some x) s = Some (Inl (if xs = [] then OutOfBounds else if INT_MAX < 2 * int (length xs) then SignedOverflow
    else if length xs = 1 then UseAfterFree else UninitRead))"
  by (rule heap_add_full [OF assms])

lemma heap_full_add_undefined_witness: "heap_add 1 (Some 9) (sample_heap 8) = Some (Inl UninitRead)"
proof -
  have "holds_heap (sample_heap 8) [0..<8] []" using sample_heap_holds [of 8] by simp
  from heap_full_add_undefined [OF this, of 1 9] show ?thesis by (simp add: sample_heap_def INT_MAX_def)
qed

text \<open>
  C21. pop\_timer on at least two timers in heap order, with nothing but null pointers behind the last timer: the
  root is freed and the last timer t replaces it, but
  it sinks by at most one level. When the smaller child c of the root expires earlier, the two are swapped when
  the next cell looked at, 2c + 1, is at most the one the last timer has just left, whose stale pointer pop\_timer
  does not clear; otherwise that cell is read further behind, where it is null, or outside the array.
\<close>

theorem heap_pop_outcome:
  assumes "holds_heap s (x # us @ [t]) rest" and "heap_ordered (heap_key s) (x # us @ [t])"
    and "c = small_child (heap_key s) (t # us) 0"
    and "2 * c - Suc (length us) < length rest \<Longrightarrow> rest ! (2 * c - Suc (length us)) = Some None"
  shows "if us = [] \<or> heap_key s t \<le> heap_key s ((t # us) ! c)
     then \<exists>s'. pop_timer s = Some (Inr s') \<and> holds_heap s' (t # us) (Some (Some t) # rest) \<and> h_timers s' = (h_timers s)(x := None)
     else if 2 * c \<le> length us
     then \<exists>s'. pop_timer s = Some (Inr s') \<and>
            holds_heap s' ((t # us)[0 := (t # us) ! c, c := t]) (Some (Some t) # rest) \<and> h_timers s' = (h_timers s)(x := None)
     else pop_timer s = Some (Inl (if 2 * c - Suc (length us) < length rest then NullDeref else OutOfBounds))"
proof -
  have e: "(Suc (length us) = 1) = (us = [])" "(2 * c + 1 \<le> Suc (length us)) = (2 * c \<le> length us)" by auto
  note pop = pop_timer_correct [OF assms(1,2), folded assms(3), unfolded e]
  show ?thesis
  proof (cases "us = [] \<or> heap_key s t \<le> heap_key s ((t # us) ! c)")
    case True
    with pop show ?thesis by (simp only: if_True)
  next
    case False
    show ?thesis
    proof (cases "2 * c \<le> length us")
      case True
      with pop False show ?thesis by (simp only: if_True if_False)
    next
      case out: False
      with pop False assms(4) show ?thesis by (simp only: if_False) blast
    qed
  qed
qed

lemma heap_pop_outcome_witness: "pop_timer (sample_heap 3) = Some (Inl NullDeref)"
proof -
  have h: "holds_heap (sample_heap 3) (0 # [1] @ [2]) (replicate 5 (Some None))"
    using sample_heap_holds [of 3] by (simp add: upt_conv_Cons eval_nat_numeral)
  have o: "heap_ordered (heap_key (sample_heap 3)) (0 # [1] @ [2])"
    by (auto simp: heap_ordered_def heap_key_def sample_heap_def less_Suc_eq numeral_3_eq_3)
  have c: "1 = small_child (heap_key (sample_heap 3)) [2, 1] 0" by (simp add: small_child_def)
  from heap_pop_outcome [OF h o, of 1] c show ?thesis
    by (simp add: heap_key_def sample_heap_def)
qed

text \<open>Adding timers in a row, and a callback that records its argument.\<close>

definition add_all :: "nat list \<Rightarrow> time_heap \<Rightarrow> time_heap res option" where
  "add_all xs s = foldl (\<lambda>r x. bind_run r (heap_add 1 (Some x))) (Some (Inr s)) xs"

definition logged :: "nat \<Rightarrow> nat \<Rightarrow> nat list \<Rightarrow> nat list" where
  "logged f d w = w @ [d]"

fun is_null :: "'a res option \<Rightarrow> bool" where
  "is_null (Some (Inl NullDeref)) = True"
| "is_null _ = False"

lemma is_nullD: "is_null r \<Longrightarrow> r = Some (Inl NullDeref)"
  by (cases r rule: is_null.cases) simp_all

lemma five_added:
  "case add_all [0, 1, 2, 3, 4] (sample_heap 0) of
     Some (Inr s) \<Rightarrow> blocks s (arr s) = Some (map (\<lambda>x. Some (Some x)) [0, 1, 2, 3, 4] @ replicate 3 (Some None)) \<and>
       is_null (heap_tick logged 10 s [])
   | _ \<Rightarrow> False"
  by code_simp

text \<open>
  A tick over more than a few due timers crashes: five timers added in the order of their expiry to a
  heap with room for eight stand in that order, a valid heap; a tick at which all of them are due
  dereferences a null pointer, because the second pop looks at a child behind the last timer.
\<close>

theorem heap_tick_crashes:
  "\<exists>s. add_all [0, 1, 2, 3, 4] (sample_heap 0) = Some (Inr s) \<and>
     blocks s (arr s) = Some (map (\<lambda>x. Some (Some x)) [0, 1, 2, 3, 4] @ replicate 3 (Some None)) \<and>
     heap_tick logged 10 s [] = Some (Inl NullDeref)"
proof -
  obtain s where s: "add_all [0, 1, 2, 3, 4] (sample_heap 0) = Some (Inr s)"
    using five_added by (auto split: option.splits sum.splits)
  from five_added is_nullD show ?thesis unfolding s option.case sum.case by blast
qed

end
