(* ===== verification/Timed_Queue.thy ===== *)
theory Timed_Queue
  imports Prelude
begin

text \<open>
  The contract between a server and its timers: an abstract queue of entries sorted by expiry, the
  four operations a server performs on it, and the locale of an implementation. Inside the locale the
  operations are composed: every legal sequence of them runs without undefined behaviour and has the
  effects of the abstract queue.
\<close>

section \<open>The abstract queue\<close>

text \<open>An entry is an address, an expiry time and the data its callback gets.\<close>

type_synonym 'd entry = "nat \<times> int \<times> 'd"

abbreviation addr_of :: "'d entry \<Rightarrow> nat" where "addr_of \<equiv> fst"
abbreviation when_of :: "'d entry \<Rightarrow> int" where "when_of e \<equiv> fst (snd e)"
abbreviation data_of :: "'d entry \<Rightarrow> 'd" where "data_of e \<equiv> snd (snd e)"

definition insert_entry :: "'d entry \<Rightarrow> 'd entry list \<Rightarrow> 'd entry list" where
  "insert_entry e es = takeWhile (\<lambda>y. when_of y \<le> when_of e) es @ e # dropWhile (\<lambda>y. when_of y \<le> when_of e) es"

definition remove_entry :: "nat \<Rightarrow> 'd entry list \<Rightarrow> 'd entry list" where
  "remove_entry x es = filter (\<lambda>e. addr_of e \<noteq> x) es"

definition lookup :: "nat \<Rightarrow> 'd entry list \<Rightarrow> (int \<times> 'd) option" where
  "lookup x es = map_of es x"

datatype 'd queue_op = Put nat int 'd | Delay nat int | Drop nat | Expire int

text \<open>The entries after an operation, and the data whose callbacks ran, in order.\<close>

fun queue_step :: "'d queue_op \<Rightarrow> 'd entry list \<Rightarrow> 'd entry list \<times> 'd list" where
  "queue_step (Put x e d) es = (insert_entry (x, e, d) es, [])"
| "queue_step (Delay x e) es =
     (case lookup x es of None \<Rightarrow> (es, [])
      | Some (_, d) \<Rightarrow> (insert_entry (x, e, d) (remove_entry x es), []))"
| "queue_step (Drop x) es = (remove_entry x es, [])"
| "queue_step (Expire now) es =
     (filter (\<lambda>e. now < when_of e) es, map data_of (filter (\<lambda>e. when_of e \<le> now) es))"

text \<open>A new address for Put, a present one otherwise; a delay does not move the expiry forward.\<close>

fun legal :: "'d queue_op \<Rightarrow> 'd entry list \<Rightarrow> bool" where
  "legal (Put x e d) es \<longleftrightarrow> lookup x es = None"
| "legal (Delay x e) es \<longleftrightarrow> (case lookup x es of None \<Rightarrow> False | Some (old, _) \<Rightarrow> old \<le> e)"
| "legal (Drop x) es \<longleftrightarrow> lookup x es \<noteq> None"
| "legal (Expire now) es \<longleftrightarrow> True"

fun queue_run :: "'d queue_op list \<Rightarrow> 'd entry list \<Rightarrow> 'd entry list \<times> 'd list" where
  "queue_run [] es = (es, [])"
| "queue_run (op # ops) es =
     (let (es1, ds1) = queue_step op es; (es2, ds2) = queue_run ops es1 in (es2, ds1 @ ds2))"

fun legal_run :: "'d queue_op list \<Rightarrow> 'd entry list \<Rightarrow> bool" where
  "legal_run [] es \<longleftrightarrow> True"
| "legal_run (op # ops) es \<longleftrightarrow> legal op es \<and> legal_run ops (fst (queue_step op es))"

definition sorted_queue :: "'d entry list \<Rightarrow> bool" where
  "sorted_queue es \<longleftrightarrow> sorted (map when_of es) \<and> distinct (map addr_of es)"

lemma lookup_None_iff: "lookup x es = None \<longleftrightarrow> x \<notin> addr_of ` set es"
  by (simp add: lookup_def map_of_eq_None_iff)

lemma lookup_split:
  assumes "distinct (map addr_of es)" and "lookup x es = Some (e, d)"
  obtains pre post where "es = pre @ (x, e, d) # post" and "remove_entry x es = pre @ post"
proof -
  from assms(2) have "(x, e, d) \<in> set es" unfolding lookup_def by (rule map_of_SomeD)
  then obtain pre post where es: "es = pre @ (x, e, d) # post" by (auto simp: in_set_conv_decomp)
  with assms(1) have "\<forall>y \<in> set (pre @ post). addr_of y \<noteq> x" by auto
  then have "remove_entry x es = pre @ post" unfolding es remove_entry_def by simp
  with es that show thesis by blast
qed

lemma set_insert_entry [simp]: "set (insert_entry e es) = insert e (set es)"
proof -
  have "set es = set (takeWhile (\<lambda>y. when_of y \<le> when_of e) es @ dropWhile (\<lambda>y. when_of y \<le> when_of e) es)"
    by simp
  then show ?thesis unfolding insert_entry_def set_append by auto
qed

lemma insert_entry_Cons:
  "insert_entry e (y # ys) = (if when_of y \<le> when_of e then y # insert_entry e ys else e # y # ys)"
  by (simp add: insert_entry_def)

lemma sorted_queue_insert:
  "sorted_queue es \<Longrightarrow> addr_of e \<notin> addr_of ` set es \<Longrightarrow> sorted_queue (insert_entry e es)"
proof (induction es)
  case Nil
  then show ?case by (simp add: sorted_queue_def insert_entry_def)
next
  case (Cons y ys)
  then have "sorted_queue (insert_entry e ys)" by (simp add: sorted_queue_def)
  with Cons.prems show ?case
    by (auto simp: sorted_queue_def insert_entry_Cons image_iff)
qed

lemma sorted_queue_filter: "sorted_queue es \<Longrightarrow> sorted_queue (filter P es)"
  by (induction es) (auto simp: sorted_queue_def)

lemma sorted_queue_step:
  assumes "sorted_queue es" and "legal op es"
  shows "sorted_queue (fst (queue_step op es))"
proof (cases op)
  case (Put x e d)
  with assms show ?thesis by (simp add: sorted_queue_insert lookup_None_iff)
next
  case (Delay x e)
  with assms obtain e0 d where l: "lookup x es = Some (e0, d)" by (auto split: option.splits)
  have "sorted_queue (remove_entry x es)" "x \<notin> addr_of ` set (remove_entry x es)"
    using assms(1) by (auto simp: remove_entry_def sorted_queue_filter)
  with Delay l show ?thesis by (simp add: sorted_queue_insert)
qed (use assms in \<open>simp_all add: remove_entry_def sorted_queue_filter\<close>)

section \<open>Implementations\<close>

text \<open>Running operations on the four operations of an implementation.\<close>

fun exec ::
  "(nat \<Rightarrow> int \<Rightarrow> 'd \<Rightarrow> 'q \<Rightarrow> 'q res option) \<Rightarrow> (nat \<Rightarrow> int \<Rightarrow> 'q \<Rightarrow> 'q res option) \<Rightarrow>
   (nat \<Rightarrow> 'q \<Rightarrow> 'q res) \<Rightarrow> (int \<Rightarrow> 'q \<Rightarrow> 'w \<Rightarrow> ('q \<times> 'w) res option) \<Rightarrow>
   'd queue_op \<Rightarrow> 'q \<Rightarrow> 'w \<Rightarrow> ('q \<times> 'w) res option" where
  "exec put delay cancel expire_until (Put x e d) q w = bind_run (put x e d q) (\<lambda>q'. Some (Inr (q', w)))"
| "exec put delay cancel expire_until (Delay x e) q w = bind_run (delay x e q) (\<lambda>q'. Some (Inr (q', w)))"
| "exec put delay cancel expire_until (Drop x) q w = Some (map_res (\<lambda>q'. (q', w)) (cancel x q))"
| "exec put delay cancel expire_until (Expire now) q w = expire_until now q w"

fun exec_all ::
  "('d queue_op \<Rightarrow> 'q \<Rightarrow> 'w \<Rightarrow> ('q \<times> 'w) res option) \<Rightarrow> 'd queue_op list \<Rightarrow> 'q \<Rightarrow> 'w \<Rightarrow> ('q \<times> 'w) res option" where
  "exec_all ex [] q w = Some (Inr (q, w))"
| "exec_all ex (op # ops) q w = bind_run (ex op q w) (\<lambda>(q', w'). exec_all ex ops q' w')"

locale timed_queue =
  fixes holds :: "'q \<Rightarrow> 'd entry list \<Rightarrow> bool"
    and put :: "nat \<Rightarrow> int \<Rightarrow> 'd \<Rightarrow> 'q \<Rightarrow> 'q res option"
    and delay :: "nat \<Rightarrow> int \<Rightarrow> 'q \<Rightarrow> 'q res option"
    and cancel :: "nat \<Rightarrow> 'q \<Rightarrow> 'q res"
    and expire_until :: "int \<Rightarrow> 'q \<Rightarrow> 'w \<Rightarrow> ('q \<times> 'w) res option"
    and act :: "'d \<Rightarrow> 'w \<Rightarrow> 'w"
  assumes holds_sorted: "holds q es \<Longrightarrow> sorted_queue es"
    and put_law: "holds q es \<Longrightarrow> lookup x es = None \<Longrightarrow>
      \<exists>q'. put x e d q = Some (Inr q') \<and> holds q' (insert_entry (x, e, d) es)"
    and delay_law: "holds q es \<Longrightarrow> lookup x es = Some (old, d) \<Longrightarrow> old \<le> e \<Longrightarrow>
      \<exists>q'. delay x e q = Some (Inr q') \<and> holds q' (insert_entry (x, e, d) (remove_entry x es))"
    and cancel_law: "holds q es \<Longrightarrow> lookup x es = Some ed \<Longrightarrow>
      \<exists>q'. cancel x q = Inr q' \<and> holds q' (remove_entry x es)"
    and expire_law: "holds q es \<Longrightarrow>
      \<exists>q'. expire_until now q w = Some (Inr (q',
          foldl (\<lambda>w d. act d w) w (map data_of (filter (\<lambda>e. when_of e \<le> now) es)))) \<and>
        holds q' (filter (\<lambda>e. now < when_of e) es)"
begin

lemma exec_step:
  assumes "holds q es" and "legal op es"
  shows "\<exists>q'. exec put delay cancel expire_until op q w = Some (Inr (q', foldl (\<lambda>w d. act d w) w (snd (queue_step op es)))) \<and>
    holds q' (fst (queue_step op es))"
proof (cases op)
  case (Put x e d)
  with assms put_law [of q es x e d] show ?thesis by auto
next
  case (Delay x e)
  with assms obtain old d where "lookup x es = Some (old, d)" "old \<le> e" by (auto split: option.splits)
  with Delay assms delay_law [of q es x old d e] show ?thesis by auto
next
  case (Drop x)
  with assms obtain ed where "lookup x es = Some ed" by auto
  with Drop assms cancel_law [of q es x ed] show ?thesis by auto
next
  case (Expire now)
  with assms expire_law [of q es now w] show ?thesis by simp
qed

lemma exec_run:
  assumes "holds q es" and "legal_run ops es"
  shows "\<exists>q'. exec_all (exec put delay cancel expire_until) ops q w = Some (Inr (q', foldl (\<lambda>w d. act d w) w (snd (queue_run ops es)))) \<and>
    holds q' (fst (queue_run ops es))"
  using assms
proof (induction ops arbitrary: q es w)
  case (Cons op ops)
  from exec_step [OF Cons.prems(1), of op w] Cons.prems(2) obtain q1 where
    1: "exec put delay cancel expire_until op q w = Some (Inr (q1, foldl (\<lambda>w d. act d w) w (snd (queue_step op es))))"
      "holds q1 (fst (queue_step op es))" by auto
  from Cons.IH [OF 1(2), of "foldl (\<lambda>w d. act d w) w (snd (queue_step op es))"] Cons.prems(2) obtain q2 where
    2: "exec_all (exec put delay cancel expire_until) ops q1 (foldl (\<lambda>w d. act d w) w (snd (queue_step op es))) =
        Some (Inr (q2, foldl (\<lambda>w d. act d w) (foldl (\<lambda>w d. act d w) w (snd (queue_step op es)))
          (snd (queue_run ops (fst (queue_step op es))))))"
      "holds q2 (fst (queue_run ops (fst (queue_step op es))))" by auto
  show ?case using 1 2 by (intro exI [of _ q2]) (simp add: split_beta Let_def)
qed simp

end

end
