(* ===== verification/Lst_Timer.thy ===== *)
theory Lst_Timer
  imports Linked_Lists Timed_Queue
begin

text \<open>
  The sorted timer list of \<^verbatim>\<open>src/src/include/lst_timer.h\<close>: the classes util_timer and
  sort_timer_lst at the level of their pointers, and their refinement to insertion into, removal
  from and splitting of a list sorted by expiry. A state holds the two list pointers and the heap of
  timers; an operation returns None when it does not return, Inl of an undefined behaviour, or the
  new state.
\<close>

section \<open>The model\<close>

record util_timer =
  expire :: int
  cb_func :: nat
  user_data :: nat
  t_prev :: ptr
  t_next :: ptr

record sort_timer_lst =
  head :: ptr
  tail :: ptr
  timers :: "util_timer heap"

definition new_list :: "util_timer heap \<Rightarrow> sort_timer_lst" where
  "new_list h = \<lparr>head = None, tail = None, timers = h\<rparr>"

text \<open>The four assignments that put a timer before another one, in the order of the code.\<close>

definition splice_before :: "nat \<Rightarrow> nat \<Rightarrow> util_timer heap \<Rightarrow> util_timer heap res" where
  "splice_before timer tmp h =
     bind_res (store h (Some timer) (\<lambda>t. t\<lparr>t_next := Some tmp\<rparr>)) (\<lambda>h1.
     bind_res (load h1 (Some tmp)) (\<lambda>n.
     bind_res (store h1 (Some timer) (\<lambda>t. t\<lparr>t_prev := t_prev n\<rparr>)) (\<lambda>h2.
     bind_res (load h2 (Some tmp)) (\<lambda>n2.
     bind_res (store h2 (t_prev n2) (\<lambda>q. q\<lparr>t_next := Some timer\<rparr>)) (\<lambda>h3.
     store h3 (Some tmp) (\<lambda>n. n\<lparr>t_prev := Some timer\<rparr>))))))"

text \<open>The loop of the private add\_timer: it returns the pointer it stopped at.\<close>

partial_function (option) insert_loop ::
  "nat \<Rightarrow> ptr \<Rightarrow> util_timer heap \<Rightarrow> (ptr \<times> util_timer heap) res option" where
  "insert_loop timer tmp h =
     (case tmp of
        None \<Rightarrow> Some (Inr (None, h))
      | Some a \<Rightarrow>
         (case load h (Some timer) of
            Inl e \<Rightarrow> Some (Inl e)
          | Inr t \<Rightarrow>
             (case load h (Some a) of
                Inl e \<Rightarrow> Some (Inl e)
              | Inr n \<Rightarrow>
                  if expire t < expire n then Some (map_res (Pair (Some a)) (splice_before timer a h))
                  else insert_loop timer (t_next n) h)))"

declare insert_loop.simps [code]

definition add_timer_behind :: "nat \<Rightarrow> ptr \<Rightarrow> sort_timer_lst \<Rightarrow> sort_timer_lst res option" where
  "add_timer_behind timer start l =
     bind_run (Some (load (timers l) start)) (\<lambda>s.
     bind_run (insert_loop timer (t_next s) (timers l)) (\<lambda>(tmp, h).
     if tmp \<noteq> None then Some (Inr (l\<lparr>timers := h\<rparr>))
     else Some (
       bind_res (store h (tail l) (\<lambda>t. t\<lparr>t_next := Some timer\<rparr>)) (\<lambda>h1.
       bind_res (store h1 (Some timer) (\<lambda>t. t\<lparr>t_next := None\<rparr>)) (\<lambda>h2.
       bind_res (store h2 (Some timer) (\<lambda>t. t\<lparr>t_prev := tail l\<rparr>)) (\<lambda>h3.
       Inr (l\<lparr>timers := h3, tail := Some timer\<rparr>)))))))"

definition add_timer :: "ptr \<Rightarrow> sort_timer_lst \<Rightarrow> sort_timer_lst res option" where
  "add_timer timer l =
     (case timer of
        None \<Rightarrow> Some (Inr l)
      | Some a \<Rightarrow>
        if head l = None then Some (Inr (l\<lparr>head := timer, tail := timer\<rparr>))
        else
          bind_run (Some (load (timers l) timer)) (\<lambda>t.
          bind_run (Some (load (timers l) (head l))) (\<lambda>first.
          if expire t < expire first then Some (
            bind_res (store (timers l) (head l) (\<lambda>n. n\<lparr>t_prev := timer\<rparr>)) (\<lambda>h1.
            bind_res (store h1 timer (\<lambda>n. n\<lparr>t_next := head l\<rparr>)) (\<lambda>h2.
            Inr (l\<lparr>timers := h2, head := timer\<rparr>))))
          else add_timer_behind a (head l) l)))"

definition adjust_timer :: "ptr \<Rightarrow> sort_timer_lst \<Rightarrow> sort_timer_lst res option" where
  "adjust_timer timer l =
     (case timer of
        None \<Rightarrow> Some (Inr l)
      | Some a \<Rightarrow>
        bind_run (Some (load (timers l) timer)) (\<lambda>t.
        let tmp = t_next t in
        if tmp = None then Some (Inr l) else
        bind_run (Some (load (timers l) tmp)) (\<lambda>n.
        if expire t < expire n then Some (Inr l)
        else if timer = head l then
          bind_run (Some (load (timers l) (head l))) (\<lambda>first.
          let head' = t_next first in
          bind_run (Some (store (timers l) head' (\<lambda>n. n\<lparr>t_prev := None\<rparr>))) (\<lambda>h1.
          bind_run (Some (store h1 timer (\<lambda>n. n\<lparr>t_next := None\<rparr>))) (\<lambda>h2.
          add_timer_behind a head' (l\<lparr>timers := h2, head := head'\<rparr>))))
        else
          bind_run (Some (store (timers l) (t_next t) (\<lambda>n. n\<lparr>t_prev := t_prev t\<rparr>))) (\<lambda>h1.
          bind_run (Some (load h1 timer)) (\<lambda>t1.
          bind_run (Some (store h1 (t_prev t1) (\<lambda>n. n\<lparr>t_next := t_next t1\<rparr>))) (\<lambda>h2.
          bind_run (Some (load h2 timer)) (\<lambda>t2.
          add_timer_behind a (t_next t2) (l\<lparr>timers := h2\<rparr>))))))))"

definition del_timer :: "ptr \<Rightarrow> sort_timer_lst \<Rightarrow> sort_timer_lst res" where
  "del_timer timer l =
     (if timer = None then Inr l
      else if timer = head l \<and> timer = tail l then
        bind_res (free (timers l) timer) (\<lambda>h. Inr (l\<lparr>timers := h, head := None, tail := None\<rparr>))
      else if timer = head l then
        bind_res (load (timers l) (head l)) (\<lambda>first.
        bind_res (store (timers l) (t_next first) (\<lambda>n. n\<lparr>t_prev := None\<rparr>)) (\<lambda>h1.
        bind_res (load h1 (head l)) (\<lambda>first1.
        bind_res (free h1 timer) (\<lambda>h2.
        Inr (l\<lparr>timers := h2, head := t_next first1\<rparr>)))))
      else if timer = tail l then
        bind_res (load (timers l) (tail l)) (\<lambda>final.
        bind_res (store (timers l) (t_prev final) (\<lambda>n. n\<lparr>t_next := None\<rparr>)) (\<lambda>h1.
        bind_res (load h1 (tail l)) (\<lambda>final1.
        bind_res (free h1 timer) (\<lambda>h2.
        Inr (l\<lparr>timers := h2, tail := t_prev final1\<rparr>)))))
      else
        bind_res (load (timers l) timer) (\<lambda>t.
        bind_res (store (timers l) (t_prev t) (\<lambda>n. n\<lparr>t_next := t_next t\<rparr>)) (\<lambda>h1.
        bind_res (load h1 timer) (\<lambda>t1.
        bind_res (store h1 (t_next t1) (\<lambda>n. n\<lparr>t_prev := t_prev t1\<rparr>)) (\<lambda>h2.
        bind_res (free h2 timer) (\<lambda>h3.
        Inr (l\<lparr>timers := h3\<rparr>)))))))"

text \<open>
  The callback is a function pointer applied to the user data; what it does to the outside is the
  parameter call. The callbacks of this program do not touch the list.
\<close>

partial_function (option) tick_loop ::
  "(nat \<Rightarrow> nat \<Rightarrow> 'w \<Rightarrow> 'w) \<Rightarrow> int \<Rightarrow> ptr \<Rightarrow> sort_timer_lst \<Rightarrow> 'w \<Rightarrow> (sort_timer_lst \<times> 'w) res option" where
  "tick_loop call cur tmp l w =
     (if tmp = None then Some (Inr (l, w))
      else case load (timers l) tmp of
        Inl e \<Rightarrow> Some (Inl e)
      | Inr t \<Rightarrow>
          if cur < expire t then Some (Inr (l, w))
          else case (if t_next t \<noteq> None then store (timers l) (t_next t) (\<lambda>n. n\<lparr>t_prev := None\<rparr>)
                     else Inr (timers l)) of
            Inl e \<Rightarrow> Some (Inl e)
          | Inr h1 \<Rightarrow>
              (case free h1 tmp of
                 Inl e \<Rightarrow> Some (Inl e)
               | Inr h2 \<Rightarrow> tick_loop call cur (t_next t) (l\<lparr>timers := h2, head := t_next t\<rparr>)
                             (call (cb_func t) (user_data t) w)))"

declare tick_loop.simps [code]

definition tick ::
  "(nat \<Rightarrow> nat \<Rightarrow> 'w \<Rightarrow> 'w) \<Rightarrow> int \<Rightarrow> sort_timer_lst \<Rightarrow> 'w \<Rightarrow> (sort_timer_lst \<times> 'w) res option" where
  "tick call cur l w = (if head l = None then Some (Inr (l, w)) else tick_loop call cur (head l) l w)"

text \<open>The destructor.\<close>

partial_function (option) delete_loop :: "ptr \<Rightarrow> sort_timer_lst \<Rightarrow> sort_timer_lst res option" where
  "delete_loop tmp l =
     (if tmp = None then Some (Inr l)
      else case load (timers l) (head l) of
        Inl e \<Rightarrow> Some (Inl e)
      | Inr first \<Rightarrow>
          (case free (timers l) tmp of
             Inl e \<Rightarrow> Some (Inl e)
           | Inr h \<Rightarrow> delete_loop (t_next first) (l\<lparr>head := t_next first, timers := h\<rparr>)))"

declare delete_loop.simps [code]

definition delete_list :: "sort_timer_lst \<Rightarrow> sort_timer_lst res option" where
  "delete_list l = delete_loop (head l) l"

section \<open>The represented list\<close>

interpretation lt: link_node t_next t_prev "\<lambda>q. t_next_update (\<lambda>_. q)" "\<lambda>q. t_prev_update (\<lambda>_. q)"
  by unfold_locales simp_all

abbreviation chain :: "util_timer heap \<Rightarrow> ptr \<Rightarrow> nat list \<Rightarrow> ptr \<Rightarrow> bool" where
  "chain \<equiv> dseg t_next t_prev"

definition payload :: "util_timer heap \<Rightarrow> nat \<Rightarrow> (int \<times> nat \<times> nat) option" where
  "payload h a = map_option (\<lambda>t. (expire t, cb_func t, user_data t)) (h a)"

definition expiry :: "util_timer heap \<Rightarrow> nat \<Rightarrow> int" where
  "expiry h a = (case h a of Some t \<Rightarrow> expire t | None \<Rightarrow> 0)"

definition represents :: "sort_timer_lst \<Rightarrow> nat list \<Rightarrow> bool" where
  "represents l xs \<longleftrightarrow> chain (timers l) None xs None \<and> distinct xs \<and>
     head l = first_or xs None \<and> (xs \<noteq> [] \<longrightarrow> tail l = Some (last xs))"

lemma represents_heap:
  "represents (l\<lparr>timers := h\<rparr>) xs \<longleftrightarrow> chain h None xs None \<and> distinct xs \<and>
     head l = first_or xs None \<and> (xs \<noteq> [] \<longrightarrow> tail l = Some (last xs))"
  by (simp add: represents_def)

definition sorted_timers :: "sort_timer_lst \<Rightarrow> nat list \<Rightarrow> bool" where
  "sorted_timers l xs \<longleftrightarrow> represents l xs \<and> sorted (map (expiry (timers l)) xs)"

lemma expiry_payload: "payload h = payload h' \<Longrightarrow> expiry h = expiry h'"
proof
  fix a assume "payload h = payload h'"
  then have "payload h a = payload h' a" by simp
  then show "expiry h a = expiry h' a" by (auto simp: payload_def expiry_def split: option.splits)
qed

lemma payload_links [simp]:
  "h a = Some t \<Longrightarrow> expire t' = expire t \<Longrightarrow> cb_func t' = cb_func t \<Longrightarrow> user_data t' = user_data t \<Longrightarrow>
   payload (h(a \<mapsto> t')) = payload h"
  by (rule ext) (simp add: payload_def)

lemma expiry_simps [simp]: "h a = Some t \<Longrightarrow> expiry h a = expire t"
  by (simp add: expiry_def)

section \<open>Insertion\<close>

lemma splice_before_correct:
  assumes "chain h None (pre @ b # a # post) None" and "distinct (pre @ b # a # post)"
    and "x \<notin> set (pre @ b # a # post)" and "h x = Some t"
  shows "\<exists>h'. splice_before x a h = Inr h' \<and> chain h' None (pre @ b # x # a # post) None \<and>
    payload h' = payload h"
proof -
  obtain ta tb where n: "h a = Some ta" "h b = Some tb" "t_prev ta = Some b"
    using assms(1) by (auto split: option.splits)
  have ne: "x \<noteq> a" "x \<noteq> b" "a \<noteq> b" using assms(2,3) by auto
  let ?t = "t\<lparr>t_next := Some a, t_prev := Some b\<rparr>"
  let ?h = "h(x \<mapsto> ?t, b \<mapsto> tb\<lparr>t_next := Some x\<rparr>, a \<mapsto> ta\<lparr>t_prev := Some x\<rparr>)"
  have "splice_before x a h = Inr ?h"
    using n ne assms(4) by (simp add: splice_before_def)
  moreover have "chain ?h None (pre @ b # x # a # post) None"
    using lt.link_between [of h None pre b a post None x tb ta ?t] assms n by simp
  moreover have "payload ?h = payload h" using n ne assms(4) by simp
  ultimately show ?thesis by blast
qed

lemma insert_loop_correct:
  assumes "chain h None (pre @ b # post) None" and "distinct (pre @ b # post)"
    and "x \<notin> set (pre @ b # post)" and "h x = Some t"
  defines "stay \<equiv> takeWhile (\<lambda>y. expiry h y \<le> expire t) post"
    and "later \<equiv> dropWhile (\<lambda>y. expiry h y \<le> expire t) post"
  shows "\<exists>h'. insert_loop x (first_or post None) h = Some (Inr (first_or later None, h')) \<and>
    (if later = [] then h' = h
     else chain h' None (pre @ b # stay @ x # later) None \<and> payload h' = payload h)"
  using assms(1-4) unfolding stay_def later_def
proof (induction post arbitrary: pre b)
  case Nil
  then show ?case by (simp add: insert_loop.simps)
next
  case (Cons a post)
  obtain ta where ta: "h a = Some ta" "t_next ta = first_or post None"
    using Cons.prems(1) by (auto split: option.splits)
  show ?case
  proof (cases "expire t < expire ta")
    case True
    from splice_before_correct [OF Cons.prems] obtain h' where
      "splice_before x a h = Inr h'" "chain h' None (pre @ b # x # a # post) None" "payload h' = payload h"
      by blast
    then show ?thesis using True ta Cons.prems(4) by (simp add: insert_loop.simps)
  next
    case False
    then have "insert_loop x (first_or (a # post) None) h = insert_loop x (first_or post None) h"
      using ta Cons.prems(4) by (simp add: insert_loop.simps [of x "Some a"])
    moreover from Cons.IH [of "pre @ [b]" a] Cons.prems obtain h' where
      "insert_loop x (first_or post None) h =
         Some (Inr (first_or (dropWhile (\<lambda>y. expiry h y \<le> expire t) post) None, h'))"
      "if dropWhile (\<lambda>y. expiry h y \<le> expire t) post = [] then h' = h
       else chain h' None ((pre @ [b]) @ a # takeWhile (\<lambda>y. expiry h y \<le> expire t) post @
         x # dropWhile (\<lambda>y. expiry h y \<le> expire t) post) None \<and> payload h' = payload h"
      by auto
    ultimately show ?thesis using False ta
      by (intro exI [of _ h']) (simp split: if_splits)
  qed
qed

definition insert_sorted :: "(nat \<Rightarrow> int) \<Rightarrow> nat \<Rightarrow> nat list \<Rightarrow> nat list" where
  "insert_sorted key x xs = takeWhile (\<lambda>y. key y \<le> key x) xs @ x # dropWhile (\<lambda>y. key y \<le> key x) xs"

lemma insert_sorted_Cons: "key y \<le> key x \<Longrightarrow> insert_sorted key x (y # ys) = y # insert_sorted key x ys"
  by (simp add: insert_sorted_def)

lemma insert_sorted_front: "ys = [] \<or> key x < key (hd ys) \<Longrightarrow> insert_sorted key x ys = x # ys"
  by (cases ys) (auto simp: insert_sorted_def)

lemma set_insert_sorted [simp]: "set (insert_sorted key x xs) = insert x (set xs)"
proof -
  have "set xs = set (takeWhile (\<lambda>y. key y \<le> key x) xs @ dropWhile (\<lambda>y. key y \<le> key x) xs)" by simp
  then show ?thesis unfolding insert_sorted_def set_append by auto
qed

lemma distinct_insert_sorted [simp]: "distinct (insert_sorted key x xs) \<longleftrightarrow> x \<notin> set xs \<and> distinct xs"
proof (induction xs)
  case (Cons y ys)
  then show ?case
    by (cases "key y \<le> key x") (auto simp: insert_sorted_Cons insert_sorted_front)
qed (simp add: insert_sorted_def)

lemma sorted_insert_sorted:
  assumes "sorted (map key xs)"
  shows "sorted (map key (insert_sorted key x xs))"
proof -
  have "(\<lambda>y. key y \<le> key x) = (\<lambda>y. \<not> key x < key y)" by (simp add: not_less)
  with sorted_insert_between [OF assms, of x] show ?thesis by (simp add: insert_sorted_def)
qed

text \<open>The private insertion behind a start timer that does not expire later.\<close>

lemma add_timer_behind_correct:
  assumes "represents l (pre @ b # post)" and "x \<notin> set (pre @ b # post)" and "timers l x = Some t"
  shows "\<exists>l'. add_timer_behind x (Some b) l = Some (Inr l') \<and>
    represents l' (pre @ b # insert_sorted (expiry (timers l)) x post) \<and>
    payload (timers l') = payload (timers l)"
proof -
  let ?h = "timers l"
  let ?stay = "takeWhile (\<lambda>y. expiry ?h y \<le> expire t) post"
  let ?later = "dropWhile (\<lambda>y. expiry ?h y \<le> expire t) post"
  from assms(1) have c: "chain ?h None (pre @ b # post) None" and d: "distinct (pre @ b # post)"
    and hd: "head l = first_or (pre @ b # post) None" and tl: "tail l = Some (last (pre @ b # post))"
    by (simp_all add: represents_def)
  have ins: "insert_sorted (expiry ?h) x post = ?stay @ x # ?later"
    using assms(3) by (simp add: insert_sorted_def)
  obtain tb where tb: "?h b = Some tb" "t_next tb = first_or post None"
    using c by (auto split: option.splits)
  from insert_loop_correct [OF c d assms(2,3)] obtain h' where
    lo: "insert_loop x (first_or post None) ?h = Some (Inr (first_or ?later None, h'))" and
    h': "if ?later = [] then h' = ?h
       else chain h' None (pre @ b # ?stay @ x # ?later) None \<and> payload h' = payload ?h" by blast
  have d': "distinct (pre @ b # ?stay @ x # ?later)"
    using d assms(2) distinct_insert_sorted [of "expiry ?h" x post] set_insert_sorted [of "expiry ?h" x post]
    unfolding ins by auto
  show ?thesis
  proof (cases "?later = []")
    case False
    then obtain z zs where z: "?later = z # zs" by (cases ?later) auto
    have "add_timer_behind x (Some b) l = Some (Inr (l\<lparr>timers := h'\<rparr>))"
      using tb lo unfolding z by (simp add: add_timer_behind_def)
    moreover have "chain h' None (pre @ b # ?stay @ x # ?later) None" and pl: "payload h' = payload ?h"
      using h' by (simp_all only: False if_False)
    moreover have "last (pre @ b # ?stay @ x # ?later) = last (pre @ b # post)"
    proof -
      have "last (pre @ b # ?stay @ x # ?later) = last ?later" unfolding z by simp
      also have "\<dots> = last post" using False by (metis last_appendR takeWhile_dropWhile_id)
      also have "\<dots> = last (pre @ b # post)" using False by auto
      finally show ?thesis .
    qed
    moreover have "head l = first_or (pre @ b # ?stay @ x # ?later) None" using hd by simp
    ultimately have "represents (l\<lparr>timers := h'\<rparr>) (pre @ b # ?stay @ x # ?later)"
      using d' tl by (simp only: represents_heap simp_thms)
    with \<open>add_timer_behind x (Some b) l = Some (Inr (l\<lparr>timers := h'\<rparr>))\<close> pl show ?thesis
      unfolding ins by (intro exI [of _ "l\<lparr>timers := h'\<rparr>"]) simp
  next
    case True
    then have st: "?stay = post" by (metis append_Nil2 takeWhile_dropWhile_id)
    obtain ys a where ys: "pre @ b # post = ys @ [a]"
      by (metis append_is_Nil_conv list.distinct(1) rev_exhaust)
    with tl have tl: "tail l = Some a" by simp
    have "a \<in> set (pre @ b # post)" unfolding ys by simp
    with c obtain ta where ta: "?h a = Some ta" using dseg_allocated by blast
    have xa: "x \<noteq> a" using assms(2) unfolding ys by simp
    let ?t = "t\<lparr>t_next := None, t_prev := Some a\<rparr>"
    let ?h' = "?h(a \<mapsto> ta\<lparr>t_next := Some x\<rparr>, x \<mapsto> ?t)"
    have "chain ?h None (ys @ [a]) None" "a \<notin> set ys" "x \<notin> set (ys @ [a])"
      using c d assms(2) unfolding ys by auto
    from lt.link_at_end [OF this ta, of ?t None] have
      c': "chain ?h' None (ys @ [a, x]) None" by simp
    have "add_timer_behind x (Some b) l = Some (Inr (l\<lparr>timers := ?h', tail := Some x\<rparr>))"
      using tb lo True h' ta xa tl assms(3) by (simp add: add_timer_behind_def)
    moreover have "pre @ b # insert_sorted (expiry ?h) x post = ys @ [a, x]"
      unfolding ins st True using ys by (metis append.assoc append_Cons append_Nil)
    moreover have "distinct (ys @ [a, x])" using d assms(2) unfolding ys by auto
    moreover have "payload ?h' = payload ?h" using ta xa assms(3) by simp
    moreover have "first_or (ys @ [a, x]) None = head l" unfolding hd ys by simp
    ultimately show ?thesis using c'
      by (intro exI [of _ "l\<lparr>timers := ?h', tail := Some x\<rparr>"]) (simp add: represents_def)
  qed
qed

definition fresh :: "sort_timer_lst \<Rightarrow> nat \<Rightarrow> nat list \<Rightarrow> bool" where
  "fresh l x xs \<longleftrightarrow> x \<notin> set xs \<and>
     (\<exists>t. timers l x = Some t \<and> t_prev t = None \<and> t_next t = None)"

lemma add_timer_correct:
  assumes "represents l xs" and "fresh l x xs"
  shows "\<exists>l'. add_timer (Some x) l = Some (Inr l') \<and> payload (timers l') = payload (timers l) \<and>
    represents l' (insert_sorted (expiry (timers l)) x xs)"
proof -
  from assms(2) obtain t where t: "timers l x = Some t" "t_prev t = None" "t_next t = None" and x: "x \<notin> set xs"
    by (auto simp: fresh_def)
  show ?thesis
  proof (cases xs)
    case Nil
    with assms(1) have "add_timer (Some x) l = Some (Inr (l\<lparr>head := Some x, tail := Some x\<rparr>))"
      by (simp add: add_timer_def represents_def)
    with Nil t show ?thesis
      by (intro exI [of _ "l\<lparr>head := Some x, tail := Some x\<rparr>"]) (simp add: represents_def insert_sorted_def)
  next
    case (Cons b post)
    with assms(1) have c: "chain (timers l) None (b # post) None" and d: "distinct (b # post)"
      and hd: "head l = Some b" and tl: "tail l = Some (last (b # post))"
      by (simp_all add: represents_def)
    obtain tb where tb: "timers l b = Some tb" using c by (auto split: option.splits)
    show ?thesis
    proof (cases "expire t < expire tb")
      case True
      have xb: "x \<noteq> b" using x Cons by simp
      let ?t = "t\<lparr>t_next := Some b\<rparr>"
      let ?h = "(timers l)(b \<mapsto> tb\<lparr>t_prev := Some x\<rparr>, x \<mapsto> ?t)"
      have "chain ?h None (x # b # post) None"
        using lt.link_at_front [OF c _ _ tb, of x ?t] x Cons d t by simp
      moreover have "add_timer (Some x) l = Some (Inr (l\<lparr>timers := ?h, head := Some x\<rparr>))"
        using True t tb hd xb by (simp add: add_timer_def)
      moreover have "insert_sorted (expiry (timers l)) x xs = x # b # post"
        using insert_sorted_front [of "b # post" "expiry (timers l)" x] True t tb Cons by simp
      moreover have "payload ?h = payload (timers l)" using t tb xb by simp
      ultimately show ?thesis using x Cons d tl
        by (intro exI [of _ "l\<lparr>timers := ?h, head := Some x\<rparr>"]) (simp add: represents_def)
    next
      case False
      then have "add_timer (Some x) l = add_timer_behind x (Some b) l"
        using t tb hd by (simp add: add_timer_def)
      moreover have "insert_sorted (expiry (timers l)) x xs = b # insert_sorted (expiry (timers l)) x post"
        using False t tb Cons by (simp add: insert_sorted_Cons)
      ultimately show ?thesis
        using add_timer_behind_correct [of l "[]" b post x t] assms(1) x t Cons
        by (simp only: append_Nil) blast
    qed
  qed
qed

section \<open>Removal\<close>

lemma payload_free [simp]: "payload (h(a := None)) = (payload h)(a := None)"
  by (rule ext) (simp add: payload_def)

lemma del_timer_correct:
  assumes "represents l (pre @ x # post)"
  shows "\<exists>l'. del_timer (Some x) l = Inr l' \<and> represents l' (pre @ post) \<and>
    payload (timers l') = (payload (timers l))(x := None)"
proof -
  let ?h = "timers l"
  from assms have c: "chain ?h None (pre @ x # post) None" and d: "distinct (pre @ x # post)"
    and hd: "head l = first_or (pre @ x # post) None" and tl: "tail l = Some (last (pre @ x # post))"
    by (simp_all add: represents_def)
  obtain tx where tx: "?h x = Some tx" "t_next tx = first_or post None" "t_prev tx = last_or None pre"
    using c by (auto split: option.splits)
  consider "pre = []" "post = []" | b ys where "pre = []" "post = b # ys"
    | ys a where "pre = ys @ [a]" "post = []" | ys a b zs where "pre = ys @ [a]" "post = b # zs"
    by (metis list.exhaust rev_exhaust)
  then show ?thesis
  proof cases
    case 1
    with tx hd tl have "del_timer (Some x) l = Inr (l\<lparr>timers := ?h(x := None), head := None, tail := None\<rparr>)"
      by (simp add: del_timer_def)
    with 1 show ?thesis by (intro exI [of _ "l\<lparr>timers := ?h(x := None), head := None, tail := None\<rparr>"])
        (simp add: represents_def)
  next
    case 2
    obtain tb where tb: "?h b = Some tb" using c 2 by (auto split: option.splits)
    have xb: "x \<noteq> b" "x \<noteq> last post" using d 2 by auto
    let ?h' = "?h(b \<mapsto> tb\<lparr>t_prev := None\<rparr>, x := None)"
    have "chain (?h(b \<mapsto> tb\<lparr>t_prev := None\<rparr>)) None (b # ys) None"
      using lt.unlink_first [of ?h None x b ys None tb None] c d tb 2 by simp
    then have "chain ?h' None (b # ys) None" using d 2 by (subst dseg_upd_other) auto
    moreover have "del_timer (Some x) l = Inr (l\<lparr>timers := ?h', head := Some b\<rparr>)"
      using 2 tx tb hd tl xb by (simp add: del_timer_def)
    moreover have "payload ?h' = (payload ?h)(x := None)" using tb by simp
    ultimately show ?thesis using 2 d tl
      by (intro exI [of _ "l\<lparr>timers := ?h', head := Some b\<rparr>"]) (simp add: represents_def)
  next
    case 3
    have "a \<in> set (pre @ x # post)" using 3 by simp
    with c obtain ta where ta: "?h a = Some ta" using dseg_allocated by blast
    have xa: "x \<noteq> a" using d 3 by auto
    have hx: "head l \<noteq> Some x" using d 3 hd by (cases ys) auto
    let ?h' = "?h(a \<mapsto> ta\<lparr>t_next := None\<rparr>, x := None)"
    have "chain (?h(a \<mapsto> ta\<lparr>t_next := None\<rparr>)) None (ys @ [a]) None"
      using lt.unlink_last [of ?h None ys a x None ta None] c d ta 3 by simp
    then have "chain ?h' None (ys @ [a]) None" using d 3 by (subst dseg_upd_other) auto
    moreover have "del_timer (Some x) l = Inr (l\<lparr>timers := ?h', tail := Some a\<rparr>)"
      using 3 tx ta hx tl xa by (simp add: del_timer_def)
    moreover have "payload ?h' = (payload ?h)(x := None)" using ta by simp
    ultimately show ?thesis using 3 d hd
      by (intro exI [of _ "l\<lparr>timers := ?h', tail := Some a\<rparr>"]) (simp add: represents_def)
  next
    case 4
    have "a \<in> set (pre @ x # post)" "b \<in> set (pre @ x # post)" using 4 by simp_all
    with c obtain ta tb where tab: "?h a = Some ta" "?h b = Some tb" using dseg_allocated by blast
    have ne: "x \<noteq> a" "x \<noteq> b" "a \<noteq> b" using d 4 by auto
    have hx: "head l \<noteq> Some x" using d 4 hd by (cases ys) auto
    have tlx: "tail l \<noteq> Some x" using d 4 tl by auto
    let ?h' = "?h(a \<mapsto> ta\<lparr>t_next := Some b\<rparr>, b \<mapsto> tb\<lparr>t_prev := Some a\<rparr>, x := None)"
    have "chain (?h(a \<mapsto> ta\<lparr>t_next := Some b\<rparr>, b \<mapsto> tb\<lparr>t_prev := Some a\<rparr>)) None (ys @ [a] @ b # zs) None"
      using lt.unlink_between [of ?h None ys a x b zs None ta tb] c d tab 4 by simp
    then have "chain ?h' None (ys @ [a] @ b # zs) None" using d 4 by (subst dseg_upd_other) auto
    moreover have "del_timer (Some x) l = Inr (l\<lparr>timers := ?h'\<rparr>)"
      using 4 tx tab hx tlx ne by (simp add: del_timer_def)
    moreover have "payload ?h' = (payload ?h)(x := None)" using tab ne by simp
    ultimately show ?thesis using 4 d hd tl
      by (intro exI [of _ "l\<lparr>timers := ?h'\<rparr>"]) (simp add: represents_def)
  qed
qed

section \<open>Expiry\<close>

text \<open>Calling the callbacks of a list of timers, and freeing them.\<close>

definition fire :: "(nat \<Rightarrow> nat \<Rightarrow> 'w \<Rightarrow> 'w) \<Rightarrow> util_timer heap \<Rightarrow> nat list \<Rightarrow> 'w \<Rightarrow> 'w" where
  "fire call h xs w = foldl (\<lambda>w a. case payload h a of Some (_, f, d) \<Rightarrow> call f d w | None \<Rightarrow> w) w xs"

definition without :: "(nat \<Rightarrow> 'a option) \<Rightarrow> nat set \<Rightarrow> (nat \<Rightarrow> 'a option)" where
  "without m A = (\<lambda>a. if a \<in> A then None else m a)"

lemma without_empty [simp]: "without m {} = m"
  by (simp add: without_def)

lemma without_insert [simp]: "without m (insert a A) = without (m(a := None)) A"
  by (auto simp: without_def)

lemma fire_Nil [simp]: "fire call h [] w = w"
  by (simp add: fire_def)

lemma fire_Cons:
  "h a = Some t \<Longrightarrow> fire call h (a # xs) w = fire call h xs (call (cb_func t) (user_data t) w)"
  by (simp add: fire_def payload_def)

lemma fire_cong: "(\<And>a. a \<in> set xs \<Longrightarrow> payload h a = payload h' a) \<Longrightarrow> fire call h xs w = fire call h' xs w"
  by (induction xs arbitrary: w) (simp_all add: fire_def)

lemma expiry_cong: "payload h a = payload h' a \<Longrightarrow> expiry h a = expiry h' a"
  by (auto simp: payload_def expiry_def split: option.splits)

text \<open>One pass of the loop removes the head.\<close>

lemma unlink_head:
  assumes "represents l (x # xs)" and "timers l x = Some t"
  obtains h1 h2 where "t_next t = first_or xs None"
    and "(if t_next t \<noteq> None then store (timers l) (t_next t) (\<lambda>n. n\<lparr>t_prev := None\<rparr>) else Inr (timers l)) = Inr h1"
    and "free h1 (Some x) = Inr h2" and "represents (l\<lparr>timers := h2, head := t_next t\<rparr>) xs"
    and "payload h2 = (payload (timers l))(x := None)"
proof -
  from assms have c: "chain (timers l) None (x # xs) None" and d: "distinct (x # xs)"
    and tl: "tail l = Some (last (x # xs))"
    and nx: "t_next t = first_or xs None" by (auto simp: represents_def)
  show thesis
  proof (cases xs)
    case Nil
    with that [of "timers l" "(timers l)(x := None)"] nx assms(2) show ?thesis by (simp add: represents_def)
  next
    case (Cons b ys)
    obtain tb where tb: "timers l b = Some tb" using c Cons by (auto split: option.splits)
    let ?h1 = "(timers l)(b \<mapsto> tb\<lparr>t_prev := None\<rparr>)"
    have "chain ?h1 None (b # ys) None"
      using lt.unlink_first [of "timers l" None x b ys None tb None] c d tb Cons by simp
    moreover have "x \<notin> set (b # ys)" using d Cons by simp
    ultimately have "chain (?h1(x := None)) None (b # ys) None" by (subst dseg_upd_other)
    with that [of ?h1 "?h1(x := None)"] nx assms(2) tb Cons d tl show ?thesis
      by (simp add: represents_def)
  qed
qed

lemma tick_loop_correct:
  assumes "represents l xs"
  shows "\<exists>l'. tick_loop call cur (first_or xs None) l w = Some (Inr (l', fire call (timers l) (takeWhile (\<lambda>a. expiry (timers l) a \<le> cur) xs) w)) \<and>
    represents l' (dropWhile (\<lambda>a. expiry (timers l) a \<le> cur) xs) \<and> payload (timers l') = without (payload (timers l)) (set (takeWhile (\<lambda>a. expiry (timers l) a \<le> cur) xs))"
  using assms(1)
proof (induction xs arbitrary: l w)
  case Nil
  then show ?case by (simp add: tick_loop.simps)
next
  case (Cons x xs)
  then have d: "distinct (x # xs)" by (simp add: represents_def)
  from Cons.prems obtain t where t: "timers l x = Some t"
    by (auto simp: represents_def split: option.splits)
  show ?case
  proof (cases "cur < expire t")
    case True
    then show ?thesis using t Cons.prems by (simp add: tick_loop.simps [of _ _ "Some x"])
  next
    case False
    from unlink_head [OF Cons.prems t] obtain h1 h2 where u:
      "t_next t = first_or xs None"
      "(if t_next t \<noteq> None then store (timers l) (t_next t) (\<lambda>n. n\<lparr>t_prev := None\<rparr>) else Inr (timers l)) = Inr h1"
      "free h1 (Some x) = Inr h2" and r: "represents (l\<lparr>timers := h2, head := t_next t\<rparr>) xs"
      and p: "payload h2 = (payload (timers l))(x := None)" .
    have same: "payload h2 a = payload (timers l) a" if "a \<in> set xs" for a
      using that d p by auto
    then have key: "expiry h2 a = expiry (timers l) a" if "a \<in> set xs" for a
      using that expiry_cong by blast
    let ?P = "\<lambda>a. expiry (timers l) a \<le> cur" and ?P2 = "\<lambda>a. expiry h2 a \<le> cur"
    have tw: "takeWhile ?P2 xs = takeWhile ?P xs" and dw: "dropWhile ?P2 xs = dropWhile ?P xs"
      using key by (auto intro: takeWhile_cong dropWhile_cong)
    have step: "tick_loop call cur (Some x) l w = tick_loop call cur (first_or xs None)
        (l\<lparr>timers := h2, head := t_next t\<rparr>) (call (cb_func t) (user_data t) w)"
      using False t u(2,3) by (subst tick_loop.simps) (simp add: u(1))
    have f: "fire call h2 (takeWhile ?P xs) w' = fire call (timers l) (takeWhile ?P xs) w'" for w'
      using same by (intro fire_cong) (auto dest: set_takeWhileD)
    from Cons.IH [OF r, of "call (cb_func t) (user_data t) w"] show ?thesis
      using False t p by (auto simp del: fun_upd_apply simp: step tw dw f fire_Cons [of "timers l" x t call, OF t])
  qed
qed

lemma tick_correct:
  assumes "represents l xs"
  shows "\<exists>l'. tick call cur l w = Some (Inr (l', fire call (timers l) (takeWhile (\<lambda>a. expiry (timers l) a \<le> cur) xs) w)) \<and>
    represents l' (dropWhile (\<lambda>a. expiry (timers l) a \<le> cur) xs) \<and> payload (timers l') = without (payload (timers l)) (set (takeWhile (\<lambda>a. expiry (timers l) a \<le> cur) xs))"
proof (cases xs)
  case Nil
  with assms(1) show ?thesis by (simp add: tick_def represents_def)
next
  case (Cons x ys)
  have "head l = first_or xs None" using assms(1) by (simp add: represents_def)
  with Cons tick_loop_correct [OF assms(1), of call cur w] show ?thesis
    by (simp add: tick_def)
qed

lemma sorted_split_key:
  fixes key :: "nat \<Rightarrow> int"
  assumes "sorted (map key xs)"
  shows "takeWhile (\<lambda>a. key a \<le> k) xs = filter (\<lambda>a. key a \<le> k) xs"
    and "dropWhile (\<lambda>a. key a \<le> k) xs = filter (\<lambda>a. k < key a) xs"
proof -
  have "takeWhile (\<lambda>a. key a \<le> k) xs = filter (\<lambda>a. key a \<le> k) xs \<and>
    dropWhile (\<lambda>a. key a \<le> k) xs = filter (\<lambda>a. k < key a) xs"
    using assms
  proof (induction xs)
    case (Cons x xs)
    show ?case
    proof (cases "key x \<le> k")
      case True
      with Cons show ?thesis by simp
    next
      case False
      with Cons.prems have "\<forall>y \<in> set (x # xs). k < key y" by force
      then have "filter (\<lambda>a. key a \<le> k) (x # xs) = []" "filter (\<lambda>a. k < key a) (x # xs) = x # xs"
        by (auto simp: filter_empty_conv filter_id_conv)
      with False show ?thesis by simp
    qed
  qed simp
  then show "takeWhile (\<lambda>a. key a \<le> k) xs = filter (\<lambda>a. key a \<le> k) xs"
    and "dropWhile (\<lambda>a. key a \<le> k) xs = filter (\<lambda>a. k < key a) xs" by blast+
qed

section \<open>Adjustment and destruction\<close>

lemma adjust_timer_correct:
  assumes "represents l (pre @ x # post)" and "sorted (map (expiry (timers l)) (pre @ post))"
    and "\<forall>y \<in> set pre. expiry (timers l) y \<le> expiry (timers l) x"
  shows "\<exists>l'. adjust_timer (Some x) l = Some (Inr l') \<and> payload (timers l') = payload (timers l) \<and>
    represents l' (insert_sorted (expiry (timers l)) x (pre @ post))"
proof -
  let ?h = "timers l" and ?key = "expiry (timers l)"
  from assms(1) have c: "chain ?h None (pre @ x # post) None" and d: "distinct (pre @ x # post)"
    and hd: "head l = first_or (pre @ x # post) None" and tl: "tail l = Some (last (pre @ x # post))"
    by (simp_all add: represents_def)
  obtain tx where tx: "?h x = Some tx" "t_next tx = first_or post None" "t_prev tx = last_or None pre"
    using c by (auto split: option.splits)
  have ins: "insert_sorted ?key x (pre @ post) = pre @ insert_sorted ?key x post"
    using assms(3) by (induction pre) (simp_all add: insert_sorted_Cons)
  show ?thesis
  proof (cases "post = [] \<or> ?key x < ?key (List.hd post)")
    case True
    then have "insert_sorted ?key x (pre @ post) = pre @ x # post"
      by (simp add: ins insert_sorted_front)
    moreover have "adjust_timer (Some x) l = Some (Inr l)"
    proof (cases post)
      case Nil
      with tx show ?thesis by (simp add: adjust_timer_def)
    next
      case (Cons b zs)
      then obtain tb where "?h b = Some tb" using c by (auto split: option.splits)
      with Cons True tx show ?thesis by (simp add: adjust_timer_def)
    qed
    ultimately show ?thesis using assms(1) by auto
  next
    case False
    then obtain b zs where post: "post = b # zs" and le: "?key b \<le> ?key x" by (cases post) auto
    obtain tb where tb: "?h b = Some tb" using c post by (auto split: option.splits)
    have xb: "x \<noteq> b" using d post by auto
    have ins': "insert_sorted ?key x (pre @ post) = pre @ b # insert_sorted ?key x zs"
      using ins le post by (simp add: insert_sorted_Cons)
    have last: "last (pre @ x # post) = last (pre @ b # zs)" using post by simp
    have dz: "distinct (pre @ b # zs)" "x \<notin> set (pre @ b # zs)" using d post by auto
    show ?thesis
    proof (cases pre rule: rev_cases)
      case Nil
      let ?h2 = "?h(b \<mapsto> tb\<lparr>t_prev := None\<rparr>, x \<mapsto> tx\<lparr>t_next := None\<rparr>)"
      let ?l2 = "l\<lparr>timers := ?h2, head := Some b\<rparr>"
      have step: "adjust_timer (Some x) l = add_timer_behind x (Some b) ?l2"
        using tx tb xb le post hd Nil by (simp add: adjust_timer_def Let_def)
      have pl: "payload ?h2 = payload ?h" using tx tb xb by simp
      have "chain (?h(b \<mapsto> tb\<lparr>t_prev := None\<rparr>)) None (b # zs) None"
        using lt.unlink_first [of ?h None x b zs None tb None] c d tb Nil post by simp
      then have "chain ?h2 None (b # zs) None" using dz(2) Nil by (subst dseg_upd_other) auto
      then have "represents ?l2 ([] @ b # zs)"
        using dz Nil tl last by (simp add: represents_def)
      from add_timer_behind_correct [OF this, of x "tx\<lparr>t_next := None\<rparr>"] dz(2) Nil obtain l' where
        "add_timer_behind x (Some b) ?l2 = Some (Inr l')"
        "represents l' (b # insert_sorted (expiry ?h2) x zs)" "payload (timers l') = payload ?h2"
        by auto
      then show ?thesis using step ins' Nil pl expiry_payload [OF pl] by auto
    next
      case (snoc ys a)
      have "a \<in> set (pre @ x # post)" using snoc by simp
      with c obtain ta where ta: "?h a = Some ta" using dseg_allocated by blast
      have ne: "x \<noteq> a" "a \<noteq> b" using d snoc post by auto
      have hx: "head l \<noteq> Some x" using d hd snoc by (cases ys) auto
      let ?h2 = "?h(b \<mapsto> tb\<lparr>t_prev := Some a\<rparr>, a \<mapsto> ta\<lparr>t_next := Some b\<rparr>)"
      have step: "adjust_timer (Some x) l = add_timer_behind x (Some b) (l\<lparr>timers := ?h2\<rparr>)"
        using tx tb ta xb ne le post hx snoc by (simp add: adjust_timer_def Let_def)
      have pl: "payload ?h2 = payload ?h" using ta tb ne by simp
      have "?h2 = ?h(a \<mapsto> ta\<lparr>t_next := Some b\<rparr>, b \<mapsto> tb\<lparr>t_prev := Some a\<rparr>)"
        using ne by (simp add: fun_upd_twist)
      moreover have "chain (?h(a \<mapsto> ta\<lparr>t_next := Some b\<rparr>, b \<mapsto> tb\<lparr>t_prev := Some a\<rparr>)) None (ys @ [a] @ b # zs) None"
        using lt.unlink_between [of ?h None ys a x b zs None ta tb] c d ta tb snoc post by simp
      ultimately have "represents (l\<lparr>timers := ?h2\<rparr>) (pre @ b # zs)"
        using dz hd tl last snoc by (simp add: represents_heap)
      from add_timer_behind_correct [OF this dz(2), of tx] tx ne xb obtain l' where
        "add_timer_behind x (Some b) (l\<lparr>timers := ?h2\<rparr>) = Some (Inr l')"
        "represents l' (pre @ b # insert_sorted (expiry ?h2) x zs)" "payload (timers l') = payload ?h2"
        by auto
      then show ?thesis using step ins' pl expiry_payload [OF pl] by auto
    qed
  qed
qed

lemma delete_loop_correct:
  assumes "chain (timers l) p xs None" and "distinct xs" and "head l = first_or xs None"
  shows "\<exists>l'. delete_loop (first_or xs None) l = Some (Inr l') \<and> head l' = None \<and>
    payload (timers l') = without (payload (timers l)) (set xs)"
  using assms
proof (induction xs arbitrary: l p)
  case Nil
  then show ?case by (simp add: delete_loop.simps)
next
  case (Cons x xs)
  from Cons.prems obtain t where t: "timers l x = Some t" "t_next t = first_or xs None"
    by (auto split: option.splits)
  let ?l = "l\<lparr>head := first_or xs None, timers := (timers l)(x := None)\<rparr>"
  have "delete_loop (Some x) l = delete_loop (first_or xs None) ?l"
    using t Cons.prems(3) by (subst delete_loop.simps) simp
  moreover have "chain (timers ?l) (Some x) xs None" using Cons.prems t by simp
  ultimately show ?case using Cons.IH [of ?l "Some x"] Cons.prems(2)
    by (simp del: fun_upd_apply)
qed

section \<open>The list as a timed queue\<close>

text \<open>
  What the server does with the list: it allocates a timer, sets its callback, its data and its
  expiry and adds it; it sets a new expiry and adjusts; it deletes; it ticks.
\<close>

definition put_timer :: "nat \<Rightarrow> nat \<Rightarrow> int \<Rightarrow> nat \<Rightarrow> sort_timer_lst \<Rightarrow> sort_timer_lst res option" where
  "put_timer f x e d l = add_timer (Some x) (l\<lparr>timers := (timers l)(x \<mapsto>
     \<lparr>expire = e, cb_func = f, user_data = d, t_prev = None, t_next = None\<rparr>)\<rparr>)"

definition delay_timer :: "nat \<Rightarrow> int \<Rightarrow> sort_timer_lst \<Rightarrow> sort_timer_lst res option" where
  "delay_timer x e l =
     bind_run (Some (store (timers l) (Some x) (\<lambda>t. t\<lparr>expire := e\<rparr>))) (\<lambda>h.
     adjust_timer (Some x) (l\<lparr>timers := h\<rparr>))"

definition cancel_timer :: "nat \<Rightarrow> sort_timer_lst \<Rightarrow> sort_timer_lst res" where
  "cancel_timer x l = del_timer (Some x) l"

text \<open>Every allocated timer is in the list (none is leaked), and every callback is f.\<close>

definition holds_timers :: "nat \<Rightarrow> sort_timer_lst \<Rightarrow> nat entry list \<Rightarrow> bool" where
  "holds_timers f l es \<longleftrightarrow> represents l (map addr_of es) \<and> dom (timers l) = addr_of ` set es \<and>
     (\<forall>(x, e, d) \<in> set es. payload (timers l) x = Some (e, f, d)) \<and> sorted (map when_of es)"

lemma insert_sorted_entry:
  assumes "\<forall>y \<in> set es. key (addr_of y) = when_of y" and "key x = e"
  shows "insert_sorted key x (map addr_of es) = map addr_of (insert_entry (x, e, d) es)"
  using assms
proof (induction es)
  case (Cons y es)
  then show ?case
    by (cases "when_of y \<le> e") (auto simp: insert_sorted_Cons insert_sorted_front insert_entry_Cons)
qed (simp add: insert_sorted_def insert_entry_def)

lemma payload_None: "payload h a = None \<longleftrightarrow> h a = None"
  by (simp add: payload_def)

lemma dom_payload: "dom (payload h) = dom h"
  by (auto simp: dom_def payload_def)

lemma expiry_entry: "payload h x = Some (e, f, d) \<Longrightarrow> expiry h x = e"
  by (auto simp: payload_def expiry_def)

lemma holds_sorted_queue: "holds_timers f l es \<Longrightarrow> sorted_queue es"
  by (simp add: holds_timers_def sorted_queue_def represents_def)

lemma holds_expiry:
  "holds_timers f l es \<Longrightarrow> y \<in> set es \<Longrightarrow> expiry (timers l) (addr_of y) = when_of y"
  by (cases y) (force simp: holds_timers_def intro: expiry_entry)

text \<open>Building the invariant from the payloads.\<close>

lemma holds_timersI:
  assumes "represents l (map addr_of es)" and "sorted (map when_of es)"
    and "payload (timers l) = (\<lambda>x. map_option (\<lambda>(e, d). (e, f, d)) (lookup x es))"
  shows "holds_timers f l es"
proof -
  have d: "distinct (map addr_of es)" using assms(1) by (simp add: represents_def)
  have "dom (timers l) = dom (\<lambda>x. lookup x es)"
    unfolding dom_payload [symmetric] assms(3) by (auto simp: dom_def)
  then have "dom (timers l) = addr_of ` set es"
    by (simp add: lookup_def dom_map_of_conv_image_fst)
  moreover have "\<forall>(x, e, d) \<in> set es. payload (timers l) x = Some (e, f, d)"
    using d by (auto simp: assms(3) lookup_def)
  ultimately show ?thesis using assms(1,2) by (simp add: holds_timers_def)
qed

lemma holds_payload:
  assumes "holds_timers f l es"
  shows "payload (timers l) = (\<lambda>x. map_option (\<lambda>(e, d). (e, f, d)) (lookup x es))"
proof
  fix x
  show "payload (timers l) x = map_option (\<lambda>(e, d). (e, f, d)) (lookup x es)"
  proof (cases "lookup x es")
    case None
    then have "x \<notin> dom (timers l)" using assms by (simp add: lookup_None_iff holds_timers_def)
    then have "timers l x = None" by (simp add: domIff)
    with None show ?thesis by (simp add: payload_None)
  next
    case (Some ed)
    obtain e d where ed: "ed = (e, d)" by (cases ed)
    with Some have "(x, e, d) \<in> set es" by (auto simp: lookup_def dest: map_of_SomeD)
    with Some ed assms show ?thesis by (auto simp: holds_timers_def)
  qed
qed

lemma lookup_insert:
  assumes "lookup x es = None"
  shows "lookup y (insert_entry (x, e, d) es) = (if y = x then Some (e, d) else lookup y es)"
  using assms by (induction es) (auto simp: insert_entry_Cons lookup_def insert_entry_def [of _ "[]"] split: if_splits)

lemma lookup_remove: "lookup y (remove_entry x es) = (if y = x then None else lookup y es)"
  by (induction es) (auto simp: remove_entry_def lookup_def)

lemma lookup_filter:
  assumes "distinct (map addr_of es)"
  shows "lookup x (filter P es) =
    (case lookup x es of None \<Rightarrow> None | Some (e, d) \<Rightarrow> if P (x, e, d) then Some (e, d) else None)"
  using assms
proof (induction es)
  case (Cons y es)
  moreover have "x = addr_of y \<Longrightarrow> lookup x (filter P es) = None"
    using Cons.prems by (auto simp: lookup_None_iff)
  ultimately show ?case by (cases y) (auto simp: lookup_def)
qed (simp add: lookup_def)

lemma mem_filter:
  assumes "distinct (map addr_of es)"
  shows "x \<in> set (map addr_of (filter P es)) \<longleftrightarrow> (\<exists>e d. lookup x es = Some (e, d) \<and> P (x, e, d))"
proof -
  have "x \<in> set (map addr_of (filter P es)) \<longleftrightarrow> lookup x (filter P es) \<noteq> None"
    by (simp add: lookup_None_iff)
  then show ?thesis by (auto simp: lookup_filter [OF assms] split: option.splits)
qed

lemma put_timer_correct:
  assumes "holds_timers f l es" and "lookup x es = None"
  shows "\<exists>l'. put_timer f x e d l = Some (Inr l') \<and> holds_timers f l' (insert_entry (x, e, d) es)"
proof -
  let ?t = "\<lparr>expire = e, cb_func = f, user_data = d, t_prev = None, t_next = None\<rparr>"
  let ?h = "(timers l)(x \<mapsto> ?t)" and ?xs = "map addr_of es"
  have x: "x \<notin> set ?xs" using assms(2) by (simp add: lookup_None_iff)
  have rep: "represents (l\<lparr>timers := ?h\<rparr>) ?xs"
    using assms(1) x by (simp add: holds_timers_def represents_def)
  have key: "\<forall>y \<in> set es. expiry ?h (addr_of y) = when_of y"
  proof
    fix y assume y: "y \<in> set es"
    then have "addr_of y \<noteq> x" using x by auto
    with holds_expiry [OF assms(1) y] show "expiry ?h (addr_of y) = when_of y" by (simp add: expiry_def)
  qed
  have ins: "insert_sorted (expiry ?h) x ?xs = map addr_of (insert_entry (x, e, d) es)"
    by (rule insert_sorted_entry [OF key]) (simp add: expiry_def)
  have pl: "payload ?h = (\<lambda>y. map_option (\<lambda>(e, d). (e, f, d)) (lookup y (insert_entry (x, e, d) es)))"
    using holds_payload [OF assms(1)] lookup_insert [OF assms(2)]
    by (auto simp: payload_def fun_eq_iff)
  from add_timer_correct [OF rep, of x] x ins obtain l' where
    "add_timer (Some x) (l\<lparr>timers := ?h\<rparr>) = Some (Inr l')" "payload (timers l') = payload ?h"
    "represents l' (map addr_of (insert_entry (x, e, d) es))"
    by (auto simp: fresh_def)
  moreover have "sorted_queue (insert_entry (x, e, d) es)"
    using holds_sorted_queue [OF assms(1)] x by (intro sorted_queue_insert) auto
  ultimately show ?thesis using pl
    by (auto simp: put_timer_def sorted_queue_def intro: holds_timersI)
qed

lemma delay_timer_correct:
  assumes "holds_timers f l es" and "lookup x es = Some (old, d)" and "old \<le> e"
  shows "\<exists>l'. delay_timer x e l = Some (Inr l') \<and>
    holds_timers f l' (insert_entry (x, e, d) (remove_entry x es))"
proof -
  have sq: "sorted_queue es" using holds_sorted_queue [OF assms(1)] .
  then have "distinct (map addr_of es)" by (simp add: sorted_queue_def)
  from lookup_split [OF this assms(2)] obtain pre post where
    es: "es = pre @ (x, old, d) # post" and rm: "remove_entry x es = pre @ post" .
  have p: "payload (timers l) x = Some (old, f, d)" using assms(1) es by (auto simp: holds_timers_def)
  then obtain t where t: "timers l x = Some t" "expire t = old" "cb_func t = f" "user_data t = d"
    by (auto simp: payload_def)
  let ?h = "(timers l)(x \<mapsto> t\<lparr>expire := e\<rparr>)"
  have rep: "represents (l\<lparr>timers := ?h\<rparr>) (map addr_of pre @ x # map addr_of post)"
  proof -
    have "represents l (map addr_of pre @ x # map addr_of post)"
      using assms(1) es by (simp add: holds_timers_def)
    moreover have "chain ?h p xs n = chain (timers l) p xs n" for p xs n
      by (rule lt.dseg_same_links) (use t in simp_all)
    ultimately show ?thesis unfolding represents_heap by (simp only: represents_def simp_thms) blast
  qed
  have key: "expiry ?h (addr_of y) = when_of y" if "y \<in> set (pre @ post)" for y
  proof -
    have "addr_of y \<noteq> x" using sq es that by (auto simp: sorted_queue_def)
    then show ?thesis using holds_expiry [OF assms(1), of y] that es by (simp add: expiry_def)
  qed
  have kx: "expiry ?h x = e" by (simp add: expiry_def)
  have so: "sorted (map when_of (pre @ post))" and le: "\<forall>y \<in> set pre. when_of y \<le> e"
    using sq assms(3) unfolding es sorted_queue_def by (auto simp: sorted_append)
  have m: "map (expiry ?h) (map addr_of pre @ map addr_of post) = map when_of (pre @ post)"
    using key by auto
  have tt: "timers (l\<lparr>timers := ?h\<rparr>) = ?h" by simp
  have so2: "sorted (map (expiry (timers (l\<lparr>timers := ?h\<rparr>))) (map addr_of pre @ map addr_of post))"
    unfolding tt m by (rule so)
  have le2: "\<forall>y \<in> set (map addr_of pre). expiry (timers (l\<lparr>timers := ?h\<rparr>)) y \<le> expiry (timers (l\<lparr>timers := ?h\<rparr>)) x"
    using key le kx by auto
  from adjust_timer_correct [OF rep so2 le2] obtain l' where
    a: "adjust_timer (Some x) (l\<lparr>timers := ?h\<rparr>) = Some (Inr l')" "payload (timers l') = payload ?h"
    "represents l' (insert_sorted (expiry ?h) x (map addr_of pre @ map addr_of post))"
    by auto
  have "insert_sorted (expiry ?h) x (map addr_of (pre @ post)) = map addr_of (insert_entry (x, e, d) (pre @ post))"
    by (rule insert_sorted_entry) (use key kx in auto)
  with a(3) have r: "represents l' (map addr_of (insert_entry (x, e, d) (remove_entry x es)))"
    by (simp add: rm)
  have "sorted_queue (insert_entry (x, e, d) (remove_entry x es))"
    using sq by (intro sorted_queue_insert) (auto simp: remove_entry_def sorted_queue_filter)
  moreover have "payload (timers l') = (\<lambda>y. map_option (\<lambda>(e, d). (e, f, d))
      (lookup y (insert_entry (x, e, d) (remove_entry x es))))"
    using holds_payload [OF assms(1)] t
    by (auto simp: a(2) payload_def fun_eq_iff lookup_insert lookup_remove)
  moreover have "delay_timer x e l = Some (Inr l')" using t(1) a(1) by (simp add: delay_timer_def)
  ultimately show ?thesis using r by (auto simp: sorted_queue_def intro: holds_timersI)
qed

lemma cancel_timer_correct:
  assumes "holds_timers f l es" and "lookup x es = Some ed"
  shows "\<exists>l'. cancel_timer x l = Inr l' \<and> holds_timers f l' (remove_entry x es)"
proof -
  have sq: "sorted_queue es" using holds_sorted_queue [OF assms(1)] .
  obtain e d where "ed = (e, d)" by (cases ed)
  with lookup_split [of es x e d] sq assms(2) obtain pre post where
    es: "es = pre @ (x, e, d) # post" and rm: "remove_entry x es = pre @ post"
    by (auto simp: sorted_queue_def)
  from assms(1) es have "represents l (map addr_of pre @ x # map addr_of post)"
    by (simp add: holds_timers_def)
  from del_timer_correct [OF this] obtain l' where
    l': "del_timer (Some x) l = Inr l'" "represents l' (map addr_of (remove_entry x es))"
      "payload (timers l') = (payload (timers l))(x := None)" by (auto simp: rm)
  moreover have "sorted_queue (remove_entry x es)" using sq by (simp add: remove_entry_def sorted_queue_filter)
  moreover have "payload (timers l') = (\<lambda>y. map_option (\<lambda>(e, d). (e, f, d)) (lookup y (remove_entry x es)))"
    using holds_payload [OF assms(1)] by (auto simp: l'(3) fun_eq_iff lookup_remove)
  ultimately show ?thesis by (auto simp: cancel_timer_def sorted_queue_def intro: holds_timersI)
qed

text \<open>A tick runs the callbacks of exactly the expired timers, in order, and frees them.\<close>

lemma fire_entries:
  assumes "\<forall>(x, e, d) \<in> set es. payload h x = Some (e, f, d)"
  shows "fire call h (map addr_of es) w = foldl (\<lambda>w d. call f d w) w (map data_of es)"
  using assms by (induction es arbitrary: w) (auto simp: fire_def)

lemma tick_entries:
  assumes "holds_timers f l es"
  shows "\<exists>l'. tick call now l w = Some (Inr (l',
      foldl (\<lambda>w d. call f d w) w (map data_of (filter (\<lambda>e. when_of e \<le> now) es)))) \<and>
    holds_timers f l' (filter (\<lambda>e. now < when_of e) es)"
proof -
  let ?key = "expiry (timers l)" and ?xs = "map addr_of es"
  let ?old = "filter (\<lambda>e. when_of e \<le> now) es" and ?new = "filter (\<lambda>e. now < when_of e) es"
  have rep: "represents l ?xs" and so: "sorted (map when_of es)"
    and pl: "\<forall>(x, e, d) \<in> set es. payload (timers l) x = Some (e, f, d)"
    using assms by (simp_all add: holds_timers_def)
  have key: "\<forall>y \<in> set es. ?key (addr_of y) = when_of y" using holds_expiry [OF assms] by blast
  then have m: "map ?key ?xs = map when_of es" by simp
  have so': "sorted (map ?key ?xs)" using so m by (simp only:)
  have "filter (\<lambda>a. ?key a \<le> now) ?xs = map addr_of ?old" "filter (\<lambda>a. now < ?key a) ?xs = map addr_of ?new"
    using key by (induction es) auto
  then have old: "takeWhile (\<lambda>a. ?key a \<le> now) ?xs = map addr_of ?old"
    and new: "dropWhile (\<lambda>a. ?key a \<le> now) ?xs = map addr_of ?new"
    by (simp_all only: sorted_split_key [OF so'])
  from tick_correct [OF rep, of call now w] obtain l' where
    t: "tick call now l w = Some (Inr (l', fire call (timers l) (map addr_of ?old) w))"
    and r: "represents l' (map addr_of ?new)"
    and p: "payload (timers l') = without (payload (timers l)) (set (map addr_of ?old))"
    unfolding old new by blast
  have "fire call (timers l) (map addr_of ?old) w = foldl (\<lambda>w d. call f d w) w (map data_of ?old)"
    using pl by (intro fire_entries) auto
  moreover have "holds_timers f l' ?new"
  proof (rule holds_timersI [OF r])
    show "sorted (map when_of ?new)" using so by (induction es) auto
    show "payload (timers l') = (\<lambda>x. map_option (\<lambda>(e, d). (e, f, d)) (lookup x ?new))"
    proof
      fix x
      have d: "distinct (map addr_of es)" using rep by (simp add: represents_def)
      show "payload (timers l') x = map_option (\<lambda>(e, d). (e, f, d)) (lookup x ?new)"
        using lookup_filter [OF d, of x] mem_filter [OF d, of x "\<lambda>e. when_of e \<le> now"]
        by (auto simp: p without_def holds_payload [OF assms] not_le split: option.splits)
    qed
  qed
  ultimately show ?thesis using t by auto
qed

interpretation lq: timed_queue "holds_timers f" "put_timer f" delay_timer cancel_timer "tick call" "call f"
  for f call
  by unfold_locales
    (rule holds_sorted_queue put_timer_correct delay_timer_correct cancel_timer_correct tick_entries; assumption)+

section \<open>The properties of the timer list\<close>

text \<open>Concrete lists for closed instances: two linked timers, and one not yet in the list.\<close>

definition two_timers :: sort_timer_lst where
  "two_timers = \<lparr>head = Some 1, tail = Some 2, timers =
     [1 \<mapsto> \<lparr>expire = 10, cb_func = 0, user_data = 7, t_prev = None, t_next = Some 2\<rparr>,
      2 \<mapsto> \<lparr>expire = 20, cb_func = 0, user_data = 8, t_prev = Some 1, t_next = None\<rparr>,
      3 \<mapsto> \<lparr>expire = 15, cb_func = 0, user_data = 9, t_prev = None, t_next = None\<rparr>]\<rparr>"

lemma two_timers_sorted: "sorted_timers two_timers [1, 2]"
  by (simp add: sorted_timers_def represents_def two_timers_def expiry_def)

text \<open>
  add\_timer refines sorted insertion: on a well-formed list sorted by expiry, adding a fresh timer
  returns without undefined behaviour, and the pointers then represent the list with the timer behind
  every timer that does not expire later, still sorted; no timer's payload changes.
\<close>

theorem add_timer_sorted:
  assumes "sorted_timers l xs" and "fresh l x xs"
  shows "\<exists>l'. add_timer (Some x) l = Some (Inr l') \<and> payload (timers l') = payload (timers l) \<and>
    sorted_timers l' (insert_sorted (expiry (timers l)) x xs)"
proof -
  from assms(1) have r: "represents l xs" and so: "sorted (map (expiry (timers l)) xs)"
    by (simp_all add: sorted_timers_def)
  from add_timer_correct [OF r assms(2)] obtain l' where
    l': "add_timer (Some x) l = Some (Inr l')" "payload (timers l') = payload (timers l)"
      "represents l' (insert_sorted (expiry (timers l)) x xs)" by blast
  with sorted_insert_sorted [OF so] expiry_payload [OF l'(2)] show ?thesis
    by (auto simp: sorted_timers_def)
qed

lemma add_timer_sorted_witness:
  "\<exists>l'. add_timer (Some 3) two_timers = Some (Inr l') \<and> sorted_timers l' [1, 3, 2]"
proof -
  have "fresh two_timers 3 [1, 2]" by (simp add: fresh_def two_timers_def)
  from add_timer_sorted [OF two_timers_sorted this] show ?thesis
    by (auto simp: insert_sorted_def two_timers_def expiry_def)
qed

text \<open>
  del\_timer removes exactly the given timer, wherever it stands, frees it, and leaves the others
  linked and sorted.
\<close>

theorem del_timer_removes:
  assumes "sorted_timers l (pre @ x # post)"
  shows "\<exists>l'. del_timer (Some x) l = Inr l' \<and> sorted_timers l' (pre @ post) \<and>
    payload (timers l') = (payload (timers l))(x := None)"
proof -
  from assms have r: "represents l (pre @ x # post)" and so: "sorted (map (expiry (timers l)) (pre @ x # post))"
    by (simp_all add: sorted_timers_def)
  then have d: "x \<notin> set (pre @ post)" by (simp add: represents_def)
  from del_timer_correct [OF r] obtain l' where
    l': "del_timer (Some x) l = Inr l'" "represents l' (pre @ post)"
      "payload (timers l') = (payload (timers l))(x := None)" by blast
  have "expiry (timers l') y = expiry (timers l) y" if "y \<in> set (pre @ post)" for y
    using that d l'(3) by (intro expiry_cong) auto
  then have "map (expiry (timers l')) (pre @ post) = map (expiry (timers l)) (pre @ post)" by simp
  moreover have "sorted (map (expiry (timers l)) (pre @ post))" using so by (auto simp: sorted_append)
  ultimately have "sorted (map (expiry (timers l')) (pre @ post))" by (simp only:)
  with l' show ?thesis unfolding sorted_timers_def by blast
qed

lemma del_timer_removes_witness:
  "\<exists>l'. del_timer (Some 2) two_timers = Inr l' \<and> sorted_timers l' [1]"
  using del_timer_removes [of two_timers "[1]" 2 "[]"] two_timers_sorted by auto

text \<open>
  tick runs the callbacks of exactly the expired timers, each once, in order of expiry, frees them,
  and leaves exactly the others in the list.
\<close>

theorem tick_fires_expired:
  assumes "sorted_timers l xs"
  shows "\<exists>l'. tick call cur l w =
      Some (Inr (l', fire call (timers l) (filter (\<lambda>a. expiry (timers l) a \<le> cur) xs) w)) \<and>
    sorted_timers l' (filter (\<lambda>a. cur < expiry (timers l) a) xs) \<and>
    payload (timers l') = without (payload (timers l)) {a \<in> set xs. expiry (timers l) a \<le> cur}"
proof -
  let ?key = "expiry (timers l)"
  from assms have r: "represents l xs" and so: "sorted (map ?key xs)" by (simp_all add: sorted_timers_def)
  from tick_correct [OF r, of call cur w] obtain l' where
    l': "tick call cur l w = Some (Inr (l', fire call (timers l) (filter (\<lambda>a. ?key a \<le> cur) xs) w))"
      "represents l' (filter (\<lambda>a. cur < ?key a) xs)"
      "payload (timers l') = without (payload (timers l)) {a \<in> set xs. ?key a \<le> cur}"
    unfolding sorted_split_key [OF so] by auto
  have "expiry (timers l') a = ?key a" if "cur < ?key a" for a
    using that by (intro expiry_cong) (simp add: l'(3) without_def)
  then have "map (expiry (timers l')) (filter (\<lambda>a. cur < ?key a) xs) = map ?key (filter (\<lambda>a. cur < ?key a) xs)"
    by simp
  moreover have "sorted (map ?key (filter (\<lambda>a. cur < ?key a) xs))" using so by (rule sorted_filter)
  ultimately have "sorted (map (expiry (timers l')) (filter (\<lambda>a. cur < ?key a) xs))" by (simp only:)
  with l' show ?thesis unfolding sorted_timers_def by blast
qed

lemma tick_fires_expired_witness:
  "\<exists>l'. tick (\<lambda>f d w. w @ [d]) 12 two_timers [] = Some (Inr (l', [7])) \<and> sorted_timers l' [2]"
proof -
  have "expiry (timers two_timers) 1 = 10" "expiry (timers two_timers) 2 = 20"
    "payload (timers two_timers) 1 = Some (10, 0, 7)"
    by (simp_all add: two_timers_def expiry_def payload_def)
  with tick_fires_expired [OF two_timers_sorted, of "\<lambda>f d w. w @ [d]" 12 "[]"] show ?thesis
    by (auto simp: fire_def)
qed

text \<open>
  adjust\_timer after a delayed expiry: when the other timers are sorted and those before the timer
  do not expire later than it, the timer is moved to its place and the whole list is sorted again.
\<close>

theorem adjust_timer_restores:
  assumes "represents l (pre @ x # post)" and "sorted (map (expiry (timers l)) (pre @ post))"
    and "\<forall>y \<in> set pre. expiry (timers l) y \<le> expiry (timers l) x"
  shows "\<exists>l'. adjust_timer (Some x) l = Some (Inr l') \<and> payload (timers l') = payload (timers l) \<and>
    sorted_timers l' (insert_sorted (expiry (timers l)) x (pre @ post))"
proof -
  from adjust_timer_correct [OF assms] obtain l' where
    l': "adjust_timer (Some x) l = Some (Inr l')" "payload (timers l') = payload (timers l)"
      "represents l' (insert_sorted (expiry (timers l)) x (pre @ post))" by blast
  with sorted_insert_sorted [OF assms(2)] expiry_payload [OF l'(2)] show ?thesis
    by (auto simp: sorted_timers_def)
qed

definition delayed_timers :: sort_timer_lst where
  "delayed_timers = two_timers\<lparr>timers := (timers two_timers)
     (1 \<mapsto> \<lparr>expire = 30, cb_func = 0, user_data = 7, t_prev = None, t_next = Some 2\<rparr>)\<rparr>"

lemma adjust_timer_restores_witness:
  "\<exists>l'. adjust_timer (Some 1) delayed_timers = Some (Inr l') \<and> sorted_timers l' [2, 1]"
proof -
  have "represents delayed_timers ([] @ 1 # [2])"
    by (simp add: represents_def delayed_timers_def two_timers_def)
  from adjust_timer_restores [OF this] show ?thesis
    by (auto simp: insert_sorted_def delayed_timers_def two_timers_def expiry_def)
qed

text \<open>
  adjust\_timer only moves a timer towards the tail: when the expiry was brought forward it leaves
  the list as it is, and tick then misses the timer, although it has expired, as long as the first
  timer has not.
\<close>

theorem earlier_expiry_missed:
  assumes "represents l (p # pre @ x # post)" and "post = [] \<or> expiry (timers l) x < expiry (timers l) (hd post)"
    and "expiry (timers l) x \<le> cur" and "cur < expiry (timers l) p"
  shows "adjust_timer (Some x) l = Some (Inr l) \<and> tick call cur l w = Some (Inr (l, w))"
proof -
  from assms(1) have c: "chain (timers l) None (p # pre @ x # post) None"
    and hd: "head l = Some p" by (simp_all add: represents_def)
  obtain tx tp where tx: "timers l x = Some tx" "t_next tx = first_or post None" and tp: "timers l p = Some tp"
    using c by (auto split: option.splits)
  have "adjust_timer (Some x) l = Some (Inr l)"
  proof (cases post)
    case Nil
    with tx show ?thesis by (simp add: adjust_timer_def)
  next
    case (Cons b zs)
    then obtain tb where "timers l b = Some tb" using c by (auto split: option.splits)
    with Cons assms(2) tx show ?thesis by (simp add: adjust_timer_def)
  qed
  moreover have "tick call cur l w = Some (Inr (l, w))"
    using hd tp assms(4) by (simp add: tick_def tick_loop.simps [of _ _ "Some p"])
  ultimately show ?thesis ..
qed

lemma earlier_expiry_missed_witness:
  "tick (\<lambda>f d w. w @ [d]) 7 (two_timers\<lparr>timers := (timers two_timers)
     (2 \<mapsto> \<lparr>expire = 5, cb_func = 0, user_data = 8, t_prev = Some 1, t_next = None\<rparr>)\<rparr>) [] =
   Some (Inr (two_timers\<lparr>timers := (timers two_timers)
     (2 \<mapsto> \<lparr>expire = 5, cb_func = 0, user_data = 8, t_prev = Some 1, t_next = None\<rparr>)\<rparr>, []))"
proof -
  let ?l = "two_timers\<lparr>timers := (timers two_timers)
     (2 \<mapsto> \<lparr>expire = 5, cb_func = 0, user_data = 8, t_prev = Some 1, t_next = None\<rparr>)\<rparr>"
  have "represents ?l (1 # [] @ 2 # [])" by (simp add: represents_def two_timers_def)
  from earlier_expiry_missed [OF this, of 7 "\<lambda>f d w. w @ [d]" "[]"] show ?thesis
    by (simp add: two_timers_def expiry_def)
qed

text \<open>
  The destructor returns, frees every timer of the list exactly once and leaves the others.
\<close>

theorem delete_list_frees:
  assumes "represents l xs"
  shows "\<exists>l'. delete_list l = Some (Inr l') \<and> head l' = None \<and>
    payload (timers l') = without (payload (timers l)) (set xs)"
  using delete_loop_correct [of l None xs] assms by (simp add: represents_def delete_list_def)

lemma delete_list_frees_witness:
  "\<exists>l'. delete_list two_timers = Some (Inr l') \<and> payload (timers l') 1 = None"
proof -
  have "represents two_timers [1, 2]" using two_timers_sorted by (simp add: sorted_timers_def)
  from delete_list_frees [OF this] show ?thesis by (auto simp: without_def)
qed

text \<open>
  C1. The list refines the abstract timed queue: every legal sequence of creating, delaying, deleting
  and ticking, from the empty list, returns without undefined behaviour, runs exactly the callbacks
  the abstract queue fires, in its order, and ends in a list that represents the abstract queue, with
  no timer leaked.
\<close>

theorem timer_list_refines:
  assumes "legal_run ops []"
  shows "\<exists>l'. exec_all (exec (put_timer f) delay_timer cancel_timer (tick call)) ops (new_list Map.empty) w =
      Some (Inr (l', foldl (\<lambda>w d. call f d w) w (snd (queue_run ops [])))) \<and>
    holds_timers f l' (fst (queue_run ops []))"
proof (rule lq.exec_run [OF _ assms])
  show "holds_timers f (new_list Map.empty) []"
    by (simp add: holds_timers_def new_list_def represents_def)
qed

lemma timer_list_refines_witness:
  "\<exists>l'. exec_all (exec (put_timer 0) delay_timer cancel_timer (tick (\<lambda>f d w. w @ [d])))
     [Put 1 10 7, Put 2 20 8, Delay 1 30, Expire 25] (new_list Map.empty) [] = Some (Inr (l', [8])) \<and>
   holds_timers 0 l' [(1, 30, 7)]"
proof -
  let ?ops = "[Put 1 10 7, Put 2 20 8, Delay 1 30, Expire 25] :: nat queue_op list"
  have "queue_run ?ops [] = ([(1, 30, 7)], [8])" "legal_run ?ops []" by code_simp+
  with timer_list_refines [of ?ops 0 "\<lambda>f d w. w @ [d]" "[]"] show ?thesis by simp
qed

end
