(* ===== verification/Timeout_Server.thy ===== *)
theory Timeout_Server
  imports Http_Types Lst_Timer Transitions
begin

unbundle bit_operations_syntax

text \<open>
  The server of \<^verbatim>\<open>src/src/execution/timeout_server.cpp\<close>, the client of the timer list: it accepts
  connections, gives each a timer, delays the timer when data arrives, deletes it when the connection
  ends, and lets tick close what has been silent. The laws of the timer list are used through the
  contract of Timed\_Queue.
\<close>

section \<open>The model\<close>

definition FD_LIMIT :: int where "FD_LIMIT = 0xffff"
definition TIMESLOT :: int where "TIMESLOT = 5"
definition BUFFER_SIZE :: nat where "BUFFER_SIZE = 64"
definition SIGALRM :: nat where "SIGALRM = 14"
definition SIGTERM :: nat where "SIGTERM = 15"

record client_data =
  cd_address :: nat
  cd_sockfd :: int
  cd_buf :: buf
  cd_timer :: ptr

text \<open>
  The elements of users are None until they are first assigned (new client\_data[n] does not
  initialise them). The world's m\_epollfd is the epollfd of main, which hides the global one. The last
  two fields are the environment's: the time shown last, and that the loop has ended.
\<close>

record tserver =
  tusers :: "int \<Rightarrow> client_data option"
  timer_lst :: sort_timer_lst
  twork :: world
  timeout_flag :: bool
  stop_server :: bool
  tclock :: int
  halted :: bool

record tdelivery =
  td_fd :: int
  td_flags :: flags
  td_accept :: "int \<times> nat"
  td_new :: nat
  td_now :: int
  td_recv :: recv_answer
  td_signals :: "nat list"

definition t_addfd :: "os \<Rightarrow> int \<Rightarrow> int \<Rightarrow> world \<Rightarrow> world" where
  "t_addfd os epollfd fd w = snd (setnonblocking os fd (emit (Epoll_add epollfd fd (EPOLLIN OR EPOLLET)) w))"

text \<open>The callback uses the global epollfd, which is 0 throughout.\<close>

definition cb_func_close :: "(int \<Rightarrow> client_data option) \<Rightarrow> int \<Rightarrow> world \<Rightarrow> world res" where
  "cb_func_close users fd w =
     (case users fd of None \<Rightarrow> Inl UninitRead
      | Some u \<Rightarrow> Inr (emit (Close (cd_sockfd u)) (emit (Epoll_del 0 (cd_sockfd u)) w)))"

text \<open>The function pointer 0 stands for the callback; its argument is the index of the client.\<close>

definition timer_call :: "(int \<Rightarrow> client_data option) \<Rightarrow> nat \<Rightarrow> nat \<Rightarrow> world res \<Rightarrow> world res" where
  "timer_call users f d w = bind_res w (cb_func_close users (int d))"

definition timer_handler :: "int \<Rightarrow> tserver \<Rightarrow> tserver res option" where
  "timer_handler now s =
     bind_run (tick (timer_call (tusers s)) now (timer_lst s) (Inr (twork s))) (\<lambda>(l, w).
     Some (map_res (\<lambda>w. s\<lparr>timer_lst := l, twork := emit (Alarm TIMESLOT) w\<rparr>) w))"

definition t_accept :: "os \<Rightarrow> tdelivery \<Rightarrow> tserver \<Rightarrow> tserver res option" where
  "t_accept os e s =
     (let (connfd, client_address) = td_accept e in
      if connfd = -1 then Some (Inr (s\<lparr>halted := True\<rparr>))
      else
        let w = t_addfd os (m_epollfd (twork s)) connfd (twork s) in
        if \<not> (0 \<le> connfd \<and> connfd < FD_LIMIT) then Some (Inl OutOfBounds)
        else
          let u = \<lparr>cd_address = client_address, cd_sockfd = connfd,
                   cd_buf = (case tusers s connfd of None \<Rightarrow> [] | Some old \<Rightarrow> cd_buf old), cd_timer = Some (td_new e)\<rparr>
          in bind_run (put_timer 0 (td_new e) (td_now e + 3 * TIMESLOT) (nat connfd) (timer_lst s)) (\<lambda>l.
             Some (Inr (s\<lparr>tusers := (tusers s)(connfd \<mapsto> u), timer_lst := l, twork := w\<rparr>))))"

definition t_signals :: "nat list \<Rightarrow> tserver \<Rightarrow> tserver" where
  "t_signals sigs s = foldl (\<lambda>s sig.
     if sig = SIGALRM then s\<lparr>timeout_flag := True\<rparr>
     else if sig = SIGTERM then s\<lparr>stop_server := True\<rparr> else s) s sigs"

text \<open>The connection has ended: the callback, and the timer is deleted when there is one.\<close>

definition t_close :: "int \<Rightarrow> ptr \<Rightarrow> tserver \<Rightarrow> tserver res" where
  "t_close sockfd timer s =
     bind_res (cb_func_close (tusers s) sockfd (twork s)) (\<lambda>w.
     bind_res (case timer of None \<Rightarrow> Inr (timer_lst s) | Some x \<Rightarrow> cancel_timer x (timer_lst s)) (\<lambda>l.
     Inr (s\<lparr>timer_lst := l, twork := w\<rparr>)))"

definition t_readable :: "tdelivery \<Rightarrow> tserver \<Rightarrow> tserver res option" where
  "t_readable e s =
     (let sockfd = td_fd e in
      if \<not> (0 \<le> sockfd \<and> sockfd < FD_LIMIT) then Some (Inl OutOfBounds) else
      case tusers s sockfd of
        None \<Rightarrow> Some (Inl UninitRead)
      | Some u \<Rightarrow>
        let got = (case td_recv e of Recv_bytes bs \<Rightarrow> take (BUFFER_SIZE - 1) bs | _ \<Rightarrow> []);
            u1 = u\<lparr>cd_buf := got @ replicate (BUFFER_SIZE - length got) NUL\<rparr>;
            s1 = s\<lparr>tusers := (tusers s)(sockfd \<mapsto> u1)\<rparr>
        in (case td_recv e of
              Recv_error \<Rightarrow> Some (t_close sockfd (cd_timer u) s1)
            | Recv_again \<Rightarrow> Some (Inr s1)
            | Recv_eof \<Rightarrow> Some (t_close sockfd (cd_timer u) s1)
            | Recv_bytes bs \<Rightarrow>
                (case cd_timer u of
                   None \<Rightarrow> Some (Inr s1)
                 | Some x \<Rightarrow>
                     bind_run (delay_timer x (td_now e + 3 * TIMESLOT) (timer_lst s1)) (\<lambda>l.
                     Some (Inr (s1\<lparr>timer_lst := l\<rparr>))))))"

definition t_dispatch :: "os \<Rightarrow> int \<Rightarrow> int \<Rightarrow> tdelivery \<Rightarrow> tserver \<Rightarrow> tserver res option" where
  "t_dispatch os listenfd pipefd0 e s =
     (if td_fd e = listenfd then t_accept os e s
      else if td_fd e = pipefd0 \<and> td_flags e AND EPOLLIN \<noteq> 0 then Some (Inr (t_signals (td_signals e) s))
      else if td_flags e AND EPOLLIN \<noteq> 0 then t_readable e s
      else Some (Inr s))"

text \<open>The end of a batch of events: the timer handler when the alarm went off, and the loop's test.\<close>

definition t_end :: "int \<Rightarrow> int \<Rightarrow> int \<Rightarrow> int \<Rightarrow> tserver \<Rightarrow> tserver res option" where
  "t_end listenfd pipefd0 pipefd1 now s =
     bind_run (if timeout_flag s
               then bind_run (timer_handler now s) (\<lambda>s1. Some (Inr (s1\<lparr>timeout_flag := False\<rparr>)))
               else Some (Inr s)) (\<lambda>s1.
     Some (Inr (if stop_server s1
       then s1\<lparr>twork := emit (Close pipefd1) (emit (Close pipefd0) (emit (Close listenfd) (twork s1))), halted := True\<rparr>
       else s1)))"

definition t_start :: "os \<Rightarrow> int \<Rightarrow> int \<Rightarrow> int \<Rightarrow> int \<Rightarrow> int \<Rightarrow> tserver" where
  "t_start os epollfd listenfd pipefd0 pipefd1 now =
     \<lparr>tusers = (\<lambda>_. None), timer_lst = new_list Map.empty,
      twork = emit (Alarm TIMESLOT) (t_addfd os epollfd pipefd0 (snd (setnonblocking os pipefd1
        (t_addfd os epollfd listenfd \<lparr>m_epollfd = epollfd, m_user_count = 0, calls = []\<rparr>)))),
      timeout_flag = False, stop_server = False, tclock = now, halted = False\<rparr>"

definition t_registered :: "tserver \<Rightarrow> int \<Rightarrow> flags option" where
  "t_registered s = epoll_table (m_epollfd (twork s)) (calls (twork s))"

datatype tevent = TDeliver tdelivery | TEnd int

text \<open>
  The environment's contract: epoll\_wait reports registered descriptors, accept returns an error or a
  descriptor that is not in use, new returns an address that is not allocated, and time does not run
  backwards.
\<close>

definition contract :: "int \<Rightarrow> tevent \<Rightarrow> tserver \<Rightarrow> bool" where
  "contract listenfd ev s =
     (case ev of
        TDeliver e \<Rightarrow> t_registered s (td_fd e) \<noteq> None \<and> tclock s \<le> td_now e \<and>
          timers (timer_lst s) (td_new e) = None \<and>
          (fst (td_accept e) = -1 \<or> 0 \<le> fst (td_accept e) \<and> t_registered s (fst (td_accept e)) = None)
      | TEnd now \<Rightarrow> tclock s \<le> now)"

definition t_handle :: "os \<Rightarrow> int \<Rightarrow> int \<Rightarrow> int \<Rightarrow> tevent \<Rightarrow> tserver \<Rightarrow> tserver res option" where
  "t_handle os listenfd pipefd0 pipefd1 ev s =
     (case ev of
        TDeliver e \<Rightarrow> t_dispatch os listenfd pipefd0 e (s\<lparr>tclock := td_now e\<rparr>)
      | TEnd now \<Rightarrow> t_end listenfd pipefd0 pipefd1 now (s\<lparr>tclock := now\<rparr>))"

inductive t_step :: "os \<Rightarrow> int \<Rightarrow> int \<Rightarrow> int \<Rightarrow> tserver \<Rightarrow> tevent \<Rightarrow> tserver option \<Rightarrow> bool"
  for os :: os and listenfd pipefd0 pipefd1 :: int where
  handled: "\<not> halted s \<Longrightarrow> contract listenfd ev s \<Longrightarrow> t_handle os listenfd pipefd0 pipefd1 ev s = Some (Inr s') \<Longrightarrow>
     t_step os listenfd pipefd0 pipefd1 s ev (Some s')"
| undefined: "\<not> halted s \<Longrightarrow> contract listenfd ev s \<Longrightarrow> t_handle os listenfd pipefd0 pipefd1 ev s = Some (Inl e) \<Longrightarrow>
     t_step os listenfd pipefd0 pipefd1 s ev None"
| hangs: "\<not> halted s \<Longrightarrow> contract listenfd ev s \<Longrightarrow> t_handle os listenfd pipefd0 pipefd1 ev s = None \<Longrightarrow>
     t_step os listenfd pipefd0 pipefd1 s ev None"

inductive_cases t_stepE: "t_step os listenfd pipefd0 pipefd1 s ev r"

section \<open>The invariant\<close>

text \<open>
  Every open connection has exactly one timer, which carries its number, and every timer belongs to an
  open connection; no expiry lies further ahead than three time slots.
\<close>

definition fds :: "nat entry list \<Rightarrow> int set" where
  "fds es = (\<lambda>en. int (data_of en)) ` set es"

definition entry_ok :: "(int \<Rightarrow> client_data option) \<Rightarrow> int \<Rightarrow> nat entry \<Rightarrow> bool" where
  "entry_ok users now en \<longleftrightarrow> int (data_of en) < FD_LIMIT \<and> when_of en \<le> now + 3 * TIMESLOT \<and>
     (\<exists>u. users (int (data_of en)) = Some u \<and> cd_sockfd u = int (data_of en) \<and> cd_timer u = Some (addr_of en))"

definition t_inv :: "int \<Rightarrow> int \<Rightarrow> tserver \<Rightarrow> nat entry list \<Rightarrow> bool" where
  "t_inv listenfd pipefd0 s es \<longleftrightarrow>
     holds_timers 0 (timer_lst s) es \<and> distinct (map data_of es) \<and>
     dom (t_registered s) = {listenfd, pipefd0} \<union> fds es \<and> {listenfd, pipefd0} \<inter> fds es = {} \<and>
     (\<forall>en \<in> set es. entry_ok (tusers s) (tclock s) en)"

lemma t_invD:
  assumes "t_inv listenfd pipefd0 s es"
  shows "holds_timers 0 (timer_lst s) es" and "distinct (map data_of es)" and "distinct (map addr_of es)"
    and "dom (t_registered s) = {listenfd, pipefd0} \<union> fds es" and "listenfd \<notin> fds es" and "pipefd0 \<notin> fds es"
    and "en \<in> set es \<Longrightarrow> entry_ok (tusers s) (tclock s) en"
  using assms holds_sorted_queue [of 0 "timer_lst s" es] by (auto simp: t_inv_def sorted_queue_def)

lemma t_invI:
  assumes "holds_timers 0 (timer_lst s) es" and "distinct (map data_of es)"
    and "dom (t_registered s) = {listenfd, pipefd0} \<union> fds es" and "listenfd \<notin> fds es" and "pipefd0 \<notin> fds es"
    and "\<And>en. en \<in> set es \<Longrightarrow> entry_ok (tusers s) (tclock s) en"
  shows "t_inv listenfd pipefd0 s es"
  using assms by (simp add: t_inv_def)

lemma entry_okD:
  assumes "entry_ok users now en"
  obtains u where "users (int (data_of en)) = Some u" and "cd_sockfd u = int (data_of en)"
    and "cd_timer u = Some (addr_of en)" and "int (data_of en) < FD_LIMIT" and "when_of en \<le> now + 3 * TIMESLOT"
  using assms by (auto simp: entry_ok_def)

lemma entry_ok_later: "entry_ok users now en \<Longrightarrow> now \<le> now' \<Longrightarrow> entry_ok users now' en"
  by (auto simp: entry_ok_def)

lemma entry_ok_other: "entry_ok users now en \<Longrightarrow> int (data_of en) \<noteq> fd \<Longrightarrow> entry_ok (users(fd := v)) now en"
  by (auto simp: entry_ok_def)

lemma entry_ok_buf:
  "entry_ok users now en \<Longrightarrow> users fd = Some u \<Longrightarrow> entry_ok (users(fd \<mapsto> u\<lparr>cd_buf := b\<rparr>)) now en"
  by (auto simp: entry_ok_def)

lemma fds_Nil [simp]: "fds [] = {}"
  by (simp add: fds_def)

lemma fds_insert [simp]: "fds (insert_entry en es) = insert (int (data_of en)) (fds es)"
  by (simp add: fds_def)

text \<open>The deadlines of the connections: pairs of a descriptor and the expiry of its timer.\<close>

definition deadlines :: "nat entry list \<Rightarrow> (int \<times> int) set" where
  "deadlines es = (\<lambda>en. (int (data_of en), when_of en)) ` set es"

lemma deadlines_insert [simp]:
  "deadlines (insert_entry en es) = insert (int (data_of en), when_of en) (deadlines es)"
  by (simp add: deadlines_def)

lemma deadlines_filter: "deadlines (filter (\<lambda>en. P (when_of en)) es) = {p \<in> deadlines es. P (snd p)}"
  by (auto simp: deadlines_def)

lemma fst_deadlines: "fst ` deadlines es = fds es"
  by (simp add: deadlines_def fds_def image_image)

lemma deadlines_other: "fd \<notin> fds es \<Longrightarrow> \<forall>p \<in> deadlines es. fst p \<noteq> fd"
  by (metis fst_deadlines imageI)

lemma int_in_fds: "int d \<in> fds es \<longleftrightarrow> d \<in> data_of ` set es"
  by (force simp: fds_def)

lemma distinct_data_insert:
  "distinct (map data_of (insert_entry en es)) \<longleftrightarrow> int (data_of en) \<notin> fds es \<and> distinct (map data_of es)"
  unfolding int_in_fds by (induction es) (auto simp: insert_entry_Cons insert_entry_def [of _ "[]"])

lemma remove_entry_facts:
  assumes "distinct (map data_of es)" and "distinct (map addr_of es)" and "lookup x es = Some (e, d)"
  shows "fds (remove_entry x es) = fds es - {int d}" and "distinct (map data_of (remove_entry x es))"
    and "(x, e, d) \<in> set es" and "int d \<in> fds es" and "en \<in> set (remove_entry x es) \<Longrightarrow> en \<in> set es"
    and "deadlines (remove_entry x es) = {p \<in> deadlines es. fst p \<noteq> int d}"
proof -
  from lookup_split [OF assms(2,3)] obtain pre post where
    es: "es = pre @ (x, e, d) # post" and rm: "remove_entry x es = pre @ post" .
  have d: "distinct (map data_of (pre @ (x, e, d) # post))" using assms(1) es by (simp only:)
  have nd: "int d \<notin> fds (pre @ post)" using d by (simp add: int_in_fds image_Un)
  then have "fds (pre @ post) = fds (pre @ (x, e, d) # post) - {int d}" by (auto simp: fds_def)
  then show "fds (remove_entry x es) = fds es - {int d}" by (simp only: rm) (simp only: es)
  show "distinct (map data_of (remove_entry x es))" using d by (auto simp: rm)
  show "(x, e, d) \<in> set es" "int d \<in> fds es" by (auto simp: es fds_def)
  show "en \<in> set (remove_entry x es) \<Longrightarrow> en \<in> set es" by (auto simp: remove_entry_def)
  have "deadlines (pre @ post) = {p \<in> deadlines (pre @ (x, e, d) # post). fst p \<noteq> int d}"
  proof -
    note deadlines_other [OF nd]
    moreover have "deadlines (pre @ (x, e, d) # post) = insert (int d, e) (deadlines (pre @ post))"
      by (auto simp: deadlines_def)
    ultimately show ?thesis by auto
  qed
  then show "deadlines (remove_entry x es) = {p \<in> deadlines es. fst p \<noteq> int d}" by (simp only: rm) (simp only: es)
qed

lemma fds_filter:
  assumes "distinct (map data_of es)"
  shows "fds (filter (\<lambda>en. \<not> P en) es) = fds es - fds (filter P es)"
proof -
  have "inj_on (\<lambda>en. int (data_of en)) (set es)" using assms by (auto simp: distinct_map inj_on_def)
  moreover have "set (filter (\<lambda>en. \<not> P en) es) = set es - set (filter P es)" by auto
  ultimately show ?thesis unfolding fds_def by (simp only: inj_on_image_set_diff [OF _ Diff_subset filter_is_subset])
qed

lemma fds_map: "fds es = int ` set (map data_of es)"
  by (simp add: fds_def image_image)

lemma emit_registered:
  "epoll_table ep (calls (emit (Close fd) (emit (Epoll_del e fd) w))) = (epoll_table ep (calls w))(fd := None)"
  by auto

text \<open>Closing a list of connections through their timers.\<close>

lemma timer_calls:
  assumes "\<forall>d \<in> set ds. \<exists>u. users (int d) = Some u \<and> cd_sockfd u = int d"
  shows "\<exists>w'. foldl (\<lambda>w d. timer_call users f d w) (Inr w) ds = Inr w' \<and> m_epollfd w' = m_epollfd w \<and>
    epoll_table ep (calls w') = (\<lambda>fd. if fd \<in> int ` set ds then None else epoll_table ep (calls w) fd) \<and>
    calls w' = calls w @ concat (map (\<lambda>d. [Epoll_del 0 (int d), Close (int d)]) ds)"
  using assms
proof (induction ds arbitrary: w)
  case (Cons d ds)
  then obtain u where u: "users (int d) = Some u" "cd_sockfd u = int d" by auto
  let ?w = "emit (Close (int d)) (emit (Epoll_del 0 (int d)) w)"
  from Cons.prems have "\<forall>d \<in> set ds. \<exists>u. users (int d) = Some u \<and> cd_sockfd u = int d" by simp
  from Cons.IH [OF this, of ?w] obtain w' where "foldl (\<lambda>w d. timer_call users f d w) (Inr ?w) ds = Inr w'" "m_epollfd w' = m_epollfd ?w"
    "epoll_table ep (calls w') = (\<lambda>fd. if fd \<in> int ` set ds then None else epoll_table ep (calls ?w) fd)"
    "calls w' = calls ?w @ concat (map (\<lambda>d. [Epoll_del 0 (int d), Close (int d)]) ds)" by blast
  with u show ?case unfolding emit_registered
    by (intro exI [of _ w']) (auto simp: timer_call_def cb_func_close_def fun_eq_iff)
qed (auto simp: fun_eq_iff)

lemma t_addfd_simps [simp]:
  "calls (t_addfd os ep fd w) = calls w @ [Epoll_add ep fd (EPOLLIN OR EPOLLET), Fcntl_setfl fd (os_getfl os fd OR O_NONBLOCK)]"
  "m_epollfd (t_addfd os ep fd w) = m_epollfd w"
  by (simp_all add: t_addfd_def setnonblocking_def Let_def)

lemma holds_fresh:
  assumes "holds_timers f l es" and "timers l x = None"
  shows "lookup x es = None"
proof -
  have "x \<notin> dom (timers l)" using assms(2) by (simp add: domIff)
  with assms(1) show ?thesis by (simp add: holds_timers_def lookup_None_iff)
qed

lemma t_accept_inv:
  assumes inv: "t_inv listenfd pipefd0 s es" and "contract listenfd (TDeliver e) s0"
    and s: "s = s0\<lparr>tclock := td_now e\<rparr>" and lim: "fst (td_accept e) < FD_LIMIT"
  shows "\<exists>s'. t_accept os e s = Some (Inr s') \<and> (halted s' \<or> timeout_flag s' = timeout_flag s \<and>
    fst (td_accept e) \<notin> fds es \<and> 0 \<le> fst (td_accept e) \<and>
    t_inv listenfd pipefd0 s' (insert_entry (td_new e, td_now e + 3 * TIMESLOT, nat (fst (td_accept e))) es))"
proof -
  obtain connfd addr where a: "td_accept e = (connfd, addr)" by (cases "td_accept e")
  have reg: "t_registered s = t_registered s0" by (simp add: s t_registered_def)
  show ?thesis
  proof (cases "connfd = -1")
    case True
    then have "t_accept os e s = Some (Inr (s\<lparr>halted := True\<rparr>))" using a by (simp add: t_accept_def)
    then show ?thesis by simp
  next
    case False
    with assms(2) a reg have c: "0 \<le> connfd" "t_registered s connfd = None" "timers (timer_lst s) (td_new e) = None"
      by (auto simp: contract_def s)
    note i = t_invD [OF inv]
    let ?e = "td_now e + 3 * TIMESLOT" and ?d = "nat connfd" and ?x = "td_new e"
    let ?es = "insert_entry (?x, ?e, ?d) es"
    have fresh: "lookup ?x es = None" using holds_fresh [OF i(1) c(3)] .
    from lq.put_law [OF i(1) fresh, of ?e ?d] obtain l where
      l: "put_timer 0 ?x ?e ?d (timer_lst s) = Some (Inr l)" "holds_timers 0 l ?es"
      by blast
    let ?u = "\<lparr>cd_address = addr, cd_sockfd = connfd,
                   cd_buf = (case tusers s connfd of None \<Rightarrow> [] | Some old \<Rightarrow> cd_buf old), cd_timer = Some ?x\<rparr>"
    let ?s = "s\<lparr>tusers := (tusers s)(connfd \<mapsto> ?u), timer_lst := l, twork := t_addfd os (m_epollfd (twork s)) connfd (twork s)\<rparr>"
    have acc: "t_accept os e s = Some (Inr ?s)"
      using False a c(1) lim l(1) by (simp add: t_accept_def)
    have "connfd \<notin> {listenfd, pipefd0} \<union> fds es" using c(2) i(4) by (metis domIff)
    then have new: "connfd \<noteq> listenfd" "connfd \<noteq> pipefd0" "connfd \<notin> fds es" by auto
    have d: "int ?d = connfd" using c(1) by simp
    have "t_inv listenfd pipefd0 ?s ?es"
    proof (rule t_invI)
      show "holds_timers 0 (timer_lst ?s) ?es" using l(2) by simp
      show "distinct (map data_of ?es)" using new(3) i(2) d by (simp add: distinct_data_insert)
      have "t_registered ?s = (t_registered s)(connfd \<mapsto> EPOLLIN OR EPOLLET)"
        using c(2) by (simp add: t_registered_def)
      then show "dom (t_registered ?s) = {listenfd, pipefd0} \<union> fds ?es" using i(4) d by auto
      show "listenfd \<notin> fds ?es" "pipefd0 \<notin> fds ?es" using new i(5,6) d by auto
      show "entry_ok (tusers ?s) (tclock ?s) en" if "en \<in> set ?es" for en
      proof (cases "en = (?x, ?e, ?d)")
        case True
        have "connfd < FD_LIMIT" using lim a by simp
        then show ?thesis unfolding True entry_ok_def using d by (simp add: s)
      next
        case False
        with that have "en \<in> set es" by simp
        with new(3) i(7) have "entry_ok (tusers s) (tclock s) en" "int (data_of en) \<noteq> connfd"
          by (auto simp: fds_def)
        then show ?thesis by (simp add: entry_ok_other)
      qed
    qed
    with acc new(3) c(1) a show ?thesis by simp
  qed
qed

lemma data_entry:
  assumes inv: "t_inv listenfd pipefd0 s es" and "t_registered s fd \<noteq> None" and "fd \<noteq> listenfd" and "fd \<noteq> pipefd0"
  obtains x e u where "lookup x es = Some (e, nat fd)" and "0 \<le> fd" and "fd < FD_LIMIT"
    and "tusers s fd = Some u" and "cd_timer u = Some x" and "e \<le> tclock s + 3 * TIMESLOT"
proof -
  note i = t_invD [OF inv]
  from assms(2) have "fd \<in> {listenfd, pipefd0} \<union> fds es" using i(4) by blast
  with assms(3,4) obtain en where m: "en \<in> set es" "fd = int (data_of en)" by (auto simp: fds_def)
  obtain x e d where en: "en = (x, e, d)" by (cases en)
  from entry_okD [OF i(7) [OF m(1)]] obtain u where
    "tusers s fd = Some u" "cd_timer u = Some x" "fd < FD_LIMIT" "e \<le> tclock s + 3 * TIMESLOT"
    unfolding m(2) en by auto
  moreover have "lookup x es = Some (e, nat fd)"
    using i(3) m en by (simp add: lookup_def)
  ultimately show thesis using that m(2) by simp
qed

lemma t_inv_user:
  assumes "t_inv listenfd pipefd0 s es" and "tusers s fd = Some u"
  shows "t_inv listenfd pipefd0 (s\<lparr>tusers := (tusers s)(fd \<mapsto> u\<lparr>cd_buf := b\<rparr>)\<rparr>) es"
  using assms by (simp add: t_inv_def t_registered_def entry_ok_buf)

lemma t_close_inv:
  assumes inv: "t_inv listenfd pipefd0 s es" and l: "lookup x es = Some (e, d)"
  shows "\<exists>s'. t_close (int d) (Some x) s = Inr s' \<and> timeout_flag s' = timeout_flag s \<and>
    t_inv listenfd pipefd0 s' (remove_entry x es)"
proof -
  note i = t_invD [OF inv]
  note rm = remove_entry_facts [OF i(2,3) l]
  from entry_okD [OF i(7) [OF rm(3)]] obtain u where u: "tusers s (int d) = Some u" "cd_sockfd u = int d" by auto
  from lq.cancel_law [OF i(1) l] obtain l' where
    l': "cancel_timer x (timer_lst s) = Inr l'" "holds_timers 0 l' (remove_entry x es)" by blast
  let ?w = "emit (Close (int d)) (emit (Epoll_del 0 (int d)) (twork s))"
  let ?s = "s\<lparr>timer_lst := l', twork := ?w\<rparr>"
  have "t_close (int d) (Some x) s = Inr ?s"
    using u l'(1) by (simp add: t_close_def cb_func_close_def)
  moreover have "t_inv listenfd pipefd0 ?s (remove_entry x es)"
  proof (rule t_invI)
    have "t_registered ?s = (t_registered s)(int d := None)"
      unfolding t_registered_def by auto
    moreover have "int d \<noteq> listenfd" "int d \<noteq> pipefd0" using i(5,6) rm(4) by auto
    ultimately show "dom (t_registered ?s) = {listenfd, pipefd0} \<union> fds (remove_entry x es)"
      using i(4) rm(1) by auto
    show "entry_ok (tusers ?s) (tclock ?s) en" if "en \<in> set (remove_entry x es)" for en
      using i(7) [OF rm(5) [OF that]] by simp
  qed (use l'(2) i(5,6) rm(1,2) in simp_all)
  ultimately show ?thesis by (intro exI [of _ ?s]) simp
qed

lemma t_delay_inv:
  assumes inv: "t_inv listenfd pipefd0 s es" and l: "lookup x es = Some (old, d)"
    and "old \<le> e" and e: "e \<le> tclock s + 3 * TIMESLOT"
  shows "\<exists>l'. delay_timer x e (timer_lst s) = Some (Inr l') \<and>
    t_inv listenfd pipefd0 (s\<lparr>timer_lst := l'\<rparr>) (insert_entry (x, e, d) (remove_entry x es))"
proof -
  note i = t_invD [OF inv]
  note rm = remove_entry_facts [OF i(2,3) l]
  let ?es = "insert_entry (x, e, d) (remove_entry x es)"
  from lq.delay_law [OF i(1) l assms(3)] obtain l' where
    l': "delay_timer x e (timer_lst s) = Some (Inr l')" "holds_timers 0 l' ?es" by blast
  have im: "fds ?es = fds es" using rm(1,4) by auto
  have "t_inv listenfd pipefd0 (s\<lparr>timer_lst := l'\<rparr>) ?es"
  proof (rule t_invI)
    show "entry_ok (tusers (s\<lparr>timer_lst := l'\<rparr>)) (tclock (s\<lparr>timer_lst := l'\<rparr>)) en" if "en \<in> set ?es" for en
    proof (cases "en = (x, e, d)")
      case True
      with i(7) [OF rm(3)] e show ?thesis by (simp add: entry_ok_def)
    next
      case False
      with that have "en \<in> set es" using rm(5) by simp
      with i(7) show ?thesis by simp
    qed
    show "distinct (map data_of ?es)" using rm(1,2) by (simp add: distinct_data_insert)
    show "dom (t_registered (s\<lparr>timer_lst := l'\<rparr>)) = {listenfd, pipefd0} \<union> fds ?es"
      using i(4) im by (simp add: t_registered_def)
  qed (use l'(2) i(5,6) im in simp_all)
  with l'(1) show ?thesis by blast
qed

text \<open>What an event does to the deadlines.\<close>

definition after_recv :: "recv_answer \<Rightarrow> int \<Rightarrow> int \<Rightarrow> (int \<rightharpoonup> int) \<Rightarrow> (int \<rightharpoonup> int)" where
  "after_recv a fd now m = (case a of
     Recv_bytes _ \<Rightarrow> m(fd \<mapsto> now + 3 * TIMESLOT) | Recv_again \<Rightarrow> m | Recv_eof \<Rightarrow> m(fd := None) | Recv_error \<Rightarrow> m(fd := None))"

lemma t_readable_inv:
  assumes inv: "t_inv listenfd pipefd0 s es" and reg: "t_registered s (td_fd e) \<noteq> None"
    and ne: "td_fd e \<noteq> listenfd" "td_fd e \<noteq> pipefd0" and now: "tclock s = td_now e"
    and m: "Map.graph m = deadlines es"
  shows "\<exists>s' es'. t_readable e s = Some (Inr s') \<and> timeout_flag s' = timeout_flag s \<and>
    t_inv listenfd pipefd0 s' es' \<and> Map.graph (after_recv (td_recv e) (td_fd e) (td_now e) m) = deadlines es'"
proof -
  let ?fd = "td_fd e" and ?t = "td_now e + 3 * TIMESLOT"
  obtain x old u where x: "lookup x es = Some (old, nat ?fd)" "0 \<le> ?fd" "?fd < FD_LIMIT"
    and u: "tusers s ?fd = Some u" "cd_timer u = Some x" and old: "old \<le> tclock s + 3 * TIMESLOT"
    by (rule data_entry [OF inv reg ne])
  note rm = remove_entry_facts [OF t_invD(2,3) [OF inv] x(1)]
  have d1: "Map.graph (m(?fd := None)) = deadlines (remove_entry x es)"
    using x(2) by (simp add: graph_fun_upd_None m rm(6))
  have d2: "Map.graph (m(?fd \<mapsto> ?t)) = deadlines (insert_entry (x, ?t, nat ?fd) (remove_entry x es))"
    using x(2) d1 by (simp add: graph_map_upd)
  define got where "got = (case td_recv e of Recv_bytes bs \<Rightarrow> take (BUFFER_SIZE - 1) bs | _ \<Rightarrow> [])"
  define s1 where "s1 = s\<lparr>tusers := (tusers s)(?fd \<mapsto> u\<lparr>cd_buf := got @ replicate (BUFFER_SIZE - length got) NUL\<rparr>)\<rparr>"
  have inv1: "t_inv listenfd pipefd0 s1 es" unfolding s1_def by (rule t_inv_user [OF inv u(1)])
  have clk: "tclock s1 = td_now e" "timeout_flag s1 = timeout_flag s" using now by (simp_all add: s1_def)
  have cl: "\<exists>s'. t_close ?fd (Some x) s1 = Inr s' \<and> timeout_flag s' = timeout_flag s \<and>
      t_inv listenfd pipefd0 s' (remove_entry x es)"
    using t_close_inv [OF inv1 x(1)] x(2) clk by simp
  have dl: "\<exists>l'. delay_timer x ?t (timer_lst s1) = Some (Inr l') \<and>
      t_inv listenfd pipefd0 (s1\<lparr>timer_lst := l'\<rparr>) (insert_entry (x, ?t, nat ?fd) (remove_entry x es))"
    by (rule t_delay_inv [OF inv1 x(1)]) (use old now clk in simp_all)
  have eval: "t_readable e s = (case td_recv e of
              Recv_error \<Rightarrow> Some (t_close ?fd (Some x) s1)
            | Recv_again \<Rightarrow> Some (Inr s1)
            | Recv_eof \<Rightarrow> Some (t_close ?fd (Some x) s1)
            | Recv_bytes bs \<Rightarrow> bind_run (delay_timer x ?t (timer_lst s1)) (\<lambda>l.
                     Some (Inr (s1\<lparr>timer_lst := l\<rparr>))))"
    unfolding s1_def got_def t_readable_def Let_def using x(2,3) u by (simp split: recv_answer.split)
  show ?thesis
  proof (cases "td_recv e")
    case (Recv_bytes bs)
    from dl obtain l' where l': "delay_timer x ?t (timer_lst s1) = Some (Inr l')"
      "t_inv listenfd pipefd0 (s1\<lparr>timer_lst := l'\<rparr>) (insert_entry (x, ?t, nat ?fd) (remove_entry x es))" by blast
    have "t_readable e s = Some (Inr (s1\<lparr>timer_lst := l'\<rparr>))" using l'(1) by (simp add: eval Recv_bytes)
    then show ?thesis using l'(2) d2 clk by (intro exI conjI) (auto simp: after_recv_def Recv_bytes)
  next
    case Recv_again
    then have "t_readable e s = Some (Inr s1)" by (simp add: eval)
    then show ?thesis using inv1 m clk by (intro exI conjI) (auto simp: after_recv_def Recv_again)
  next
    case Recv_eof
    from cl obtain s' where "t_close ?fd (Some x) s1 = Inr s'" "timeout_flag s' = timeout_flag s"
      "t_inv listenfd pipefd0 s' (remove_entry x es)" by blast
    then show ?thesis using d1 by (intro exI conjI) (auto simp: eval after_recv_def Recv_eof)
  next
    case Recv_error
    from cl obtain s' where "t_close ?fd (Some x) s1 = Inr s'" "timeout_flag s' = timeout_flag s"
      "t_inv listenfd pipefd0 s' (remove_entry x es)" by blast
    then show ?thesis using d1 by (intro exI conjI) (auto simp: eval after_recv_def Recv_error)
  qed
qed

text \<open>What the timer handler does: the silent connections are closed, the others keep their timers.\<close>

lemma timer_handler_inv:
  assumes inv: "t_inv listenfd pipefd0 s es"
  shows "\<exists>s'. timer_handler now s = Some (Inr s') \<and>
    t_inv listenfd pipefd0 s' (filter (\<lambda>en. now < when_of en) es) \<and>
    calls (twork s') = calls (twork s) @
      concat (map (\<lambda>d. [Epoll_del 0 (int d), Close (int d)]) (map data_of (filter (\<lambda>en. when_of en \<le> now) es))) @
      [Alarm TIMESLOT] \<and>
    s' = s\<lparr>timer_lst := timer_lst s', twork := twork s'\<rparr>"
proof -
  let ?old = "filter (\<lambda>en. when_of en \<le> now) es" and ?new = "filter (\<lambda>en. now < when_of en) es"
  note i = t_invD [OF inv]
  have us: "\<forall>d \<in> set (map data_of ?old). \<exists>u. tusers s (int d) = Some u \<and> cd_sockfd u = int d"
    using i(7) by (fastforce simp: entry_ok_def)
  from timer_calls [OF us, of 0 "twork s" "m_epollfd (twork s)"] obtain w where
    w: "foldl (\<lambda>w d. timer_call (tusers s) 0 d w) (Inr (twork s)) (map data_of ?old) = Inr w"
      "m_epollfd w = m_epollfd (twork s)"
      "epoll_table (m_epollfd (twork s)) (calls w) = (\<lambda>fd. if fd \<in> fds ?old then None else t_registered s fd)"
      "calls w = calls (twork s) @ concat (map (\<lambda>d. [Epoll_del 0 (int d), Close (int d)]) (map data_of ?old))"
    unfolding t_registered_def fds_map by blast
  from lq.expire_law [OF i(1), of "timer_call (tusers s)" now "Inr (twork s)"] obtain l where
    l: "tick (timer_call (tusers s)) now (timer_lst s) (Inr (twork s)) = Some (Inr (l, Inr w))"
      "holds_timers 0 l ?new" unfolding w(1) by blast
  let ?s = "s\<lparr>timer_lst := l, twork := emit (Alarm TIMESLOT) w\<rparr>"
  have "timer_handler now s = Some (Inr ?s)" using l(1) by (simp add: timer_handler_def)
  moreover have "t_inv listenfd pipefd0 ?s ?new"
  proof (rule t_invI)
    have reg: "t_registered ?s = (\<lambda>fd. if fd \<in> fds ?old then None else t_registered s fd)"
      using w(2,3) by (simp add: t_registered_def)
    have im: "fds ?new = fds es - fds ?old"
      using fds_filter [OF i(2), of "\<lambda>en. when_of en \<le> now"] by (simp add: not_le)
    have sub: "fds ?old \<subseteq> fds es" by (auto simp: fds_def)
    have "dom (t_registered ?s) = dom (t_registered s) - fds ?old"
      unfolding reg by (auto simp: dom_def split: if_splits)
    then show "dom (t_registered ?s) = {listenfd, pipefd0} \<union> fds ?new"
      unfolding i(4) im using i(5,6) sub by auto
    show "listenfd \<notin> fds ?new" "pipefd0 \<notin> fds ?new" using i(5,6) im by simp_all
    show "distinct (map data_of ?new)" using i(2) by (rule distinct_map_filter)
    show "entry_ok (tusers ?s) (tclock ?s) en" if "en \<in> set ?new" for en
      using i(7) that by simp
  qed (use l(2) in simp)
  ultimately show ?thesis using w(4) by (intro exI [of _ ?s]) simp
qed

section \<open>Every run\<close>

text \<open>
  What the server promises: the open connections with the time at which each will be closed if it stays
  silent, and whether the alarm has gone off since they were last looked at.
\<close>

type_synonym deadline_table = "bool \<times> (int \<rightharpoonup> int)"

definition watch :: "int \<Rightarrow> int \<Rightarrow> tevent \<Rightarrow> deadline_table \<Rightarrow> deadline_table" where
  "watch listenfd pipefd0 ev = (\<lambda>(alarm, m). case ev of
     TEnd now \<Rightarrow> if alarm then (False, \<lambda>fd. case m fd of None \<Rightarrow> None | Some t \<Rightarrow> if now < t then Some t else None)
                else (alarm, m)
   | TDeliver e \<Rightarrow>
       if td_fd e = listenfd then (alarm, m(fst (td_accept e) \<mapsto> td_now e + 3 * TIMESLOT))
       else if td_flags e AND EPOLLIN = 0 then (alarm, m)
       else if td_fd e = pipefd0 then (alarm \<or> SIGALRM \<in> set (td_signals e), m)
       else (alarm, after_recv (td_recv e) (td_fd e) (td_now e) m))"

definition watches :: "int \<Rightarrow> int \<Rightarrow> tserver \<Rightarrow> deadline_table \<Rightarrow> bool" where
  "watches listenfd pipefd0 s a \<longleftrightarrow> timeout_flag s = fst a \<and>
     (\<exists>es. t_inv listenfd pipefd0 s es \<and> Map.graph (snd a) = deadlines es)"

definition small_fd :: "tevent \<Rightarrow> bool" where
  "small_fd ev = (case ev of TDeliver e \<Rightarrow> fst (td_accept e) < FD_LIMIT | TEnd _ \<Rightarrow> True)"

lemma t_signals_simps:
  "t_signals sigs s = s\<lparr>timeout_flag := timeout_flag s \<or> SIGALRM \<in> set sigs,
                       stop_server := stop_server s \<or> SIGTERM \<in> set sigs\<rparr>"
proof (induction sigs arbitrary: s)
  case (Cons sig sigs)
  have "t_signals (sig # sigs) s = t_signals sigs (t_signals [sig] s)" by (simp add: t_signals_def)
  also have "\<dots> = (t_signals [sig] s)\<lparr>timeout_flag := timeout_flag (t_signals [sig] s) \<or> SIGALRM \<in> set sigs,
      stop_server := stop_server (t_signals [sig] s) \<or> SIGTERM \<in> set sigs\<rparr>" by (rule Cons.IH)
  finally show ?case by (simp add: t_signals_def SIGALRM_def SIGTERM_def)
qed (simp add: t_signals_def)

lemma t_inv_frame:
  assumes "t_inv listenfd pipefd0 s es" and "timer_lst s' = timer_lst s" and "twork s' = twork s"
    and "tusers s' = tusers s" and "tclock s \<le> tclock s'"
  shows "t_inv listenfd pipefd0 s' es"
  using assms by (simp add: t_inv_def t_registered_def) (blast intro: entry_ok_later)

lemma graph_keep:
  "Map.graph (\<lambda>fd. case m fd of None \<Rightarrow> None | Some t \<Rightarrow> if P t then Some t else None) = {p \<in> Map.graph m. P (snd p)}"
  by (auto simp: Map.graph_def split: option.splits if_splits)

lemma t_dispatch_watches:
  assumes w: "watches listenfd pipefd0 s0 a" and c: "contract listenfd (TDeliver e) s0"
    and s: "s = s0\<lparr>tclock := td_now e\<rparr>" and lim: "fst (td_accept e) < FD_LIMIT"
  shows "\<exists>s'. t_dispatch os listenfd pipefd0 e s = Some (Inr s') \<and>
    (halted s' \<or> watches listenfd pipefd0 s' (watch listenfd pipefd0 (TDeliver e) a))"
proof -
  obtain alarm m where a: "a = (alarm, m)" by (cases a)
  from w a obtain es where i0: "t_inv listenfd pipefd0 s0 es" and g: "Map.graph m = deadlines es"
    and fl: "timeout_flag s = alarm" by (auto simp: watches_def s)
  from c have le: "tclock s0 \<le> td_now e" and reg: "t_registered s (td_fd e) \<noteq> None"
    by (simp_all add: contract_def s t_registered_def)
  have inv: "t_inv listenfd pipefd0 s es" by (rule t_inv_frame [OF i0]) (simp_all add: s le)
  consider (listen) "td_fd e = listenfd" | (other) "td_fd e \<noteq> listenfd" "td_flags e AND EPOLLIN = 0"
    | (signals) "td_fd e \<noteq> listenfd" "td_flags e AND EPOLLIN \<noteq> 0" "td_fd e = pipefd0"
    | (data) "td_fd e \<noteq> listenfd" "td_flags e AND EPOLLIN \<noteq> 0" "td_fd e \<noteq> pipefd0" by blast
  then show ?thesis
  proof cases
    case listen
    let ?fd = "fst (td_accept e)" and ?t = "td_now e + 3 * TIMESLOT"
    from t_accept_inv [OF inv c s lim, of os] obtain s' where
      s': "t_accept os e s = Some (Inr s')" "halted s' \<or> timeout_flag s' = timeout_flag s \<and> ?fd \<notin> fds es \<and> 0 \<le> ?fd \<and>
        t_inv listenfd pipefd0 s' (insert_entry (td_new e, ?t, nat ?fd) es)" by blast
    have "watches listenfd pipefd0 s' (alarm, m(?fd \<mapsto> ?t))" if n: "\<not> halted s'"
    proof -
      have "?fd \<notin> fds es" "0 \<le> ?fd" using n s'(2) by simp_all
      then have "{p \<in> deadlines es. fst p \<noteq> ?fd} = deadlines es" using deadlines_other by blast
      then have "Map.graph (m(?fd \<mapsto> ?t)) = deadlines (insert_entry (td_new e, ?t, nat ?fd) es)"
        using \<open>0 \<le> ?fd\<close> by (simp add: graph_map_upd graph_fun_upd_None g)
      then show ?thesis using n s'(2) fl by (auto simp: watches_def)
    qed
    then show ?thesis using s'(1) listen a by (auto simp: t_dispatch_def watch_def)
  next
    case other
    then have "t_dispatch os listenfd pipefd0 e s = Some (Inr s)" by (simp add: t_dispatch_def)
    moreover have "watch listenfd pipefd0 (TDeliver e) a = a" using other a by (simp add: watch_def)
    moreover have "watches listenfd pipefd0 s a" using inv g fl a by (auto simp: watches_def)
    ultimately show ?thesis by simp
  next
    case signals
    then have "t_dispatch os listenfd pipefd0 e s = Some (Inr (t_signals (td_signals e) s))" by (simp add: t_dispatch_def)
    moreover have "t_inv listenfd pipefd0 (t_signals (td_signals e) s) es"
      by (rule t_inv_frame [OF inv]) (simp_all add: t_signals_simps)
    moreover have "timeout_flag (t_signals (td_signals e) s) = (alarm \<or> SIGALRM \<in> set (td_signals e))"
      by (simp add: t_signals_simps fl)
    moreover have "watch listenfd pipefd0 (TDeliver e) a = (alarm \<or> SIGALRM \<in> set (td_signals e), m)"
      using signals a by (simp add: watch_def)
    ultimately show ?thesis using g by (auto simp: watches_def)
  next
    case data
    have now: "tclock s = td_now e" by (simp add: s)
    from t_readable_inv [OF inv reg data(1,3) now g] obtain s' es' where
      r: "t_readable e s = Some (Inr s')" "timeout_flag s' = timeout_flag s" "t_inv listenfd pipefd0 s' es'"
        "Map.graph (after_recv (td_recv e) (td_fd e) (td_now e) m) = deadlines es'" by blast
    have "watch listenfd pipefd0 (TDeliver e) a = (alarm, after_recv (td_recv e) (td_fd e) (td_now e) m)"
      using data a by (simp add: watch_def)
    moreover have "t_dispatch os listenfd pipefd0 e s = Some (Inr s')" using data r(1) by (simp add: t_dispatch_def)
    ultimately show ?thesis using r(2,3,4) fl by (auto simp: watches_def)
  qed
qed

lemma t_end_watches:
  assumes w: "watches listenfd pipefd0 s0 a" and le: "tclock s0 \<le> now" and s: "s = s0\<lparr>tclock := now\<rparr>"
  shows "\<exists>s'. t_end listenfd pipefd0 pipefd1 now s = Some (Inr s') \<and>
    (halted s' \<or> watches listenfd pipefd0 s' (watch listenfd pipefd0 (TEnd now) a))"
proof -
  obtain alarm m where a: "a = (alarm, m)" by (cases a)
  from w a obtain es where i0: "t_inv listenfd pipefd0 s0 es" and g: "Map.graph m = deadlines es"
    and fl: "timeout_flag s = alarm" by (auto simp: watches_def s)
  have inv: "t_inv listenfd pipefd0 s es" by (rule t_inv_frame [OF i0]) (simp_all add: s le)
  let ?core = "if timeout_flag s
      then bind_run (timer_handler now s) (\<lambda>s1. Some (Inr (s1\<lparr>timeout_flag := False\<rparr>))) else Some (Inr s)"
  have "\<exists>s1. ?core = Some (Inr s1) \<and> watches listenfd pipefd0 s1 (watch listenfd pipefd0 (TEnd now) a)"
  proof (cases alarm)
    case True
    let ?new = "filter (\<lambda>en. now < when_of en) es"
    from timer_handler_inv [OF inv, of now] obtain s1 where
      h: "timer_handler now s = Some (Inr s1)" "t_inv listenfd pipefd0 s1 ?new" by blast
    have "t_inv listenfd pipefd0 (s1\<lparr>timeout_flag := False\<rparr>) ?new" by (rule t_inv_frame [OF h(2)]) simp_all
    moreover have "Map.graph (snd (watch listenfd pipefd0 (TEnd now) a)) = deadlines ?new"
      using True by (simp add: watch_def a graph_keep g deadlines_filter [of "\<lambda>t. now < t"])
    moreover have "fst (watch listenfd pipefd0 (TEnd now) a) = False" using True by (simp add: watch_def a)
    moreover have "?core = Some (Inr (s1\<lparr>timeout_flag := False\<rparr>))" using h(1) True fl by simp
    ultimately show ?thesis unfolding watches_def by (intro exI [of _ "s1\<lparr>timeout_flag := False\<rparr>"]) auto
  next
    case False
    then have "?core = Some (Inr s)" "watch listenfd pipefd0 (TEnd now) a = a" using fl by (simp_all add: watch_def a)
    then show ?thesis using inv g fl a by (auto simp: watches_def)
  qed
  then obtain s1 where c: "?core = Some (Inr s1)"
    "watches listenfd pipefd0 s1 (watch listenfd pipefd0 (TEnd now) a)" by blast
  show ?thesis
  proof (cases "stop_server s1")
    case True
    then show ?thesis unfolding t_end_def c(1) by simp
  next
    case False
    then show ?thesis unfolding t_end_def c(1) using c(2) by simp
  qed
qed

lemma t_step_watches:
  assumes st: "t_step os listenfd pipefd0 pipefd1 s ev r" and w: "halted s \<or> watches listenfd pipefd0 s a"
    and small: "small_fd ev"
  shows "\<exists>s'. r = Some s' \<and> (halted s' \<or> watches listenfd pipefd0 s' (watch listenfd pipefd0 ev a))"
proof -
  have nh: "\<not> halted s" and c: "contract listenfd ev s" using st by (auto elim: t_stepE)
  with w have w': "watches listenfd pipefd0 s a" by simp
  have "\<exists>s'. t_handle os listenfd pipefd0 pipefd1 ev s = Some (Inr s') \<and>
      (halted s' \<or> watches listenfd pipefd0 s' (watch listenfd pipefd0 ev a))"
  proof (cases ev)
    case (TDeliver e)
    with t_dispatch_watches [OF w' _ refl, of e os] c small show ?thesis by (simp add: t_handle_def small_fd_def)
  next
    case (TEnd now)
    with t_end_watches [OF w' _ refl, of now pipefd1] c show ?thesis by (simp add: t_handle_def contract_def)
  qed
  with st show ?thesis by (auto elim: t_stepE)
qed

definition t_safe :: "int \<Rightarrow> int \<Rightarrow> tserver \<Rightarrow> bool" where
  "t_safe listenfd pipefd0 s \<longleftrightarrow> halted s \<or> (\<exists>a. watches listenfd pipefd0 s a)"

interpretation timeouts: safe_system "t_step os listenfd pipefd0 pipefd1" "t_safe listenfd pipefd0" small_fd
  for os listenfd pipefd0 pipefd1
  by unfold_locales (meson t_safe_def t_step_watches)

text \<open>The deadlines along a run.\<close>

definition deadline_trace :: "int \<Rightarrow> int \<Rightarrow> tserver \<Rightarrow> tevent list \<Rightarrow> tserver \<Rightarrow> bool" where
  "deadline_trace listenfd pipefd0 s evs s' \<longleftrightarrow> (\<forall>ev \<in> set evs. small_fd ev) \<longrightarrow>
     (\<forall>a. watches listenfd pipefd0 s a \<longrightarrow>
        halted s' \<or> watches listenfd pipefd0 s' (fold (watch listenfd pipefd0) evs a))"

interpretation deadline_runs: traced_system "t_step os listenfd pipefd0 pipefd1" "deadline_trace listenfd pipefd0"
  for os listenfd pipefd0 pipefd1
proof unfold_locales
  show "deadline_trace listenfd pipefd0 s [] s" for s by (simp add: deadline_trace_def)
next
  fix s evs s1 ev s2
  assume t: "deadline_trace listenfd pipefd0 s evs s1" and st: "t_step os listenfd pipefd0 pipefd1 s1 ev (Some s2)"
  show "deadline_trace listenfd pipefd0 s (evs @ [ev]) s2"
    unfolding deadline_trace_def
  proof (intro impI allI)
    fix a assume "\<forall>ev \<in> set (evs @ [ev]). small_fd ev" and w: "watches listenfd pipefd0 s a"
    then have "small_fd ev" and "\<forall>ev \<in> set evs. small_fd ev" by simp_all
    with t w have "halted s1 \<or> watches listenfd pipefd0 s1 (fold (watch listenfd pipefd0) evs a)"
      unfolding deadline_trace_def by blast
    with t_step_watches [OF st this \<open>small_fd ev\<close>] show
      "halted s2 \<or> watches listenfd pipefd0 s2 (fold (watch listenfd pipefd0) (evs @ [ev]) a)" by simp
  qed
qed

lemma t_start_watches:
  assumes "listenfd \<noteq> pipefd0"
  shows "watches listenfd pipefd0 (t_start os epollfd listenfd pipefd0 pipefd1 now) (False, Map.empty)"
proof -
  let ?s = "t_start os epollfd listenfd pipefd0 pipefd1 now"
  have "holds_timers 0 (timer_lst ?s) []"
    by (simp add: t_start_def holds_timers_def represents_def new_list_def)
  moreover have "dom (t_registered ?s) = {listenfd, pipefd0}"
    using assms by (auto simp: t_start_def t_registered_def setnonblocking_def Let_def epoll_table_def split: if_splits)
  ultimately have "t_inv listenfd pipefd0 ?s []" by (simp add: t_inv_def)
  moreover have "timeout_flag ?s = False" by (simp add: t_start_def)
  ultimately show ?thesis unfolding watches_def by (intro conjI exI [of _ "[]"]) (simp_all add: deadlines_def)
qed

lemma trace_watches:
  assumes "listenfd \<noteq> pipefd0" and "\<forall>ev \<in> set evs. small_fd ev" and "\<not> halted s"
    and "run (t_step os listenfd pipefd0 pipefd1) (t_start os epollfd listenfd pipefd0 pipefd1 now0) evs (Some s)"
  shows "watches listenfd pipefd0 s (fold (watch listenfd pipefd0) evs (False, Map.empty))"
  using deadline_runs.run_rel [OF assms(4)] t_start_watches [OF assms(1), of os epollfd pipefd1 now0] assms(2,3)
  unfolding deadline_trace_def by blast

section \<open>The properties of the server\<close>

definition t_accepted :: tevent where
  "t_accepted = TDeliver \<lparr>td_fd = 3, td_flags = EPOLLIN, td_accept = (7, 0), td_new = 100, td_now = 1,
     td_recv = Recv_again, td_signals = []\<rparr>"

lemma t_sample_run:
  "\<exists>s. run (t_step sample_os 3 5 6) (t_start sample_os 4 3 5 6 0) [t_accepted] (Some s) \<and> \<not> halted s"
proof -
  let ?s = "t_start sample_os 4 3 5 6 0"
  have "contract 3 t_accepted ?s"
    by (simp add: contract_def t_accepted_def t_start_def t_registered_def setnonblocking_def Let_def new_list_def epoll_table_def)
  moreover have "\<not> halted ?s" by (simp add: t_start_def)
  moreover have "\<exists>s. t_handle sample_os 3 5 6 t_accepted ?s = Some (Inr s) \<and> \<not> halted s"
    by (simp add: t_handle_def t_accepted_def t_start_def t_dispatch_def t_accept_def Let_def FD_LIMIT_def
        put_timer_def add_timer_def new_list_def load_def store_def)
  ultimately show ?thesis using handled run_single by meson
qed

text \<open>
  C12. The server is safe: as long as accept returns descriptors below FD\_LIMIT, no sequence of events
  that keeps the contract makes it run into undefined behaviour or loop for ever; and while it serves,
  the open connections and the timers in the list correspond one to one.
\<close>

theorem timeout_server_safe:
  assumes "listenfd \<noteq> pipefd0"
    and "run (t_step os listenfd pipefd0 pipefd1) (t_start os epollfd listenfd pipefd0 pipefd1 now0) evs r"
    and "\<forall>ev \<in> set evs. small_fd ev"
  shows "\<exists>s. r = Some s \<and> (halted s \<or> (\<exists>es. holds_timers 0 (timer_lst s) es \<and> distinct (map data_of es) \<and>
    dom (t_registered s) = {listenfd, pipefd0} \<union> fds es \<and> {listenfd, pipefd0} \<inter> fds es = {} \<and>
    (\<forall>en \<in> set es. entry_ok (tusers s) (tclock s) en)))"
proof -
  have "t_safe listenfd pipefd0 (t_start os epollfd listenfd pipefd0 pipefd1 now0)"
    using t_start_watches [OF assms(1)] unfolding t_safe_def by blast
  from timeouts.run_safe [OF assms(2) this assms(3)] show ?thesis
    by (auto simp: t_safe_def watches_def t_inv_def)
qed

lemma timeout_server_safe_witness:
  "\<exists>s es. run (t_step sample_os 3 5 6) (t_start sample_os 4 3 5 6 0) [t_accepted] (Some s) \<and>
     holds_timers 0 (timer_lst s) es \<and> dom (t_registered s) = {3, 5} \<union> fds es"
proof -
  from t_sample_run obtain s where
    s: "run (t_step sample_os 3 5 6) (t_start sample_os 4 3 5 6 0) [t_accepted] (Some s)" "\<not> halted s" by blast
  have "\<forall>ev \<in> set [t_accepted]. small_fd ev" by (simp add: small_fd_def t_accepted_def FD_LIMIT_def)
  from timeout_server_safe [OF _ s(1) this] s show ?thesis by auto
qed

text \<open>
  C3. The server refines a table of deadlines: a new connection and one that sent data get a deadline
  three time slots ahead, one that ended or failed is removed, the alarm removes those that are due, and
  nothing else changes the table. After any run the descriptors the server watches are its own two and those of the
  table, and the timer of each connection expires at its deadline.
\<close>

theorem deadlines_kept:
  assumes "listenfd \<noteq> pipefd0" and "\<forall>ev \<in> set evs. small_fd ev" and "\<not> halted s"
    and "run (t_step os listenfd pipefd0 pipefd1) (t_start os epollfd listenfd pipefd0 pipefd1 now0) evs (Some s)"
    and "fold (watch listenfd pipefd0) evs (False, Map.empty) = (alarm, m)"
  shows "timeout_flag s = alarm \<and> dom (t_registered s) = {listenfd, pipefd0} \<union> dom m \<and>
    (\<exists>es. holds_timers 0 (timer_lst s) es \<and> deadlines es = Map.graph m)"
proof -
  from trace_watches [OF assms(1-4)] obtain es where
    inv: "t_inv listenfd pipefd0 s es" and g: "Map.graph m = deadlines es" and "timeout_flag s = alarm"
    unfolding assms(5) watches_def by auto
  moreover have "fds es = dom m" unfolding fst_deadlines [symmetric] g [symmetric] by (rule fst_graph_eq_dom)
  ultimately show ?thesis using t_invD(1,4) [OF inv] by auto
qed

lemma deadlines_kept_witness:
  "\<exists>s. run (t_step sample_os 3 5 6) (t_start sample_os 4 3 5 6 0) [t_accepted] (Some s) \<and>
     dom (t_registered s) = {3, 5, 7} \<and> (\<exists>es. holds_timers 0 (timer_lst s) es \<and> deadlines es = {(7, 16)})"
proof -
  from t_sample_run obtain s where
    s: "run (t_step sample_os 3 5 6) (t_start sample_os 4 3 5 6 0) [t_accepted] (Some s)" "\<not> halted s" by blast
  have 1: "\<forall>ev \<in> set [t_accepted]. small_fd ev" by (simp add: small_fd_def t_accepted_def FD_LIMIT_def)
  have 2: "fold (watch 3 5) [t_accepted] (False, Map.empty) = (False, [7 \<mapsto> 16])"
    by (simp add: watch_def t_accepted_def TIMESLOT_def)
  have "Map.graph [7 \<mapsto> 16] = {(7 :: int, 16 :: int)}" by (simp add: graph_map_upd)
  with deadlines_kept [OF _ 1 s(2,1) 2] s show ?thesis by (auto simp: insert_commute)
qed

text \<open>
  C13. When the alarm is handled, exactly the connections whose deadline has passed are closed, each once
  and in the order of their deadlines, and the alarm is set again.
\<close>

theorem alarm_closes_idle:
  assumes "listenfd \<noteq> pipefd0" and "\<forall>ev \<in> set evs. small_fd ev" and "\<not> halted s"
    and "run (t_step os listenfd pipefd0 pipefd1) (t_start os epollfd listenfd pipefd0 pipefd1 now0) evs (Some s)"
    and "fold (watch listenfd pipefd0) evs (False, Map.empty) = (alarm, m)"
  shows "\<exists>s' closed. timer_handler now s = Some (Inr s') \<and> distinct closed \<and>
    set closed = {fd. \<exists>t. m fd = Some t \<and> t \<le> now} \<and> sorted (map (\<lambda>fd. the (m fd)) closed) \<and>
    calls (twork s') = calls (twork s) @ concat (map (\<lambda>fd. [Epoll_del 0 fd, Close fd]) closed) @ [Alarm TIMESLOT]"
proof -
  from trace_watches [OF assms(1-4)] obtain es where
    inv: "t_inv listenfd pipefd0 s es" and g: "Map.graph m = deadlines es"
    unfolding assms(5) watches_def by auto
  let ?old = "filter (\<lambda>en. when_of en \<le> now) es"
  let ?closed = "map int (map data_of ?old)"
  from timer_handler_inv [OF inv, of now] obtain s' where
    h: "timer_handler now s = Some (Inr s')" "calls (twork s') = calls (twork s) @
      concat (map (\<lambda>d. [Epoll_del 0 (int d), Close (int d)]) (map data_of ?old)) @ [Alarm TIMESLOT]" by blast
  have m: "m (int (data_of en)) = Some (when_of en)" if "en \<in> set es" for en
  proof -
    have "(int (data_of en), when_of en) \<in> Map.graph m" unfolding g deadlines_def using that by simp
    then show ?thesis by (rule in_graphD)
  qed
  have "distinct ?closed" unfolding distinct_map [of int] using distinct_map_filter [OF t_invD(2) [OF inv]] by simp
  moreover have "set ?closed = {fd. \<exists>t. m fd = Some t \<and> t \<le> now}"
  proof -
    have "set ?closed = fst ` {p \<in> deadlines es. snd p \<le> now}" by (force simp: deadlines_def)
    then show ?thesis unfolding g [symmetric] by (force simp: Map.graph_def)
  qed
  moreover have "map (\<lambda>fd. the (m fd)) ?closed = map when_of ?old" using m by simp
  then have "sorted (map (\<lambda>fd. the (m fd)) ?closed)"
    using t_invD(1) [OF inv] by (simp only:) (simp add: holds_timers_def sorted_filter)
  moreover have "calls (twork s') = calls (twork s) @ concat (map (\<lambda>fd. [Epoll_del 0 fd, Close fd]) ?closed) @ [Alarm TIMESLOT]"
    using h(2) by (simp add: o_def)
  ultimately show ?thesis using h(1) by blast
qed

lemma alarm_closes_idle_witness:
  "\<exists>s s'. run (t_step sample_os 3 5 6) (t_start sample_os 4 3 5 6 0) [t_accepted] (Some s) \<and>
     timer_handler 20 s = Some (Inr s') \<and>
     calls (twork s') = calls (twork s) @ [Epoll_del 0 7, Close 7, Alarm TIMESLOT]"
proof -
  from t_sample_run obtain s where
    s: "run (t_step sample_os 3 5 6) (t_start sample_os 4 3 5 6 0) [t_accepted] (Some s)" "\<not> halted s" by blast
  have 1: "\<forall>ev \<in> set [t_accepted]. small_fd ev" by (simp add: small_fd_def t_accepted_def FD_LIMIT_def)
  have 2: "fold (watch 3 5) [t_accepted] (False, Map.empty) = (False, [7 \<mapsto> 16])"
    by (simp add: watch_def t_accepted_def TIMESLOT_def)
  from alarm_closes_idle [OF _ 1 s(2,1) 2, of 20] obtain s' closed where
    h: "timer_handler 20 s = Some (Inr s')" "distinct closed" "set closed = {fd. \<exists>t. [7 \<mapsto> 16] fd = Some t \<and> t \<le> (20::int)}"
    "calls (twork s') = calls (twork s) @ concat (map (\<lambda>fd. [Epoll_del 0 fd, Close fd]) closed) @ [Alarm TIMESLOT]"
    by auto
  have "set closed = {7}" unfolding h(3) by auto
  with distinct_card [OF h(2)] have "length closed = 1" by simp
  then obtain fd where "closed = [fd]" by (cases closed) auto
  with \<open>set closed = {7}\<close> have "closed = [7]" by simp
  then have "calls (twork s') = calls (twork s) @ [Epoll_del 0 7, Close 7, Alarm TIMESLOT]" using h(4) by simp
  with h(1) s(1) show ?thesis by blast
qed

end
