(* ===== verification/Process_Pool.thy ===== *)
theory Process_Pool
  imports Http_Types Transitions
begin

unbundle bit_operations_syntax

text \<open>
  The parent of the process pool of \<^verbatim>\<open>src/src/include/process_pool.hpp\<close>: the constructor with its forks,
  the choice of a child for a new connection, the notifications of the children and the signals. The
  two pipes of a child are pairs of descriptors; the int that a process sends through one is recorded
  with its value. The lemmas show that a new connection goes to the first free child of a turn, that between two
  connections announced to a child lies a release of it, which notifications release a child, and that a
  SIGCHLD blocks the parent until no child is left. The children are modelled in Pool_Child.
\<close>

section \<open>The model\<close>

definition MAX_PROCESS_NUMBER :: int where "MAX_PROCESS_NUMBER = 16"
definition USER_PER_PROCESS :: int where "USER_PER_PROCESS = 0xffff"
definition SIGTERM_NUMBER :: nat where "SIGTERM_NUMBER = 15"

record sub_process =
  m_pid :: int
  m_p2c_pipefd :: "int \<times> int"
  m_c2p_pipefd :: "int \<times> int"

record processpool =
  m_process_number :: int
  m_idx :: int
  m_listenfd :: int
  m_stop :: bool
  m_used_process :: "int list"
  m_sub_process :: "sub_process list"
  sub_process_count :: int
  pnet :: world

definition p_addfd :: "os \<Rightarrow> int \<Rightarrow> int \<Rightarrow> world \<Rightarrow> world" where
  "p_addfd os epollfd fd w = snd (setnonblocking os fd (emit (Epoll_add epollfd fd (EPOLLIN OR EPOLLET)) w))"

subsection \<open>The constructor\<close>

text \<open>
  What the calls of round i return: the two socket pairs and the result of fork, 0 in the child. The
  array m\_used\_process is not initialised: junk is what it holds. A failed assertion is None.
\<close>

record fork_answer =
  fa_p2c :: "int \<times> int"
  fa_c2p :: "int \<times> int"
  fa_pid :: int

fun fork_loop :: "int \<Rightarrow> fork_answer list \<Rightarrow> processpool \<Rightarrow> processpool option" where
  "fork_loop i [] s = Some s"
| "fork_loop i (a # as) s =
     (let p = \<lparr>m_pid = fa_pid a, m_p2c_pipefd = fa_p2c a, m_c2p_pipefd = fa_c2p a\<rparr>;
          s1 = s\<lparr>m_sub_process := (m_sub_process s)[nat i := p]\<rparr> in
      if fa_pid a < 0 then None
      else if fa_pid a = 0
      then Some (s1\<lparr>pnet := emit (Close (snd (fa_c2p a))) (emit (Close (fst (fa_p2c a))) (pnet s1)), m_idx := i\<rparr>)
      else fork_loop (i + 1) as
             (s1\<lparr>pnet := emit (Close (fst (fa_c2p a))) (emit (Close (snd (fa_p2c a))) (pnet s1))\<rparr>))"

definition construct_pool :: "int \<Rightarrow> int \<Rightarrow> int list \<Rightarrow> fork_answer list \<Rightarrow> world \<Rightarrow> processpool option" where
  "construct_pool listenfd process_number junk answers w =
     (if \<not> (process_number > 0 \<and> process_number \<le> MAX_PROCESS_NUMBER) then None
      else fork_loop 0 answers
        \<lparr>m_process_number = process_number, m_idx = -1, m_listenfd = listenfd, m_stop = False,
         m_used_process = junk,
         m_sub_process = replicate (nat process_number) \<lparr>m_pid = -1, m_p2c_pipefd = (0, 0), m_c2p_pipefd = (0, 0)\<rparr>,
         sub_process_count = 0, pnet = w\<rparr>)"

text \<open>
  setup\_sig\_pipe: epoll\_create returned epollfd and socketpair the two ends of the signal pipe. The
  parent then registers the listening socket.
\<close>

definition setup_sig_pipe :: "os \<Rightarrow> int \<Rightarrow> int \<Rightarrow> int \<Rightarrow> processpool \<Rightarrow> processpool" where
  "setup_sig_pipe os epollfd sig0 sig1 s =
     s\<lparr>pnet := p_addfd os epollfd sig0 (snd (setnonblocking os sig1 ((pnet s)\<lparr>m_epollfd := epollfd\<rparr>)))\<rparr>"

definition start_parent :: "os \<Rightarrow> int \<Rightarrow> int \<Rightarrow> int \<Rightarrow> processpool \<Rightarrow> processpool" where
  "start_parent os epollfd sig0 sig1 s =
     (let s1 = setup_sig_pipe os epollfd sig0 sig1 s
      in s1\<lparr>pnet := p_addfd os (m_epollfd (pnet s1)) (m_listenfd s1) (pnet s1), sub_process_count := 0\<rparr>)"

subsection \<open>A new connection\<close>

definition proc_at :: "int \<Rightarrow> processpool \<Rightarrow> sub_process res" where
  "proc_at i s = (if 0 \<le> i \<and> i < int (length (m_sub_process s)) then Inr (m_sub_process s ! nat i) else Inl OutOfBounds)"

definition used_at :: "int \<Rightarrow> processpool \<Rightarrow> int res" where
  "used_at i s = (if 0 \<le> i \<and> i < int (length (m_used_process s)) then Inr (m_used_process s ! nat i) else Inl OutOfBounds)"

text \<open>Whether child i can take a connection: the second array is only read when the first test succeeds.\<close>

definition is_free :: "int \<Rightarrow> processpool \<Rightarrow> bool res" where
  "is_free i s = bind_res (proc_at i s) (\<lambda>p.
     if m_pid p \<noteq> -1 then map_res (\<lambda>u. u \<noteq> 1) (used_at i s) else Inr False)"

partial_function (option) choose_loop :: "int \<Rightarrow> int \<Rightarrow> processpool \<Rightarrow> int res option" where
  "choose_loop start i s =
     (case is_free i s of
        Inl u \<Rightarrow> Some (Inl u)
      | Inr free \<Rightarrow>
          if free then Some (Inr i)
          else let i1 = (i + 1) mod m_process_number s in
            if i1 \<noteq> start then choose_loop start i1 s else Some (Inr i1))"

declare choose_loop.simps [code]

datatype plabel = Assigned nat | Refused | Released nat | Signalled | Ignored | Blocked

definition refuse :: "int \<Rightarrow> processpool \<Rightarrow> processpool" where
  "refuse connfd s =
     (if connfd < 0 then s
      else s\<lparr>pnet := emit (Close connfd) (emit (Send connfd (''too many users'' @ [LF])) (pnet s))\<rparr>)"

definition assign :: "os \<Rightarrow> int \<Rightarrow> processpool \<Rightarrow> processpool res" where
  "assign os i s =
     bind_res (proc_at i s) (\<lambda>p.
     if \<not> (0 \<le> i \<and> i < int (length (m_used_process s))) then Inl OutOfBounds
     else Inr (s\<lparr>sub_process_count := (i + 1) mod m_process_number s,
        m_used_process := (m_used_process s)[nat i := 1],
        pnet := p_addfd os (m_epollfd (pnet s)) (snd (m_c2p_pipefd p)) (emit (Send_int (fst (m_p2c_pipefd p)) 1) (pnet s))\<rparr>))"

definition new_connection :: "os \<Rightarrow> int \<Rightarrow> processpool \<Rightarrow> (plabel \<times> processpool) res option" where
  "new_connection os connfd s =
     bind_run (choose_loop (sub_process_count s) (sub_process_count s) s) (\<lambda>i.
     bind_run (Some (is_free i s)) (\<lambda>free.
     Some (if \<not> free then Inr (Refused, refuse connfd s)
           else map_res (Pair (Assigned (nat i))) (assign os i s))))"

subsection \<open>Signals and notifications\<close>

text \<open>
  A byte of the signal pipe; with SIGCHLD what the calls of wait in its loop return: the pid of a child that has
  ended, or -1 when the process has no children. The call behind the last answer blocks for ever (the handlers
  are installed with SA\_RESTART, so that no signal interrupts wait).
\<close>

datatype psignal = Sigchld "int list" | Sigterm | Sigother

fun reclaim :: "int \<Rightarrow> sub_process list \<Rightarrow> world \<Rightarrow> sub_process list \<times> world" where
  "reclaim pid [] w = ([], w)"
| "reclaim pid (p # ps) w =
     (let (p1, w1) = (if m_pid p = pid then (p\<lparr>m_pid := -1\<rparr>, emit (Close (fst (m_p2c_pipefd p))) w) else (p, w));
          (ps1, w2) = reclaim pid ps w1 in (p1 # ps1, w2))"

fun wait_loop :: "int list \<Rightarrow> sub_process list \<Rightarrow> world \<Rightarrow> (sub_process list \<times> world) option" where
  "wait_loop [] ps w = None"
| "wait_loop (pid # answers) ps w =
     (if pid = -1 then Some (ps, w) else let (ps1, w1) = reclaim pid ps w in wait_loop answers ps1 w1)"

definition signal :: "psignal \<Rightarrow> processpool \<Rightarrow> processpool option" where
  "signal sig s =
     (case sig of
        Sigchld answers \<Rightarrow>
          map_option (\<lambda>(ps, w). s\<lparr>m_sub_process := ps, pnet := w, m_stop := list_all (\<lambda>p. m_pid p = -1) ps\<rparr>)
            (wait_loop answers (m_sub_process s) (pnet s))
      | Sigterm \<Rightarrow> Some (s\<lparr>pnet := foldl (\<lambda>w p. if m_pid p \<noteq> -1 then emit (Kill (m_pid p) SIGTERM_NUMBER) w else w)
                               (pnet s) (m_sub_process s)\<rparr>)
      | Sigother \<Rightarrow> Some s)"

fun signals :: "psignal list \<Rightarrow> processpool \<Rightarrow> processpool option" where
  "signals [] s = Some s"
| "signals (sig # sigs) s = (case signal sig s of None \<Rightarrow> None | Some s1 \<Rightarrow> signals sigs s1)"

text \<open>
  A notification. The loop's own i hides the index of the event, so it compares element i of the event
  array (which may be left from an earlier call of epoll\_wait) with the pipe of child i.
\<close>

fun release_loop :: "(nat \<Rightarrow> int) \<Rightarrow> nat \<Rightarrow> sub_process list \<Rightarrow> nat option" where
  "release_loop events i [] = None"
| "release_loop events i (p # ps) =
     (if events i = snd (m_c2p_pipefd p) then Some i else release_loop events (Suc i) ps)"

definition release :: "(nat \<Rightarrow> int) \<Rightarrow> processpool \<Rightarrow> (plabel \<times> processpool) res" where
  "release events s =
     (case release_loop events 0 (m_sub_process s) of
        None \<Rightarrow> Inr (Ignored, s)
      | Some i \<Rightarrow> if i < length (m_used_process s)
                 then Inr (Released i, s\<lparr>m_used_process := (m_used_process s)[i := 0]\<rparr>) else Inl OutOfBounds)"

text \<open>One event of run\_parent: the event array, the index of the event, and the answers of the calls.\<close>

record pevent =
  pe_fds :: "nat \<Rightarrow> int"
  pe_flags :: flags
  pe_index :: nat
  pe_accept :: int
  pe_signals :: "psignal list"

definition parent_event :: "os \<Rightarrow> int \<Rightarrow> pevent \<Rightarrow> processpool \<Rightarrow> (plabel \<times> processpool) res option" where
  "parent_event os sig0 e s =
     (let sockfd = pe_fds e (pe_index e) in
      if sockfd = m_listenfd s then new_connection os (pe_accept e) s
      else if sockfd = sig0 \<and> pe_flags e AND EPOLLIN \<noteq> 0
        then map_option (\<lambda>s1. Inr (Signalled, s1)) (signals (pe_signals e) s)
      else if pe_flags e AND EPOLLIN \<noteq> 0 then Some (release (pe_fds e) s)
      else Some (Inr (Ignored, s)))"

definition stop_parent :: "processpool \<Rightarrow> processpool" where
  "stop_parent s = s\<lparr>pnet := emit (Close (m_epollfd (pnet s))) (pnet s)\<rparr>"

inductive parent_step :: "os \<Rightarrow> int \<Rightarrow> processpool \<Rightarrow> plabel \<Rightarrow> processpool option \<Rightarrow> bool"
  for os :: os and sig0 :: int where
  event: "parent_event os sig0 e s = Some (Inr (l, s')) \<Longrightarrow> parent_step os sig0 s l (Some s')"
| event_undefined: "parent_event os sig0 e s = Some (Inl u) \<Longrightarrow> parent_step os sig0 s Ignored None"
| event_hangs: "parent_event os sig0 e s = None \<Longrightarrow> parent_step os sig0 s Blocked None"

inductive_cases parent_stepE: "parent_step os sig0 s l r"

section \<open>The choice of a child\<close>

text \<open>What every state of the parent satisfies.\<close>

definition procs_ok :: "processpool \<Rightarrow> bool" where
  "procs_ok s \<longleftrightarrow> 0 < m_process_number s \<and> int (length (m_sub_process s)) = m_process_number s \<and>
     int (length (m_used_process s)) = m_process_number s \<and>
     0 \<le> sub_process_count s \<and> sub_process_count s < m_process_number s"

definition free_child :: "processpool \<Rightarrow> nat \<Rightarrow> bool" where
  "free_child s j \<longleftrightarrow> m_pid (m_sub_process s ! j) \<noteq> -1 \<and> m_used_process s ! j \<noteq> 1"

text \<open>The children in the order of one turn, beginning with the one behind the last that was chosen.\<close>

definition turn :: "processpool \<Rightarrow> nat list" where
  "turn s = (let n = nat (m_process_number s) in map (\<lambda>k. (nat (sub_process_count s) + k) mod n) [0..<n])"

lemma is_free_ok:
  assumes "procs_ok s" and "int j < m_process_number s"
  shows "is_free (int j) s = Inr (free_child s j)"
  using assms by (simp add: is_free_def proc_at_def used_at_def free_child_def procs_ok_def)

lemma choose_from:
  assumes ok: "procs_ok s" and n: "m_process_number s = int n" and st: "st < n" and k: "k < n"
  shows "choose_loop (int st) (int ((st + k) mod n)) s =
    Some (Inr (int (case find (free_child s) (map (\<lambda>k. (st + k) mod n) [k..<n]) of Some j \<Rightarrow> j | None \<Rightarrow> st)))"
  using k
proof (induction "n - k" arbitrary: k)
  case (Suc m)
  let ?i = "(st + k) mod n"
  have i: "?i < n" using st by simp
  have f: "is_free (int ?i) s = Inr (free_child s ?i)" using is_free_ok [OF ok] i n by simp
  have ks: "[k..<n] = k # [Suc k..<n]" using Suc.prems by (simp add: upt_conv_Cons)
  have nxt: "(int ?i + 1) mod m_process_number s = int ((st + Suc k) mod n)"
  proof -
    have "(int ?i + 1) mod int n = int (Suc ?i mod n)" by (simp add: of_nat_mod add.commute)
    also have "Suc ?i mod n = (st + Suc k) mod n" by (simp add: mod_Suc_eq)
    finally show ?thesis by (simp only: n)
  qed
  show ?case
  proof (cases "free_child s ?i")
    case True
    then show ?thesis unfolding choose_loop.simps [of "int st" "int ?i" s] f by (simp add: ks)
  next
    case nf: False
    show ?thesis
    proof (cases "Suc k = n")
      case True
      then have "(st + Suc k) mod n = st" using st by simp
      then show ?thesis using nf True unfolding choose_loop.simps [of "int st" "int ?i" s] f nxt Let_def
        by (simp add: ks)
    next
      case False
      with Suc.prems have sk: "Suc k < n" by simp
      have "(st + Suc k) mod n \<noteq> st"
      proof (cases "st + Suc k < n")
        case True
        then show ?thesis by simp
      next
        case False
        then have "(st + Suc k) mod n = st + Suc k - n" using st sk by (subst mod_if) simp
        then show ?thesis using sk False by simp
      qed
      moreover have "choose_loop (int st) (int ((st + Suc k) mod n)) s =
        Some (Inr (int (case find (free_child s) (map (\<lambda>k. (st + k) mod n) [Suc k..<n]) of Some j \<Rightarrow> j | None \<Rightarrow> st)))"
        using Suc.hyps sk by (intro Suc.hyps(1)) simp_all
      ultimately show ?thesis using nf unfolding choose_loop.simps [of "int st" "int ?i" s] f nxt Let_def
        by (simp add: ks)
    qed
  qed
qed simp

lemma choose_correct:
  assumes "procs_ok s"
  shows "choose_loop (sub_process_count s) (sub_process_count s) s =
    Some (Inr (case find (free_child s) (turn s) of Some j \<Rightarrow> int j | None \<Rightarrow> sub_process_count s))"
proof -
  define n st where "n = nat (m_process_number s)" and "st = nat (sub_process_count s)"
  have n: "m_process_number s = int n" and st: "st < n" "sub_process_count s = int st"
    using assms by (auto simp: procs_ok_def n_def st_def)
  have "turn s = map (\<lambda>k. (st + k) mod n) [0..<n]" by (simp add: turn_def Let_def n_def st_def)
  with choose_from [OF assms n st(1), of 0] st show ?thesis by (simp split: option.splits)
qed

lemma set_turn:
  assumes "procs_ok s"
  shows "set (turn s) = {..<length (m_sub_process s)}"
proof -
  define n st where "n = nat (m_process_number s)" and "st = nat (sub_process_count s)"
  have n: "length (m_sub_process s) = n" and st: "st < n" using assms by (auto simp: procs_ok_def n_def st_def)
  have t: "turn s = map (\<lambda>k. (st + k) mod n) [0..<n]" by (simp add: turn_def Let_def n_def st_def)
  have "j \<in> set (turn s)" if "j < n" for j
  proof -
    have "(st + ((j + n - st) mod n)) mod n = (st + (j + n - st)) mod n" by (simp add: mod_add_right_eq)
    also have "\<dots> = j" using st that by simp
    finally have "j = (st + ((j + n - st) mod n)) mod n" by simp
    then show ?thesis using st unfolding t by (metis (no_types, lifting) atLeast0LessThan image_eqI lessThan_iff list.set_map mod_less_divisor not_less_zero set_upt zero_less_iff_neq_zero)
  qed
  moreover have "set (turn s) \<subseteq> {..<n}" using st by (auto simp: t)
  ultimately show ?thesis using n by auto
qed

lemma turn_less: "procs_ok s \<Longrightarrow> j \<in> set (turn s) \<Longrightarrow> j < length (m_sub_process s)"
  by (simp add: set_turn)

text \<open>A new connection: refused, or assigned to the first free child of the turn.\<close>

lemma new_connection_correct:
  assumes ok: "procs_ok s"
  shows "case find (free_child s) (turn s) of
      None \<Rightarrow> new_connection os connfd s = Some (Inr (Refused, refuse connfd s))
    | Some j \<Rightarrow> j < length (m_sub_process s) \<and> free_child s j \<and>
        new_connection os connfd s = Some (Inr (Assigned j, s\<lparr>sub_process_count := (int j + 1) mod m_process_number s,
          m_used_process := (m_used_process s)[j := 1],
          pnet := p_addfd os (m_epollfd (pnet s)) (snd (m_c2p_pipefd (m_sub_process s ! j)))
            (emit (Send_int (fst (m_p2c_pipefd (m_sub_process s ! j))) 1) (pnet s))\<rparr>))"
proof (cases "find (free_child s) (turn s)")
  case None
  define st where "st = nat (sub_process_count s)"
  have st: "sub_process_count s = int st" "int st < m_process_number s" using ok by (auto simp: procs_ok_def st_def)
  then have "st \<in> set (turn s)" using ok by (simp add: set_turn procs_ok_def)
  then have "\<not> free_child s st" using None by (auto simp: find_None_iff)
  then show ?thesis using choose_correct [OF ok] None is_free_ok [OF ok st(2)] st(1)
    by (simp add: new_connection_def)
next
  case (Some j)
  then have j: "j \<in> set (turn s)" "free_child s j" by (auto simp: find_Some_iff)
  from turn_less [OF ok j(1)] have jl: "j < length (m_sub_process s)" .
  then have jn: "int j < m_process_number s" and ju: "j < length (m_used_process s)" using ok by (auto simp: procs_ok_def)
  show ?thesis using choose_correct [OF ok] Some is_free_ok [OF ok jn] j jl ju
    by (simp add: new_connection_def assign_def proc_at_def)
qed

section \<open>Signals and notifications\<close>

lemma reclaim_procs: "fst (reclaim pid ps w) = map (\<lambda>p. if m_pid p = pid then p\<lparr>m_pid := -1\<rparr> else p) ps"
  by (induction ps arbitrary: w) (auto simp: Let_def split_beta)

text \<open>The children of the answers of wait before the first -1, reclaimed in turn.\<close>

fun reclaim_all :: "int list \<Rightarrow> sub_process list \<Rightarrow> world \<Rightarrow> sub_process list \<times> world" where
  "reclaim_all [] ps w = (ps, w)"
| "reclaim_all (pid # pids) ps w = (let (ps1, w1) = reclaim pid ps w in reclaim_all pids ps1 w1)"

definition reported :: "int list \<Rightarrow> int list" where
  "reported answers = takeWhile (\<lambda>pid. pid \<noteq> -1) answers"

lemma reported_pids: "-1 \<notin> set (reported answers)"
  by (auto simp: reported_def dest: set_takeWhileD)

lemma wait_loop_reclaim:
  "wait_loop answers ps w = (if -1 \<in> set answers then Some (reclaim_all (reported answers) ps w) else None)"
  by (induction answers arbitrary: ps w) (auto simp: reported_def split_beta Let_def)

text \<open>The descriptors closed when the children pids are reclaimed.\<close>

fun closed_pipes :: "int list \<Rightarrow> sub_process list \<Rightarrow> int list" where
  "closed_pipes [] ps = []"
| "closed_pipes (pid # pids) ps = map (\<lambda>p. fst (m_p2c_pipefd p)) (filter (\<lambda>p. m_pid p = pid) ps) @
     closed_pipes pids (map (\<lambda>p. if m_pid p = pid then p\<lparr>m_pid := -1\<rparr> else p) ps)"

lemma reclaim_calls:
  "calls (snd (reclaim pid ps w)) = calls w @ map Close (map (\<lambda>p. fst (m_p2c_pipefd p)) (filter (\<lambda>p. m_pid p = pid) ps))"
  by (induction ps arbitrary: w) (auto simp: Let_def split_beta)

lemma reclaim_all_procs:
  assumes "-1 \<notin> set pids"
  shows "fst (reclaim_all pids ps w) = map (\<lambda>p. if m_pid p \<in> set pids then p\<lparr>m_pid := -1\<rparr> else p) ps"
  using assms
proof (induction pids arbitrary: ps w)
  case (Cons pid pids)
  then show ?case by (auto simp: Let_def split_beta reclaim_procs)
qed simp

lemma reclaim_all_length: "length (fst (reclaim_all pids ps w)) = length ps"
  by (induction pids arbitrary: ps w) (simp_all add: Let_def split_beta reclaim_procs)

lemma reclaim_all_calls: "calls (snd (reclaim_all pids ps w)) = calls w @ map Close (closed_pipes pids ps)"
  by (induction pids arbitrary: ps w) (simp_all add: Let_def split_beta reclaim_calls reclaim_procs)

lemma set_closed_pipes:
  assumes "-1 \<notin> set pids"
  shows "set (closed_pipes pids ps) = (\<lambda>p. fst (m_p2c_pipefd p)) ` {p \<in> set ps. m_pid p \<in> set pids}"
  using assms
proof (induction pids arbitrary: ps)
  case (Cons pid pids)
  let ?f = "\<lambda>p. if m_pid p = pid then p\<lparr>m_pid := -1\<rparr> else p"
  have "(\<lambda>p. fst (m_p2c_pipefd p)) ` {p \<in> ?f ` set ps. m_pid p \<in> set pids} =
      (\<lambda>p. fst (m_p2c_pipefd p)) ` {p \<in> set ps. m_pid p \<in> set pids \<and> m_pid p \<noteq> pid}"
    using Cons.prems by (auto simp: image_iff split: if_splits)
  with Cons show ?case by (auto simp: image_iff)
qed simp

lemma release_loop_Some:
  "release_loop events k ps = Some i \<longleftrightarrow> (\<exists>j < length ps. i = k + j \<and> events i = snd (m_c2p_pipefd (ps ! j)) \<and>
     (\<forall>j' < j. events (k + j') \<noteq> snd (m_c2p_pipefd (ps ! j'))))"
proof (induction ps arbitrary: k)
  case (Cons p ps)
  show ?case
  proof (cases "events k = snd (m_c2p_pipefd p)")
    case True
    then show ?thesis by (auto simp: less_Suc_eq_0_disj intro: exI [of _ 0])
  next
    case False
    then have "release_loop events k (p # ps) = release_loop events (Suc k) ps" by simp
    moreover have "(\<exists>j < length (p # ps). i = k + j \<and> events i = snd (m_c2p_pipefd ((p # ps) ! j)) \<and>
        (\<forall>j' < j. events (k + j') \<noteq> snd (m_c2p_pipefd ((p # ps) ! j')))) \<longleftrightarrow>
      (\<exists>j < length ps. i = Suc k + j \<and> events i = snd (m_c2p_pipefd (ps ! j)) \<and>
        (\<forall>j' < j. events (Suc k + j') \<noteq> snd (m_c2p_pipefd (ps ! j'))))" (is "?L \<longleftrightarrow> ?R")
    proof
      assume ?L
      then obtain j where j: "j < length (p # ps)" "i = k + j" "events i = snd (m_c2p_pipefd ((p # ps) ! j))"
        "\<forall>j' < j. events (k + j') \<noteq> snd (m_c2p_pipefd ((p # ps) ! j'))" by blast
      with False obtain m where m: "j = Suc m" by (cases j) simp_all
      have "events (Suc k + j') \<noteq> snd (m_c2p_pipefd (ps ! j'))" if "j' < m" for j'
        using j(4) [rule_format, of "Suc j'"] that m by simp
      then show ?R using j m by (intro exI [of _ m]) simp
    next
      assume ?R
      then obtain m where m: "m < length ps" "i = Suc k + m" "events i = snd (m_c2p_pipefd (ps ! m))"
        "\<forall>j' < m. events (Suc k + j') \<noteq> snd (m_c2p_pipefd (ps ! j'))" by blast
      have "events (k + j') \<noteq> snd (m_c2p_pipefd ((p # ps) ! j'))" if "j' < Suc m" for j'
        using False m(4) [rule_format, of "j' - 1"] that by (cases j') simp_all
      then show ?L using m by (intro exI [of _ "Suc m"]) simp
    qed
    ultimately show ?thesis using Cons.IH [of "Suc k"] by simp
  qed
qed simp

text \<open>One SIGCHLD byte: the parent's loop stops when wait has returned every child that was left.\<close>

lemma signal_sigchld:
  assumes "signal (Sigchld answers) s = Some s'"
  defines "pids \<equiv> reported answers"
  shows "m_sub_process s' = map (\<lambda>p. if m_pid p \<in> set pids then p\<lparr>m_pid := -1\<rparr> else p) (m_sub_process s)"
    and "m_stop s' \<longleftrightarrow> (\<forall>p \<in> set (m_sub_process s). m_pid p = -1 \<or> m_pid p \<in> set pids)"
    and "calls (pnet s') = calls (pnet s) @ map Close (closed_pipes pids (m_sub_process s))"
proof -
  obtain ps w where pw: "reclaim_all pids (m_sub_process s) (pnet s) = (ps, w)" by fastforce
  have "s' = s\<lparr>m_sub_process := ps, pnet := w, m_stop := list_all (\<lambda>p. m_pid p = -1) ps\<rparr>"
    using assms(1) pw by (simp add: signal_def wait_loop_reclaim pids_def split: if_splits)
  moreover have "ps = map (\<lambda>p. if m_pid p \<in> set pids then p\<lparr>m_pid := -1\<rparr> else p) (m_sub_process s)"
    using reclaim_all_procs [OF reported_pids, of answers "m_sub_process s" "pnet s"] pw by (simp add: pids_def)
  moreover have "calls w = calls (pnet s) @ map Close (closed_pipes pids (m_sub_process s))"
    using reclaim_all_calls [of pids "m_sub_process s" "pnet s"] pw by simp
  ultimately show "m_sub_process s' = map (\<lambda>p. if m_pid p \<in> set pids then p\<lparr>m_pid := -1\<rparr> else p) (m_sub_process s)"
    and "m_stop s' \<longleftrightarrow> (\<forall>p \<in> set (m_sub_process s). m_pid p = -1 \<or> m_pid p \<in> set pids)"
    and "calls (pnet s') = calls (pnet s) @ map Close (closed_pipes pids (m_sub_process s))"
    by (auto simp: list_all_iff)
qed

lemma signal_None: "signal sig s = None \<longleftrightarrow> (\<exists>answers. sig = Sigchld answers \<and> -1 \<notin> set answers)"
  by (cases sig) (auto simp: signal_def wait_loop_reclaim)

lemma signal_frame:
  assumes "signal sig s = Some s'"
  shows "m_process_number s' = m_process_number s \<and> m_used_process s' = m_used_process s \<and>
   sub_process_count s' = sub_process_count s \<and> m_listenfd s' = m_listenfd s \<and>
   length (m_sub_process s') = length (m_sub_process s)"
proof -
  have "length ps = length (m_sub_process s)" if "reclaim_all pids (m_sub_process s) (pnet s) = (ps, w)" for pids ps w
    using reclaim_all_length [of pids "m_sub_process s" "pnet s"] that by simp
  then show ?thesis
    using assms by (cases sig) (auto simp: signal_def wait_loop_reclaim split: if_splits)
qed

lemma signals_None: "signals sigs s = None \<longleftrightarrow> (\<exists>answers. Sigchld answers \<in> set sigs \<and> -1 \<notin> set answers)"
proof (induction sigs arbitrary: s)
  case (Cons sig sigs)
  then show ?case using signal_None [of sig s] by (auto split: option.splits)
qed simp

lemma signals_frame:
  assumes "signals sigs s = Some s'"
  shows "m_process_number s' = m_process_number s \<and> m_used_process s' = m_used_process s \<and>
   sub_process_count s' = sub_process_count s \<and> length (m_sub_process s') = length (m_sub_process s)"
  using assms
proof (induction sigs arbitrary: s)
  case (Cons sig sigs)
  then show ?case using signal_frame [of sig s] by (fastforce split: option.splits)
qed simp

lemma release_loop_find:
  "release_loop events 0 ps = find (\<lambda>i. events i = snd (m_c2p_pipefd (ps ! i))) [0..<length ps]"
proof (cases "release_loop events 0 ps")
  case None
  have "events i \<noteq> snd (m_c2p_pipefd (ps ! i))" if "i < length ps" for i
    using that
  proof (induction i rule: less_induct)
    case (less i)
    then show ?case using None release_loop_Some [of events 0 ps i] by auto
  qed
  then have "find (\<lambda>i. events i = snd (m_c2p_pipefd (ps ! i))) [0..<length ps] = None"
    by (simp add: find_None_iff)
  with None show ?thesis by simp
next
  case (Some i)
  then have "i < length ps" "events i = snd (m_c2p_pipefd (ps ! i))"
    "\<forall>j < i. events j \<noteq> snd (m_c2p_pipefd (ps ! j))"
    by (auto simp: release_loop_Some)
  then have "find (\<lambda>i. events i = snd (m_c2p_pipefd (ps ! i))) [0..<length ps] = Some i"
    unfolding find_Some_iff by (intro exI [of _ i]) auto
  with Some show ?thesis by simp
qed

lemma release_cases:
  assumes "procs_ok s"
  obtains "release events s = Inr (Ignored, s)"
  | i where "i < length (m_used_process s)" "events i = snd (m_c2p_pipefd (m_sub_process s ! i))"
      "release events s = Inr (Released i, s\<lparr>m_used_process := (m_used_process s)[i := 0]\<rparr>)"
proof (cases "release_loop events 0 (m_sub_process s)")
  case None
  then show ?thesis using that(1) by (simp add: release_def)
next
  case (Some i)
  then have "i < length (m_sub_process s)" "events i = snd (m_c2p_pipefd (m_sub_process s ! i))"
    by (auto simp: release_loop_Some)
  with assms Some that(2) show ?thesis by (simp add: release_def procs_ok_def)
qed

section \<open>Runs of the parent\<close>

text \<open>
  The children that hold a connection after a trace, and the traces in which no child is given a second
  one before it was released.
\<close>

fun holds :: "nat set \<Rightarrow> plabel \<Rightarrow> nat set" where
  "holds B (Assigned j) = insert j B"
| "holds B (Released j) = B - {j}"
| "holds B l = B"

fun exclusive :: "nat set \<Rightarrow> plabel list \<Rightarrow> bool" where
  "exclusive B [] \<longleftrightarrow> True"
| "exclusive B (l # ls) \<longleftrightarrow> (case l of Assigned j \<Rightarrow> j \<notin> B | _ \<Rightarrow> True) \<and> exclusive (holds B l) ls"

lemma exclusive_snoc:
  "exclusive B (ls @ [l]) \<longleftrightarrow> exclusive B ls \<and> (case l of Assigned j \<Rightarrow> j \<notin> foldl holds B ls | _ \<Rightarrow> True)"
  by (cases l; induction ls arbitrary: B) simp_all

definition assigned :: "nat set \<Rightarrow> processpool \<Rightarrow> bool" where
  "assigned B s \<longleftrightarrow> (\<forall>j \<in> B. j < length (m_used_process s) \<and> m_used_process s ! j = 1)"

text \<open>The event is a signal whose loop over wait gets no -1.\<close>

definition waits_forever :: "int \<Rightarrow> pevent \<Rightarrow> processpool \<Rightarrow> bool" where
  "waits_forever sig0 e s \<longleftrightarrow> pe_fds e (pe_index e) \<noteq> m_listenfd s \<and> pe_fds e (pe_index e) = sig0 \<and>
     pe_flags e AND EPOLLIN \<noteq> 0 \<and> (\<exists>answers. Sigchld answers \<in> set (pe_signals e) \<and> -1 \<notin> set answers)"

text \<open>Any other event of a well-formed parent returns, and marks or clears exactly the child it names.\<close>

lemma parent_event_blocks: "waits_forever sig0 e s \<Longrightarrow> parent_event os sig0 e s = None"
  using signals_None [of "pe_signals e" s] by (auto simp: waits_forever_def parent_event_def Let_def)

lemma parent_event_outcome:
  assumes ok: "procs_ok s" and "\<not> waits_forever sig0 e s"
  shows "\<exists>l s'. parent_event os sig0 e s = Some (Inr (l, s')) \<and> procs_ok s' \<and>
    m_used_process s' = (case l of Assigned j \<Rightarrow> (m_used_process s)[j := 1] | Released j \<Rightarrow> (m_used_process s)[j := 0]
                         | _ \<Rightarrow> m_used_process s) \<and>
    (case l of Assigned j \<Rightarrow> j < length (m_used_process s) \<and> m_used_process s ! j \<noteq> 1 | _ \<Rightarrow> True)"
proof -
  define sockfd where "sockfd = pe_fds e (pe_index e)"
  consider (conn) "sockfd = m_listenfd s" | (sig) "sockfd \<noteq> m_listenfd s" "sockfd = sig0 \<and> pe_flags e AND EPOLLIN \<noteq> 0"
    | (notified) "sockfd \<noteq> m_listenfd s" "\<not> (sockfd = sig0 \<and> pe_flags e AND EPOLLIN \<noteq> 0)" "pe_flags e AND EPOLLIN \<noteq> 0"
    | (other) "sockfd \<noteq> m_listenfd s" "pe_flags e AND EPOLLIN = 0" by blast
  then show ?thesis
  proof cases
    case conn
    then have ev: "parent_event os sig0 e s = new_connection os (pe_accept e) s"
      by (simp add: parent_event_def sockfd_def)
    show ?thesis
    proof (cases "find (free_child s) (turn s)")
      case None
      then show ?thesis using new_connection_correct [OF ok, of os "pe_accept e"] ok
        by (simp add: ev refuse_def procs_ok_def)
    next
      case (Some j)
      then show ?thesis using new_connection_correct [OF ok, of os "pe_accept e"] ok
        by (simp add: ev procs_ok_def free_child_def)
    qed
  next
    case sig
    with assms(2) have "signals (pe_signals e) s \<noteq> None" by (auto simp: signals_None waits_forever_def sockfd_def)
    then obtain s' where s': "signals (pe_signals e) s = Some s'" by blast
    with sig show ?thesis using ok signals_frame [OF s']
      by (simp add: parent_event_def sockfd_def procs_ok_def Let_def)
  next
    case notified
    then have ev: "parent_event os sig0 e s = Some (release (pe_fds e) s)"
      by (auto simp: parent_event_def sockfd_def Let_def)
    show ?thesis
    proof (rule release_cases [OF ok, of "pe_fds e"], goal_cases)
      case 1
      with ev ok show ?case by simp
    next
      case (2 i)
      with ev ok show ?case by (simp add: procs_ok_def)
    qed
  next
    case other
    with ok show ?thesis by (simp add: parent_event_def sockfd_def Let_def)
  qed
qed

lemma parent_event_Some:
  assumes ok: "procs_ok s" and ev: "parent_event os sig0 e s = Some (Inr (l, s'))"
  shows "procs_ok s' \<and>
    m_used_process s' = (case l of Assigned j \<Rightarrow> (m_used_process s)[j := 1] | Released j \<Rightarrow> (m_used_process s)[j := 0]
                         | _ \<Rightarrow> m_used_process s) \<and>
    (case l of Assigned j \<Rightarrow> j < length (m_used_process s) \<and> m_used_process s ! j \<noteq> 1 | _ \<Rightarrow> True)"
  using parent_event_outcome [OF ok, of sig0 e os] parent_event_blocks [of sig0 e s os] ev by fastforce

lemma parent_step_outcome:
  assumes st: "parent_step os sig0 s l (Some s')" and ok: "procs_ok s"
  shows "procs_ok s' \<and>
    (\<forall>B. assigned B s \<longrightarrow> assigned (holds B l) s' \<and> (case l of Assigned j \<Rightarrow> j \<notin> B | _ \<Rightarrow> True))"
proof -
  obtain e where ev: "parent_event os sig0 e s = Some (Inr (l, s'))" using st by (rule parent_stepE) blast+
  then have "procs_ok s'" and u: "m_used_process s' = (case l of Assigned j \<Rightarrow> (m_used_process s)[j := 1]
      | Released j \<Rightarrow> (m_used_process s)[j := 0] | _ \<Rightarrow> m_used_process s)"
    and n: "case l of Assigned j \<Rightarrow> j < length (m_used_process s) \<and> m_used_process s ! j \<noteq> 1 | _ \<Rightarrow> True"
    using parent_event_Some [OF ok, of os sig0 e] by auto
  moreover have "assigned (holds B l) s' \<and> (case l of Assigned j \<Rightarrow> j \<notin> B | _ \<Rightarrow> True)" if "assigned B s" for B
    using that u n by (cases l) (auto simp: assigned_def nth_list_update)
  ultimately show ?thesis by blast
qed

lemma parent_step_returns:
  assumes st: "parent_step os sig0 s l r" and ok: "procs_ok s" and "l \<noteq> Blocked"
  shows "\<exists>s'. r = Some s' \<and> procs_ok s'"
  using st
proof cases
  case (event e s')
  with parent_event_Some [OF ok, of os sig0 e] show ?thesis by blast
next
  case (event_undefined e u)
  then show ?thesis using parent_event_outcome [OF ok, of sig0 e os] parent_event_blocks [of sig0 e s os] by fastforce
qed (use assms(3) in simp)

interpretation parent_runs: safe_system "parent_step os sig0" procs_ok "\<lambda>l. l \<noteq> Blocked"
  by unfold_locales (rule parent_step_returns)

definition exclusive_trace :: "processpool \<Rightarrow> plabel list \<Rightarrow> processpool \<Rightarrow> bool" where
  "exclusive_trace s ls s' \<longleftrightarrow> (procs_ok s \<longrightarrow> procs_ok s' \<and> exclusive {} ls \<and> assigned (foldl holds {} ls) s')"

interpretation assignments: traced_system "parent_step os sig0" exclusive_trace
  for os sig0
proof unfold_locales
  show "exclusive_trace s [] s" for s by (simp add: exclusive_trace_def assigned_def)
next
  fix s evs s1 ev s2
  assume t: "exclusive_trace s evs s1" and st: "parent_step os sig0 s1 ev (Some s2)"
  show "exclusive_trace s (evs @ [ev]) s2" unfolding exclusive_trace_def
  proof
    assume "procs_ok s"
    with t have "procs_ok s1" "exclusive {} evs" "assigned (foldl holds {} evs) s1"
      by (simp_all add: exclusive_trace_def)
    with parent_step_outcome [OF st] show "procs_ok s2 \<and> exclusive {} (evs @ [ev]) \<and> assigned (foldl holds {} (evs @ [ev])) s2"
      by (simp add: exclusive_snoc)
  qed
qed

section \<open>Properties\<close>

lemma fork_loop_parent:
  assumes "\<forall>a \<in> set answers. fa_pid a > 0"
  shows "\<exists>s'. fork_loop i answers s = Some s' \<and> m_process_number s' = m_process_number s \<and> m_idx s' = m_idx s \<and>
    m_used_process s' = m_used_process s \<and> length (m_sub_process s') = length (m_sub_process s)"
  using assms
proof (induction answers arbitrary: i s)
  case (Cons a answers)
  let ?s = "s\<lparr>m_sub_process := (m_sub_process s)[nat i := \<lparr>m_pid = fa_pid a, m_p2c_pipefd = fa_p2c a, m_c2p_pipefd = fa_c2p a\<rparr>],
    pnet := emit (Close (fst (fa_c2p a))) (emit (Close (snd (fa_p2c a))) (pnet s))\<rparr>"
  from Cons.IH [of "i + 1" ?s] Cons.prems show ?case by (auto simp: Let_def)
qed simp

text \<open>After the constructor has forked every child, the parent starts well-formed.\<close>

lemma parent_starts:
  assumes "0 < n" "n \<le> MAX_PROCESS_NUMBER" "int (length junk) = n" "\<forall>a \<in> set answers. fa_pid a > 0"
  shows "\<exists>s. construct_pool listenfd n junk answers w = Some s \<and> m_idx s = -1 \<and>
    procs_ok (start_parent os epollfd sig0 sig1 s)"
proof -
  let ?s = "\<lparr>m_process_number = n, m_idx = -1, m_listenfd = listenfd, m_stop = False, m_used_process = junk,
     m_sub_process = replicate (nat n) \<lparr>m_pid = -1, m_p2c_pipefd = (0, 0), m_c2p_pipefd = (0, 0)\<rparr>,
     sub_process_count = 0, pnet = w\<rparr>"
  obtain s' where "fork_loop 0 answers ?s = Some s'" "m_process_number s' = n" "m_idx s' = -1" "m_used_process s' = junk"
    "length (m_sub_process s') = nat n"
    using fork_loop_parent [OF assms(4), of 0 ?s] by auto
  with assms show ?thesis
    by (simp add: construct_pool_def start_parent_def setup_sig_pipe_def procs_ok_def Let_def)
qed

text \<open>A parent with two children, listening on descriptor 3.\<close>

definition two_children :: processpool where
  "two_children = \<lparr>m_process_number = 2, m_idx = -1, m_listenfd = 3, m_stop = False, m_used_process = [0, 0],
     m_sub_process = [\<lparr>m_pid = 101, m_p2c_pipefd = (4, 5), m_c2p_pipefd = (6, 7)\<rparr>,
                      \<lparr>m_pid = 102, m_p2c_pipefd = (8, 9), m_c2p_pipefd = (10, 11)\<rparr>],
     sub_process_count = 0, pnet = \<lparr>m_epollfd = 12, m_user_count = 0, calls = []\<rparr>\<rparr>"

lemma two_children_ok: "procs_ok two_children" "procs_ok (two_children\<lparr>m_used_process := [1, 0]\<rparr>)"
  "procs_ok (two_children\<lparr>m_used_process := [1, 1]\<rparr>)"
  by (simp_all add: procs_ok_def two_children_def)

text \<open>C17. A new connection goes to the first child of the turn (beginning behind the last one chosen) that
  is alive and not marked as used: that child alone is marked, it is sent one message, and the turn moves
  behind it. When no child is free the connection is refused and no child changes. The loop that looks
  for the child always ends.\<close>

theorem new_connection_turn:
  assumes "procs_ok s"
  shows "new_connection os connfd s = Some (Inr (case find (free_child s) (turn s) of
      None \<Rightarrow> (Refused, refuse connfd s)
    | Some j \<Rightarrow> (Assigned j, s\<lparr>sub_process_count := (int j + 1) mod m_process_number s,
          m_used_process := (m_used_process s)[j := 1],
          pnet := p_addfd os (m_epollfd (pnet s)) (snd (m_c2p_pipefd (m_sub_process s ! j)))
            (emit (Send_int (fst (m_p2c_pipefd (m_sub_process s ! j))) 1) (pnet s))\<rparr>)))"
  using new_connection_correct [OF assms, of os connfd] by (simp split: option.splits)

lemma new_connection_turn_witness:
  "(\<exists>s. new_connection sample_os 5 two_children = Some (Inr (Assigned 0, s)) \<and> m_used_process s = [1, 0] \<and>
      sub_process_count s = 1) \<and>
   (\<exists>s. new_connection sample_os 5 (two_children\<lparr>m_used_process := [1, 1]\<rparr>) = Some (Inr (Refused, s)))"
  using new_connection_turn [OF two_children_ok(1), of sample_os 5]
    new_connection_turn [OF two_children_ok(3), of sample_os 5]
  by (simp add: turn_def two_children_def free_child_def upt_rec)

text \<open>C14. Whatever events the parent handles, from a well-formed state, the connections it announces to a child have
  a release of that child between any two of them. In every state it can reach, no event makes it read
  outside its arrays, and an event never returns exactly when it is a SIGCHLD in whose loop no call of wait
  returns -1; a run ends for no other reason.\<close>

theorem parent_exclusive:
  assumes "procs_ok s" and "run (parent_step os sig0) s ls r"
  shows "exclusive {} ls \<and>
    (case r of None \<Rightarrow> ls \<noteq> [] \<and> last ls = Blocked
     | Some s' \<Rightarrow> procs_ok s' \<and> (\<forall>e u. parent_event os sig0 e s' \<noteq> Some (Inl u) \<and>
         (parent_event os sig0 e s' = None \<longleftrightarrow> waits_forever sig0 e s')))"
proof (cases r)
  case (Some s')
  with assignments.run_rel [OF assms(2) [unfolded Some]] assms(1) have ok: "procs_ok s'" "exclusive {} ls"
    by (simp_all add: exclusive_trace_def)
  then show ?thesis unfolding Some option.case
    using parent_event_outcome [OF ok(1)] parent_event_blocks by (metis Inl_Inr_False option.distinct(1) option.inject)
next
  case None
  then obtain ls1 l s1 where ls: "ls = ls1 @ [l]" "run (parent_step os sig0) s ls1 (Some s1)" "parent_step os sig0 s1 l None"
    using assms(2) by (auto elim: run.cases)
  from assignments.run_rel [OF ls(2)] assms(1) have ok: "procs_ok s1" "exclusive {} ls1"
    by (simp_all add: exclusive_trace_def)
  from parent_step_returns [OF ls(3) ok(1)] have "l = Blocked" by blast
  with ok(2) show ?thesis by (simp add: None ls(1) exclusive_snoc)
qed

lemma parent_exclusive_witness:
  "\<exists>s. run (parent_step sample_os 13) two_children [Assigned 0] (Some s) \<and> exclusive {} [Assigned 0] \<and>
     \<not> exclusive {} [Assigned 0, Assigned 0]"
proof -
  let ?e = "\<lparr>pe_fds = \<lambda>_. 3, pe_flags = EPOLLIN, pe_index = 0, pe_accept = 14, pe_signals = []\<rparr>"
  obtain s where "parent_event sample_os 13 ?e two_children = Some (Inr (Assigned 0, s))"
    using new_connection_correct [OF two_children_ok(1), of sample_os 14]
    by (simp add: parent_event_def two_children_def turn_def free_child_def upt_rec)
  then have r: "run (parent_step sample_os 13) two_children [Assigned 0] (Some s)"
    by (intro run_single parent_step.event)
  from parent_exclusive [OF two_children_ok(1) r] r show ?thesis by auto
qed

text \<open>A SIGCHLD byte whose loop ends: the children that wait returned, and only they, are marked as gone and the
  parent's end of their pipe is closed, and the parent stops exactly when no child is left.\<close>

theorem sigchld_reclaims:
  assumes "signal (Sigchld answers) s = Some s'"
  defines "pids \<equiv> reported answers"
  shows "map m_pid (m_sub_process s') = map (\<lambda>pid. if pid \<in> set pids then -1 else pid) (map m_pid (m_sub_process s)) \<and>
    (\<exists>cs. calls (pnet s') = calls (pnet s) @ map Close cs \<and>
      set cs = (\<lambda>p. fst (m_p2c_pipefd p)) ` {p \<in> set (m_sub_process s). m_pid p \<in> set pids}) \<and>
    (m_stop s' \<longleftrightarrow> (\<forall>p \<in> set (m_sub_process s'). m_pid p = -1))"
  using signal_sigchld [OF assms(1)] set_closed_pipes [OF reported_pids, of answers "m_sub_process s"]
  by (auto simp: pids_def)

lemma sigchld_reclaims_witness:
  "case signal (Sigchld [101, -1]) two_children of None \<Rightarrow> False | Some s \<Rightarrow> map m_pid (m_sub_process s) = [-1, 102] \<and> \<not> m_stop s"
proof -
  obtain s where s: "signal (Sigchld [101, -1]) two_children = Some s"
    using signal_None [of "Sigchld [101, -1]" two_children] by auto
  from sigchld_reclaims [OF s] have "map m_pid (m_sub_process s) = [-1, 102]"
    and st: "m_stop s \<longleftrightarrow> (\<forall>p \<in> set (m_sub_process s). m_pid p = -1)" by (simp_all add: reported_def two_children_def)
  moreover from this have "102 \<in> m_pid ` set (m_sub_process s)" by (metis list.set_intros list.set_map)
  ultimately show ?thesis using s by (auto simp: image_iff)
qed

text \<open>C31. A SIGCHLD ends the service. Let wait return pids of children, and -1 only when all the pool's children
  have been returned: handling the first SIGCHLD returns only when every child has been, and then the
  parent stops; as long as one child is alive the parent is blocked, whatever connections wait.\<close>

theorem sigchld_waits_for_all:
  assumes "-1 \<notin> set pids"
    and "answers = pids @ (if \<forall>p \<in> set (m_sub_process s). m_pid p = -1 \<or> m_pid p \<in> set pids then [-1] else [])"
  shows "case signal (Sigchld answers) s of
      None \<Rightarrow> \<exists>p \<in> set (m_sub_process s). m_pid p \<noteq> -1 \<and> m_pid p \<notin> set pids
    | Some s' \<Rightarrow> (\<forall>p \<in> set (m_sub_process s). m_pid p = -1 \<or> m_pid p \<in> set pids) \<and> m_stop s' \<and>
        (\<forall>p \<in> set (m_sub_process s'). m_pid p = -1)"
proof (cases "signal (Sigchld answers) s")
  case None
  with assms show ?thesis using signal_None [of "Sigchld answers" s] by (auto split: if_splits)
next
  case (Some s')
  then have all: "\<forall>p \<in> set (m_sub_process s). m_pid p = -1 \<or> m_pid p \<in> set pids"
    using assms signal_None [of "Sigchld answers" s] by (auto split: if_splits)
  have "takeWhile (\<lambda>pid. pid \<noteq> -1) (pids @ [-1]) = pids" using assms(1) by (subst takeWhile_append2) auto
  then have "reported answers = pids" using all assms(2) by (simp add: reported_def)
  with signal_sigchld [OF Some] all Some show ?thesis by auto
qed

text \<open>Child 101 of two has ended: the parent blocks; when 102 has ended too it goes on, and stops.\<close>

lemma sigchld_waits_for_all_witness:
  "signal (Sigchld [101]) two_children = None \<and>
   (case signal (Sigchld [101, 102, -1]) two_children of None \<Rightarrow> False | Some s \<Rightarrow> m_stop s)"
proof
  have "[101] = [101] @ (if \<forall>p \<in> set (m_sub_process two_children). m_pid p = -1 \<or> m_pid p \<in> set [101] then [-1] else [])"
    by (simp add: two_children_def)
  from sigchld_waits_for_all [OF _ this] show "signal (Sigchld [101]) two_children = None"
    by (cases "signal (Sigchld [101]) two_children") (simp_all add: two_children_def)
  have "[101, 102, -1] = [101, 102] @ (if \<forall>p \<in> set (m_sub_process two_children). m_pid p = -1 \<or> m_pid p \<in> set [101, 102] then [-1] else [])"
    by (simp add: two_children_def)
  from sigchld_waits_for_all [OF _ this] show "case signal (Sigchld [101, 102, -1]) two_children of None \<Rightarrow> False | Some s \<Rightarrow> m_stop s"
    by (cases "signal (Sigchld [101, 102, -1]) two_children") (auto simp: two_children_def)
qed

text \<open>A notification of a child releases the first child i whose pipe is element i of the event array,
  whichever element the notification is itself: it is missed when its index in the array is not the
  child's, and the child then stays marked as used.\<close>

theorem release_by_index:
  assumes "procs_ok s" and "pe_fds e (pe_index e) \<noteq> m_listenfd s" "pe_fds e (pe_index e) \<noteq> sig0" "pe_flags e AND EPOLLIN \<noteq> 0"
  shows "parent_event os sig0 e s = Some (Inr
    (case find (\<lambda>i. pe_fds e i = snd (m_c2p_pipefd (m_sub_process s ! i))) [0..<length (m_sub_process s)] of
       Some i \<Rightarrow> (Released i, s\<lparr>m_used_process := (m_used_process s)[i := 0]\<rparr>)
     | None \<Rightarrow> (Ignored, s)))"
proof -
  have ev: "parent_event os sig0 e s = Some (release (pe_fds e) s)"
    using assms by (simp add: parent_event_def Let_def)
  show ?thesis
  proof (cases "release_loop (pe_fds e) 0 (m_sub_process s)")
    case None
    then show ?thesis by (simp add: ev release_def release_loop_find)
  next
    case (Some i)
    then have "i < length (m_used_process s)" using assms(1) by (auto simp: release_loop_Some procs_ok_def)
    with Some show ?thesis by (simp add: ev release_def release_loop_find)
  qed
qed

text \<open>The notification of child 1 is the only event, hence element 0 of the array: it is missed.\<close>

lemma release_by_index_witness:
  "parent_event sample_os 13 \<lparr>pe_fds = (\<lambda>i. if i = 0 then 11 else 0), pe_flags = EPOLLIN, pe_index = 0, pe_accept = 14, pe_signals = []\<rparr>
     (two_children\<lparr>m_used_process := [1, 1]\<rparr>) = Some (Inr (Ignored, two_children\<lparr>m_used_process := [1, 1]\<rparr>))"
  by (subst release_by_index [OF two_children_ok(3)]) (simp_all add: two_children_def EPOLLIN_def upt_rec)

end
