(* ===== verification/Pool_Child.thy ===== *)
theory Pool_Child
  imports Process_Pool
begin

unbundle bit_operations_syntax

text \<open>
  The children of the process pool (run\_child of \<^verbatim>\<open>src/src/include/process_pool.hpp\<close>). The class T whose
  objects serve the connections is a parameter: its init and its process, which is given the answer of
  the system to the read it makes. The locale states the contract between the pool and T, and what a child
  then keeps in every run.
\<close>

section \<open>The model\<close>

record 'u child =
  c_pool :: processpool
  c_users :: "int \<Rightarrow> 'u"

definition p_removefd :: "int \<Rightarrow> int \<Rightarrow> world \<Rightarrow> world" where
  "p_removefd epollfd fd w = emit (Close fd) (emit (Epoll_del epollfd fd) w)"

definition own :: "processpool \<Rightarrow> sub_process" where
  "own s = m_sub_process s ! nat (m_idx s)"

definition start_child :: "os \<Rightarrow> int \<Rightarrow> int \<Rightarrow> int \<Rightarrow> 'u \<Rightarrow> processpool \<Rightarrow> 'u child" where
  "start_child os epollfd sig0 sig1 raw s =
     (let s1 = setup_sig_pipe os epollfd sig0 sig1 s
      in \<lparr>c_pool = s1\<lparr>pnet := p_addfd os (m_epollfd (pnet s1)) (snd (m_p2c_pipefd (own s1))) (pnet s1)\<rparr>,
          c_users = (\<lambda>_. raw)\<rparr>)"

text \<open>The bytes of the signal pipe, as far as the child tells them apart.\<close>

datatype csignal = C_child | C_stop | C_other

datatype clabel = Taken int | Served int | Finished int | Idle

record 'a cevent =
  ce_fd :: int
  ce_flags :: flags
  ce_recv :: recv_answer
  ce_accept :: "int \<times> nat"
  ce_signals :: "csignal list"
  ce_input :: 'a

definition c_user_at :: "int \<Rightarrow> 'u child \<Rightarrow> 'u res" where
  "c_user_at fd s = (if 0 \<le> fd \<and> fd < USER_PER_PROCESS then Inr (c_users s fd) else Inl OutOfBounds)"

text \<open>
  The parent announced a connection: a failed recv or the end of the pipe is skipped, but a recv that
  would have to wait is not.
\<close>

definition take_connection :: "os \<Rightarrow> (int \<Rightarrow> int \<Rightarrow> nat \<Rightarrow> 'u \<Rightarrow> world \<Rightarrow> 'u \<times> world) \<Rightarrow> recv_answer \<Rightarrow> int \<times> nat
    \<Rightarrow> 'u child \<Rightarrow> (clabel \<times> 'u child) res" where
  "take_connection os init_T answer accepted s =
     (let (connfd, client_address) = accepted; net = pnet (c_pool s) in
      if answer = Recv_error \<or> answer = Recv_eof then Inr (Idle, s)
      else if connfd < 0 then Inr (Idle, s)
      else bind_res (c_user_at connfd s) (\<lambda>u.
        let (u1, w1) = init_T (m_epollfd net) connfd client_address u (p_addfd os (m_epollfd net) connfd net)
        in Inr (Taken connfd, \<lparr>c_pool = (c_pool s)\<lparr>pnet := w1\<rparr>, c_users = (c_users s)(connfd := u1)\<rparr>)))"

text \<open>
  The signals. On SIGCHLD the loop compares the variable pid, which has no value yet, with the result of
  waitpid.
\<close>

fun child_signals :: "csignal list \<Rightarrow> 'u child \<Rightarrow> 'u child res" where
  "child_signals [] s = Inr s"
| "child_signals (C_child # sigs) s = Inl UninitRead"
| "child_signals (C_stop # sigs) s = child_signals sigs (s\<lparr>c_pool := (c_pool s)\<lparr>m_stop := True\<rparr>\<rparr>)"
| "child_signals (C_other # sigs) s = child_signals sigs s"

definition serve :: "('a \<Rightarrow> 'u \<Rightarrow> world \<Rightarrow> (int \<times> 'u \<times> world) res) \<Rightarrow> 'a \<Rightarrow> int \<Rightarrow> 'u child \<Rightarrow> (clabel \<times> 'u child) res" where
  "serve process_T input sockfd s =
     bind_res (c_user_at sockfd s) (\<lambda>u.
     bind_res (process_T input u (pnet (c_pool s))) (\<lambda>(ret, u1, w1).
     let w2 = (if ret = 0 then emit (Send_int (fst (m_c2p_pipefd (own (c_pool s)))) (m_idx (c_pool s))) w1 else w1)
     in Inr (if ret = 0 then Finished sockfd else Served sockfd,
          \<lparr>c_pool = (c_pool s)\<lparr>pnet := w2\<rparr>, c_users = (c_users s)(sockfd := u1)\<rparr>)))"

definition child_event :: "os \<Rightarrow> (int \<Rightarrow> int \<Rightarrow> nat \<Rightarrow> 'u \<Rightarrow> world \<Rightarrow> 'u \<times> world)
    \<Rightarrow> ('a \<Rightarrow> 'u \<Rightarrow> world \<Rightarrow> (int \<times> 'u \<times> world) res) \<Rightarrow> int \<Rightarrow> 'a cevent \<Rightarrow> 'u child \<Rightarrow> (clabel \<times> 'u child) res" where
  "child_event os init_T process_T sig0 e s =
     (let pipefd = snd (m_p2c_pipefd (own (c_pool s))) in
      if ce_flags e AND EPOLLIN = 0 then Inr (Idle, s)
      else if ce_fd e = pipefd then take_connection os init_T (ce_recv e) (ce_accept e) s
      else if ce_fd e = sig0 then map_res (Pair Idle) (child_signals (ce_signals e) s)
      else serve process_T (ce_input e) (ce_fd e) s)"

definition stop_child :: "'u child \<Rightarrow> 'u child" where
  "stop_child s = s\<lparr>c_pool := (c_pool s)\<lparr>pnet := emit (Close (m_epollfd (pnet (c_pool s))))
     (emit (Close (snd (m_p2c_pipefd (own (c_pool s))))) (pnet (c_pool s)))\<rparr>\<rparr>"

text \<open>
  epoll reports a registered descriptor, and accept returns one that is not in use. The step of an event
  ends in None after an undefined behaviour.
\<close>

definition c_registered :: "'u child \<Rightarrow> int \<Rightarrow> flags option" where
  "c_registered s = epoll_table (m_epollfd (pnet (c_pool s))) (calls (pnet (c_pool s)))"

inductive child_step :: "os \<Rightarrow> (int \<Rightarrow> int \<Rightarrow> nat \<Rightarrow> 'u \<Rightarrow> world \<Rightarrow> 'u \<times> world)
    \<Rightarrow> ('a \<Rightarrow> 'u \<Rightarrow> world \<Rightarrow> (int \<times> 'u \<times> world) res) \<Rightarrow> int \<Rightarrow> 'u child \<Rightarrow> clabel \<Rightarrow> 'u child option \<Rightarrow> bool"
  for os :: os and init_T :: "int \<Rightarrow> int \<Rightarrow> nat \<Rightarrow> 'u \<Rightarrow> world \<Rightarrow> 'u \<times> world"
    and process_T :: "'a \<Rightarrow> 'u \<Rightarrow> world \<Rightarrow> (int \<times> 'u \<times> world) res" and sig0 :: int where
  event: "c_registered s (ce_fd e) \<noteq> None \<Longrightarrow> c_registered s (fst (ce_accept e)) = None \<Longrightarrow>
    child_event os init_T process_T sig0 e s = Inr (l, s') \<Longrightarrow> child_step os init_T process_T sig0 s l (Some s')"
| event_undefined: "c_registered s (ce_fd e) \<noteq> None \<Longrightarrow> c_registered s (fst (ce_accept e)) = None \<Longrightarrow>
    child_event os init_T process_T sig0 e s = Inl u \<Longrightarrow> child_step os init_T process_T sig0 s Idle None"

inductive_cases child_stepE: "child_step os init_T process_T sig0 s l (Some s')"

section \<open>The contract of T and the invariant of a child\<close>

text \<open>The connections a trace of a child leaves open.\<close>

fun opens :: "int set \<Rightarrow> clabel \<Rightarrow> int set" where
  "opens F (Taken fd) = insert fd F"
| "opens F (Finished fd) = F - {fd}"
| "opens F l = F"

definition finished :: "clabel list \<Rightarrow> nat" where
  "finished ls = length (filter (\<lambda>l. case l of Finished fd \<Rightarrow> True | _ \<Rightarrow> False) ls)"

definition child_inv :: "(int \<Rightarrow> int \<Rightarrow> 'u \<Rightarrow> bool) \<Rightarrow> int \<Rightarrow> processpool \<Rightarrow> int set \<Rightarrow> nat \<Rightarrow> 'u child \<Rightarrow> bool" where
  "child_inv serves sig0 p F n s \<longleftrightarrow>
     own (c_pool s) = own p \<and> m_idx (c_pool s) = m_idx p \<and> m_epollfd (pnet (c_pool s)) = m_epollfd (pnet p) \<and>
     dom (c_registered s) = {snd (m_p2c_pipefd (own p)), sig0} \<union> F \<and> F \<inter> {snd (m_p2c_pipefd (own p)), sig0} = {} \<and>
     (\<forall>fd \<in> F. serves (m_epollfd (pnet p)) fd (c_users s fd)) \<and>
     reports (calls (pnet (c_pool s))) = replicate n (fst (m_c2p_pipefd (own p)), m_idx p)"

lemma child_signals_frame:
  "child_signals sigs s = Inr s' \<Longrightarrow> s' = s \<or> s' = s\<lparr>c_pool := (c_pool s)\<lparr>m_stop := True\<rparr>\<rparr>"
  by (induction sigs s rule: child_signals.induct) auto

lemma child_inv_stop:
  "child_inv serves sig0 p F n (s\<lparr>c_pool := (c_pool s)\<lparr>m_stop := b\<rparr>\<rparr>) \<longleftrightarrow> child_inv serves sig0 p F n s"
proof -
  have "c_registered (s\<lparr>c_pool := (c_pool s)\<lparr>m_stop := b\<rparr>\<rparr>) = c_registered s" by (simp add: c_registered_def)
  then show ?thesis unfolding child_inv_def by (simp add: own_def)
qed

lemma own_pool [simp]:
  "own (q\<lparr>pnet := w\<rparr>) = own q" "own (q\<lparr>m_stop := b\<rparr>) = own q"
  by (simp_all add: own_def)

lemma p_addfd_simps [simp]:
  "m_epollfd (p_addfd os ep fd w) = m_epollfd w"
  "epoll_table ep (calls (p_addfd os ep fd w)) = (epoll_table ep (calls w))(fd \<mapsto> case epoll_table ep (calls w) fd of
     Some f \<Rightarrow> f | None \<Rightarrow> EPOLLIN OR EPOLLET)"
  "reports (calls (p_addfd os ep fd w)) = reports (calls w)"
  by (auto simp: p_addfd_def setnonblocking_def Let_def reports_def fun_eq_iff split: option.splits)

locale connection_class =
  fixes init_T :: "int \<Rightarrow> int \<Rightarrow> nat \<Rightarrow> 'u \<Rightarrow> world \<Rightarrow> 'u \<times> world"
    and process_T :: "'a \<Rightarrow> 'u \<Rightarrow> world \<Rightarrow> (int \<times> 'u \<times> world) res"
    and serves :: "int \<Rightarrow> int \<Rightarrow> 'u \<Rightarrow> bool"
  assumes init_serves: "init_T ep fd addr u w = (u', w') \<Longrightarrow> serves ep fd u'"
    and init_quiet: "init_T ep fd addr u w = (u', w') \<Longrightarrow>
      m_epollfd w' = m_epollfd w \<and> epoll_table ep (calls w') = epoll_table ep (calls w) \<and> reports (calls w') = reports (calls w)"
    and process_serves: "serves ep fd u \<Longrightarrow> process_T a u w = Inr (ret, u', w') \<Longrightarrow> serves ep fd u'"
    and process_closes: "serves ep fd u \<Longrightarrow> process_T a u w = Inr (ret, u', w') \<Longrightarrow>
      m_epollfd w' = m_epollfd w \<and> reports (calls w') = reports (calls w) \<and>
      epoll_table ep (calls w') = (if ret = 0 then (epoll_table ep (calls w))(fd := None) else epoll_table ep (calls w))"
begin

lemma child_inv_taken:
  assumes inv: "child_inv serves sig0 p F n s" and new: "c_registered s (fst accepted) = None"
    and t: "take_connection os init_T answer accepted s = Inr (l, s')"
  shows "child_inv serves sig0 p (opens F l) n s' \<and> (\<forall>fd. l \<noteq> Finished fd)"
proof (cases "l = Idle")
  case True
  with t have "s' = s" by (auto simp: take_connection_def Let_def split: prod.splits if_splits)
  with True inv show ?thesis by simp
next
  case False
  obtain connfd addr where acc: "accepted = (connfd, addr)" by (cases accepted)
  let ?w = "pnet (c_pool s)" and ?u = "c_users s connfd"
  obtain u1 w1 where i: "init_T (m_epollfd ?w) connfd addr ?u (p_addfd os (m_epollfd ?w) connfd ?w) = (u1, w1)" by fastforce
  have l: "l = Taken connfd" and s': "s' = \<lparr>c_pool = (c_pool s)\<lparr>pnet := w1\<rparr>, c_users = (c_users s)(connfd := u1)\<rparr>"
    using t False i by (auto simp: take_connection_def acc Let_def c_user_at_def split: if_splits)
  have "connfd \<notin> dom (c_registered s)" using new acc by auto
  moreover have "dom (c_registered s') = insert connfd (dom (c_registered s))"
    using init_quiet [OF i] by (simp add: s' c_registered_def)
  ultimately show ?thesis using inv init_quiet [OF i] init_serves [OF i] unfolding child_inv_def l
    by (auto simp: s')
qed

lemma child_inv_served:
  assumes inv: "child_inv serves sig0 p F n s" and fd: "fd \<in> F"
    and t: "serve process_T input fd s = Inr (l, s')"
  shows "child_inv serves sig0 p (opens F l) (if l = Finished fd then Suc n else n) s' \<and> (l = Finished fd \<or> l = Served fd)"
proof -
  let ?w = "pnet (c_pool s)" and ?u = "c_users s fd" and ?ep = "m_epollfd (pnet p)"
  have sv: "serves ?ep fd ?u" and ep: "m_epollfd ?w = ?ep" using inv fd by (auto simp: child_inv_def)
  obtain ret u1 w1 where pr: "process_T input ?u ?w = Inr (ret, u1, w1)"
    using t by (auto simp: serve_def c_user_at_def split: if_splits)
  note law = process_closes [OF sv pr] process_serves [OF sv pr]
  let ?w2 = "if ret = 0 then emit (Send_int (fst (m_c2p_pipefd (own (c_pool s)))) (m_idx (c_pool s))) w1 else w1"
  have l: "l = (if ret = 0 then Finished fd else Served fd)"
    and s': "s' = \<lparr>c_pool = (c_pool s)\<lparr>pnet := ?w2\<rparr>, c_users = (c_users s)(fd := u1)\<rparr>"
    using t pr by (auto simp: serve_def c_user_at_def Let_def split: if_splits)
  have "c_registered s' = (if ret = 0 then (c_registered s)(fd := None) else c_registered s)"
    using law ep by (simp add: c_registered_def s')
  moreover have "reports (calls ?w2) = reports (calls ?w) @ (if ret = 0 then [(fst (m_c2p_pipefd (own p)), m_idx p)] else [])"
    using law inv by (simp add: reports_def child_inv_def)
  moreover have "m_epollfd ?w2 = ?ep" using law ep by simp
  ultimately show ?thesis using inv law fd unfolding child_inv_def l s'
    by (auto simp: replicate_append_same)
qed

lemma child_inv_step:
  assumes inv: "child_inv serves sig0 p F n s" and st: "child_step os init_T process_T sig0 s l (Some s')"
  shows "child_inv serves sig0 p (opens F l) (n + finished [l]) s'"
proof -
  obtain e where reg: "c_registered s (ce_fd e) \<noteq> None" and new: "c_registered s (fst (ce_accept e)) = None"
    and ev: "child_event os init_T process_T sig0 e s = Inr (l, s')"
    using st by (rule child_stepE) blast
  let ?pipefd = "snd (m_p2c_pipefd (own (c_pool s)))"
  consider (off) "ce_flags e AND EPOLLIN = 0" | (pipe) "ce_flags e AND EPOLLIN \<noteq> 0" "ce_fd e = ?pipefd"
    | (sig) "ce_flags e AND EPOLLIN \<noteq> 0" "ce_fd e \<noteq> ?pipefd" "ce_fd e = sig0"
    | (conn) "ce_flags e AND EPOLLIN \<noteq> 0" "ce_fd e \<noteq> ?pipefd" "ce_fd e \<noteq> sig0" by blast
  then show ?thesis
  proof cases
    case off
    then show ?thesis using ev inv by (simp add: child_event_def Let_def finished_def)
  next
    case pipe
    then have "take_connection os init_T (ce_recv e) (ce_accept e) s = Inr (l, s')"
      using ev by (simp add: child_event_def Let_def)
    from child_inv_taken [OF inv new this] show ?thesis
      by (cases l) (simp_all add: finished_def)
  next
    case sig
    then have "l = Idle" "child_signals (ce_signals e) s = Inr s'"
      using ev by (auto simp: child_event_def Let_def map_res_Inr_iff)
    with child_signals_frame [OF this(2)] inv show ?thesis by (auto simp: finished_def child_inv_stop)
  next
    case conn
    then have "serve process_T (ce_input e) (ce_fd e) s = Inr (l, s')"
      using ev by (simp add: child_event_def Let_def)
    moreover have "ce_fd e \<in> F" using conn reg inv by (auto simp: child_inv_def)
    ultimately show ?thesis using child_inv_served [OF inv] by (fastforce simp: finished_def)
  qed
qed

definition child_trace :: "int \<Rightarrow> processpool \<Rightarrow> 'u child \<Rightarrow> clabel list \<Rightarrow> 'u child \<Rightarrow> bool" where
  "child_trace sig0 p s ls s' \<longleftrightarrow> (child_inv serves sig0 p {} 0 s \<longrightarrow> child_inv serves sig0 p (foldl opens {} ls) (finished ls) s')"

sublocale child_runs: traced_system "child_step os init_T process_T sig0" "child_trace sig0 p"
  for os sig0 p
proof unfold_locales
  show "child_trace sig0 p s [] s" for s by (simp add: child_trace_def finished_def)
next
  fix s ls s1 l s2
  assume "child_trace sig0 p s ls s1" and st: "child_step os init_T process_T sig0 s1 l (Some s2)"
  with child_inv_step [OF _ st, of p "foldl opens {} ls" "finished ls"]
  show "child_trace sig0 p s (ls @ [l]) s2" by (simp add: child_trace_def finished_def)
qed

end

end
