(* ===== verification/Echo_Conn.thy ===== *)
theory Echo_Conn
  imports Pool_Child
begin

text \<open>
  The echo server of \<^verbatim>\<open>src/src/execution/echo_processpool_server.cpp\<close>: the class echo\_conn, what its
  process sends for the bytes it receives, and the children of the pool that run it. The class is an
  instance of the contract of the pool.
\<close>

section \<open>The model\<close>

definition ECHO_BUFFER_SIZE :: nat where "ECHO_BUFFER_SIZE = 1024"

record echo_conn =
  e_epollfd :: int
  e_sockfd :: int
  e_address :: nat
  e_buf :: buf
  e_read_idx :: int

definition echo_init :: "int \<Rightarrow> int \<Rightarrow> nat \<Rightarrow> echo_conn \<Rightarrow> world \<Rightarrow> echo_conn \<times> world" where
  "echo_init epollfd sockfd client_addr c w =
     (c\<lparr>e_epollfd := epollfd, e_sockfd := sockfd, e_address := client_addr,
        e_buf := replicate ECHO_BUFFER_SIZE NUL, e_read_idx := 0\<rparr>, w)"

definition line_end_at :: "buf \<Rightarrow> int \<Rightarrow> bool res" where
  "line_end_at b idx =
     (if idx < 1 then Inr False
      else bind_res (bget b (idx - 1)) (\<lambda>c. if c \<noteq> CR then Inr False else map_res (\<lambda>d. d = LF) (bget b idx)))"

function echo_scan :: "buf \<Rightarrow> int \<Rightarrow> int \<Rightarrow> int res" where
  "echo_scan b n idx =
     (if idx < n then bind_res (line_end_at b idx) (\<lambda>stop. if stop then Inr idx else echo_scan b n (idx + 1))
      else Inr idx)"
  by pat_completeness auto
termination by (relation "measure (\<lambda>(b, n, idx). nat (n - idx))") auto

declare echo_scan.simps [simp del]

definition echo_process :: "recv_answer \<Rightarrow> echo_conn \<Rightarrow> world \<Rightarrow> (int \<times> echo_conn \<times> world) res" where
  "echo_process answer c w =
     (let zero = replicate ECHO_BUFFER_SIZE NUL; c0 = c\<lparr>e_buf := zero\<rparr> in
      case answer of
        Recv_error \<Rightarrow> Inr (0, c0, p_removefd (e_epollfd c) (e_sockfd c) w)
      | Recv_again \<Rightarrow> Inr (1, c0, w)
      | Recv_eof \<Rightarrow> Inr (0, c0, p_removefd (e_epollfd c) (e_sockfd c) w)
      | Recv_bytes bs \<Rightarrow>
          bind_res (put_bytes zero 0 bs) (\<lambda>b.
          bind_res (add_int (e_read_idx c) (int (length bs))) (\<lambda>n.
          bind_res (echo_scan b n 0) (\<lambda>idx.
          bind_res (bset b (idx - 1) NUL) (\<lambda>b1.
          Inr (1, c\<lparr>e_buf := b1, e_read_idx := n\<rparr>, emit (Send (e_sockfd c) b1) w))))))"

section \<open>The scan for the line end\<close>

text \<open>The position of the first CR LF.\<close>

fun line_end :: "char list \<Rightarrow> nat option" where
  "line_end (c # d # cs) = (if c = CR \<and> d = LF then Some 0 else map_option Suc (line_end (d # cs)))"
| "line_end _ = None"

lemma line_end_Some:
  "line_end bs = Some k \<longleftrightarrow> Suc k < length bs \<and> bs ! k = CR \<and> bs ! Suc k = LF \<and>
     (\<forall>j < k. \<not> (bs ! j = CR \<and> bs ! Suc j = LF))"
proof (induction bs arbitrary: k rule: line_end.induct)
  case (1 c d cs)
  show ?case
  proof (cases k)
    case 0
    then show ?thesis by auto
  next
    case (Suc m)
    have "(\<forall>j < Suc m. \<not> ((c # d # cs) ! j = CR \<and> (c # d # cs) ! Suc j = LF)) \<longleftrightarrow>
        \<not> (c = CR \<and> d = LF) \<and> (\<forall>j < m. \<not> ((d # cs) ! j = CR \<and> (d # cs) ! Suc j = LF))"
      unfolding All_less_Suc2 by simp
    with 1 [of m] Suc show ?thesis by auto
  qed
qed simp_all

lemma line_end_None:
  assumes "line_end bs = None" and "Suc k < length bs"
  shows "\<not> (bs ! k = CR \<and> bs ! Suc k = LF)"
  using assms(2)
proof (induction k rule: less_induct)
  case (less k)
  then show ?case using assms(1) line_end_Some [of bs k] by auto
qed

lemma line_end_at_nth:
  "j + 1 < length b \<Longrightarrow> line_end_at b (int (j + 1)) = Inr (b ! j = CR \<and> b ! Suc j = LF)"
  by (simp add: line_end_at_def bget_def nat_add_distrib)

lemma echo_scan_skip:
  assumes "\<forall>j. j + 1 < m \<longrightarrow> \<not> (b ! j = CR \<and> b ! Suc j = LF)" and "i \<le> m" "m \<le> length b" "int m \<le> n"
  shows "echo_scan b n (int i) = echo_scan b n (int m)"
  using assms(2)
proof (induction "m - i" arbitrary: i)
  case (Suc d)
  then have im: "i < m" by simp
  have "line_end_at b (int i) = Inr False"
  proof (cases i)
    case 0
    then show ?thesis by (simp add: line_end_at_def)
  next
    case (Suc j)
    with im assms(3) assms(1) line_end_at_nth [of j b] show ?thesis by auto
  qed
  then have "echo_scan b n (int i) = echo_scan b n (int (Suc i))"
    using im assms(4) by (subst echo_scan.simps) (simp add: add.commute)
  with Suc.hyps(1) [of "Suc i"] Suc.hyps(2) im show ?case by simp
qed simp

text \<open>The scan of a buffer that ends in NUL, up to n: it stops at the LF of the first line end.\<close>

lemma echo_scan_outcome:
  assumes len: "length b = N" "0 < N" and last: "b ! (N - 1) = NUL" and n: "int (length bs) \<le> n"
    and bs: "length bs < N" "b = bs @ replicate (N - length bs) NUL"
  shows "case line_end bs of
      Some k \<Rightarrow> echo_scan b n 0 = Inr (int (Suc k))
    | None \<Rightarrow> if n \<le> int N + 1 then echo_scan b n 0 = Inr n else echo_scan b n 0 = Inl OutOfBounds"
proof (cases "line_end bs")
  case (Some k)
  then have k: "Suc k < length bs" "bs ! k = CR" "bs ! Suc k = LF" "\<forall>j < k. \<not> (bs ! j = CR \<and> bs ! Suc j = LF)"
    by (auto simp: line_end_Some)
  have "echo_scan b n (int 0) = echo_scan b n (int (Suc k))"
    using k n bs by (intro echo_scan_skip) (auto simp: nth_append)
  also have "\<dots> = Inr (int (Suc k))"
    using k n bs line_end_at_nth [of k b] by (subst echo_scan.simps) (simp add: nth_append)
  finally show ?thesis using Some by simp
next
  case None
  have no: "\<not> (b ! j = CR \<and> b ! Suc j = LF)" if "j + 1 < N" for j
  proof (cases "Suc j < length bs")
    case True
    then show ?thesis using line_end_None [OF None True] by (simp add: bs(2) nth_append)
  next
    case False
    then show ?thesis using that bs len by (auto simp: nth_append)
  qed
  show ?thesis
  proof (cases "n \<le> int N")
    case True
    have "echo_scan b n (int 0) = echo_scan b n (int (nat n))"
      using no True n len by (intro echo_scan_skip) auto
    then show ?thesis using None True n by (simp add: echo_scan.simps [of b n n])
  next
    case False
    have "echo_scan b n (int 0) = echo_scan b n (int N)"
      using no False len by (intro echo_scan_skip) auto
    also have "\<dots> = echo_scan b n (int N + 1)"
      using False len last by (subst echo_scan.simps) (simp add: line_end_at_def bget_def nat_diff_distrib)
    also have "\<dots> = (if n \<le> int N + 1 then Inr n else Inl OutOfBounds)"
      using False len by (subst echo_scan.simps) (auto simp: line_end_at_def bget_def)
    finally show ?thesis using None by simp
  qed
qed

section \<open>Properties\<close>

text \<open>C19. What echo_conn::process answers to bs, the bytes one recv delivered, when r bytes were read before:
  the whole buffer of 1024 bytes, bs followed by NULs, with the CR of the first line end of bs overwritten
  by NUL. Without a line end the byte before r plus the length of bs is overwritten instead, which is the
  last of bs only in the first call, and lies outside the buffer once more than 1024 bytes were read.\<close>

theorem echo_outcome:
  assumes "0 < length bs" "length bs < ECHO_BUFFER_SIZE" and "0 \<le> e_read_idx c" "e_read_idx c + int (length bs) \<le> INT_MAX"
  shows "echo_process (Recv_bytes bs) c w =
    (let n = e_read_idx c + int (length bs); b = bs @ replicate (ECHO_BUFFER_SIZE - length bs) NUL;
         answer = (\<lambda>b1. Inr (1, c\<lparr>e_buf := b1, e_read_idx := n\<rparr>, emit (Send (e_sockfd c) b1) w))
     in case line_end bs of
          Some k \<Rightarrow> answer (b[k := NUL])
        | None \<Rightarrow> if n \<le> int ECHO_BUFFER_SIZE then answer (b[nat (n - 1) := NUL]) else Inl OutOfBounds)"
proof -
  let ?n = "e_read_idx c + int (length bs)" and ?N = ECHO_BUFFER_SIZE
  define b where "b = bs @ replicate (?N - length bs) NUL"
  have len: "length b = ?N" using assms(2) by (simp add: b_def)
  have lst: "b ! (?N - 1) = NUL" using assms(2) by (auto simp: b_def nth_append)
  have put: "put_bytes (replicate ?N NUL) 0 bs = Inr b" using assms(2) by (simp add: put_bytes_def b_def)
  have add: "add_int (e_read_idx c) (int (length bs)) = Inr ?n"
    using assms(3,4) by (simp add: add_int_def INT_MIN_def)
  have sc: "case line_end bs of Some k \<Rightarrow> echo_scan b ?n 0 = Inr (int (Suc k))
    | None \<Rightarrow> if ?n \<le> int ?N + 1 then echo_scan b ?n 0 = Inr ?n else echo_scan b ?n 0 = Inl OutOfBounds"
    using assms len lst by (intro echo_scan_outcome) (simp_all add: b_def)
  have ep: "echo_process (Recv_bytes bs) c w = bind_res (echo_scan b ?n 0) (\<lambda>idx. bind_res (bset b (idx - 1) NUL) (\<lambda>b1.
      Inr (1, c\<lparr>e_buf := b1, e_read_idx := ?n\<rparr>, emit (Send (e_sockfd c) b1) w)))"
    by (simp add: echo_process_def put add)
  show ?thesis
  proof (cases "line_end bs")
    case (Some k)
    then have "k < ?N" using assms(2) by (auto simp: line_end_Some)
    with Some sc show ?thesis by (simp add: ep Let_def b_def [symmetric] bset_def len)
  next
    case None
    have "0 < ?n" using assms(1,3) by (cases bs) simp_all
    with None sc show ?thesis
      by (auto simp: ep Let_def b_def [symmetric] bset_def len split: if_splits)
  qed
qed

definition sample_echo :: echo_conn where
  "sample_echo = \<lparr>e_epollfd = 12, e_sockfd = 14, e_address = 0, e_buf = [], e_read_idx = 1000\<rparr>"

lemma echo_outcome_witness:
  "(\<exists>c w. echo_process (Recv_bytes [CHR ''a'', CR, LF]) (sample_echo\<lparr>e_read_idx := 0\<rparr>) sample_world = Inr (1, c, w) \<and>
      calls w = [Send 14 ([CHR ''a'', NUL, LF] @ replicate 1021 NUL)]) \<and>
   echo_process (Recv_bytes (replicate 100 (CHR ''a''))) sample_echo sample_world = Inl OutOfBounds"
proof -
  have l: "line_end (replicate 100 (CHR ''a'')) = None"
    by (cases "line_end (replicate 100 (CHR ''a''))") (auto simp: line_end_Some)
  show ?thesis
    using echo_outcome [of "[CHR ''a'', CR, LF]" "sample_echo\<lparr>e_read_idx := 0\<rparr>" sample_world]
      echo_outcome [of "replicate 100 (CHR ''a'')" sample_echo sample_world] l
    by (simp add: ECHO_BUFFER_SIZE_def INT_MAX_def sample_echo_def sample_world_def)
qed

section \<open>The children of the echo server\<close>

definition echo_serves :: "int \<Rightarrow> int \<Rightarrow> echo_conn \<Rightarrow> bool" where
  "echo_serves epollfd fd c \<longleftrightarrow> e_epollfd c = epollfd \<and> e_sockfd c = fd"

lemma echo_process_cases:
  assumes "echo_process a c w = Inr (ret, c', w')"
  shows "e_epollfd c' = e_epollfd c \<and> e_sockfd c' = e_sockfd c \<and>
    (ret = 0 \<and> w' = p_removefd (e_epollfd c) (e_sockfd c) w \<or> ret = 1 \<and> (w' = w \<or> (\<exists>b. w' = emit (Send (e_sockfd c) b) w)))"
  using assms by (cases a) (auto simp: echo_process_def Let_def bind_res_Inr_iff)

interpretation echo: connection_class echo_init echo_process echo_serves
proof (unfold_locales, goal_cases)
  case (4 ep fd u a w ret u' w')
  from echo_process_cases [OF this(2)] this(1) show ?case
    by (auto simp: echo_serves_def p_removefd_def reports_def)
qed (auto simp: echo_init_def echo_serves_def dest: echo_process_cases)

lemma fork_loop_closes:
  "fork_loop i answers s = Some s' \<Longrightarrow> \<exists>fds. calls (pnet s') = calls (pnet s) @ map Close fds"
proof (induction answers arbitrary: i s)
  case (Cons a answers)
  show ?case
  proof (cases "fa_pid a = 0")
    case True
    with Cons.prems show ?thesis by (auto simp: Let_def intro: exI [of _ "[fst (fa_p2c a), snd (fa_c2p a)]"])
  next
    case False
    let ?s = "s\<lparr>m_sub_process := (m_sub_process s)[nat i := \<lparr>m_pid = fa_pid a, m_p2c_pipefd = fa_p2c a, m_c2p_pipefd = fa_c2p a\<rparr>],
      pnet := emit (Close (fst (fa_c2p a))) (emit (Close (snd (fa_p2c a))) (pnet s))\<rparr>"
    from Cons.prems False have "fork_loop (i + 1) answers ?s = Some s'" by (simp add: Let_def split: if_splits)
    from Cons.IH [OF this] obtain fds where "calls (pnet s') = calls (pnet s) @ map Close (snd (fa_p2c a) # fst (fa_c2p a) # fds)"
      by auto
    then show ?thesis by blast
  qed
qed (simp add: exI [of _ "[]"])

lemma closes_quiet: "epoll_table ep (map Close fds) = (\<lambda>_. None)" "reports (map Close fds) = []"
  by (induction fds) (simp_all add: reports_def epoll_table_def)

lemma start_child_inv:
  assumes "construct_pool listenfd n junk answers \<lparr>m_epollfd = 0, m_user_count = 0, calls = []\<rparr> = Some p"
  shows "child_inv serves sig0 (p\<lparr>pnet := (pnet p)\<lparr>m_epollfd := ep\<rparr>\<rparr>) {} 0 (start_child os ep sig0 sig1 raw p)"
proof -
  obtain fds where "calls (pnet p) = map Close fds"
    using assms by (fastforce simp: construct_pool_def split: if_splits dest: fork_loop_closes)
  then show ?thesis
    by (auto simp: child_inv_def start_child_def setup_sig_pipe_def setnonblocking_def c_registered_def Let_def
        closes_quiet reports_def [of "[Fcntl_setfl _ _]"] split: if_splits)
qed

text \<open>C18. A child of the echo server, from its fork on and for every sequence of events: it watches exactly the
  pipe from its parent, its signal pipe and the connections it has taken and not finished, and it has
  reported to the parent, with its own index, once for each connection it finished.\<close>

theorem echo_children:
  assumes "construct_pool listenfd n junk answers \<lparr>m_epollfd = 0, m_user_count = 0, calls = []\<rparr> = Some p"
    and "run (child_step os echo_init echo_process sig0) (start_child os ep sig0 sig1 raw p) ls (Some s)"
  shows "dom (c_registered s) = {snd (m_p2c_pipefd (own p)), sig0} \<union> foldl opens {} ls \<and>
    reports (calls (pnet (c_pool s))) = replicate (finished ls) (fst (m_c2p_pipefd (own p)), m_idx p)"
proof -
  let ?p = "p\<lparr>pnet := (pnet p)\<lparr>m_epollfd := ep\<rparr>\<rparr>"
  have "echo.child_trace sig0 ?p (start_child os ep sig0 sig1 raw p) ls s"
    using assms(2) by (rule echo.child_runs.run_rel)
  with start_child_inv [OF assms(1), of echo_serves sig0 ep os sig1 raw] have "child_inv echo_serves sig0 ?p (foldl opens {} ls) (finished ls) s"
    unfolding echo.child_trace_def by (rule mp [rotated])
  then show ?thesis by (simp add: child_inv_def)
qed

text \<open>The first child of a pool of two takes a connection, which then ends.\<close>

lemma echo_children_witness:
  "\<exists>p s. construct_pool 3 2 [0, 0] [\<lparr>fa_p2c = (4, 5), fa_c2p = (6, 7), fa_pid = 0\<rparr>] \<lparr>m_epollfd = 0, m_user_count = 0, calls = []\<rparr> = Some p \<and>
     run (child_step sample_os echo_init echo_process 8) (start_child sample_os 12 8 9 sample_echo p) [Taken 14, Finished 14] (Some s) \<and>
     dom (c_registered s) = {5, 8} \<and> reports (calls (pnet (c_pool s))) = [(6, 0)]"
proof -
  obtain p where p: "construct_pool 3 2 [0, 0] [\<lparr>fa_p2c = (4, 5), fa_c2p = (6, 7), fa_pid = 0\<rparr>]
      \<lparr>m_epollfd = 0, m_user_count = 0, calls = []\<rparr> = Some p"
    and own: "own p = \<lparr>m_pid = 0, m_p2c_pipefd = (4, 5), m_c2p_pipefd = (6, 7)\<rparr>" "m_idx p = 0"
    and c: "calls (pnet p) = [Close 4, Close 7]"
    by (simp add: construct_pool_def MAX_PROCESS_NUMBER_def own_def)
  let ?s = "start_child sample_os 12 8 9 sample_echo p"
  let ?step = "child_step sample_os echo_init echo_process 8"
  define e1 :: "recv_answer cevent" where "e1 = \<lparr>ce_fd = 5, ce_flags = EPOLLIN, ce_recv = Recv_bytes [], ce_accept = (14, 0),
    ce_signals = [], ce_input = Recv_eof\<rparr>"
  have inv: "child_inv echo_serves 8 (p\<lparr>pnet := (pnet p)\<lparr>m_epollfd := 12\<rparr>\<rparr>) {} 0 ?s" by (rule start_child_inv [OF p])
  then have d: "dom (c_registered ?s) = {5, 8}" by (simp add: child_inv_def own)
  have own1: "own (c_pool ?s) = own p" "m_epollfd (pnet (c_pool ?s)) = 12" using inv by (simp_all add: child_inv_def)
  obtain s1 where ev1: "child_event sample_os echo_init echo_process 8 e1 ?s = Inr (Taken 14, s1)"
    and u: "e_epollfd (c_users s1 14) = 12" "e_sockfd (c_users s1 14) = 14"
    by (simp add: child_event_def take_connection_def own1 own e1_def EPOLLIN_def c_user_at_def USER_PER_PROCESS_def echo_init_def)
  have "5 \<in> dom (c_registered ?s)" "14 \<notin> dom (c_registered ?s)" using d by simp_all
  then have r1: "?step ?s (Taken 14) (Some s1)" by (intro child_step.event [of _ e1] ev1) (auto simp: e1_def)
  from echo.child_inv_step [OF inv r1] have inv1: "child_inv echo_serves 8 (p\<lparr>pnet := (pnet p)\<lparr>m_epollfd := 12\<rparr>\<rparr>) {14} 0 s1"
    by (simp add: finished_def)
  then have d1: "dom (c_registered s1) = {5, 8, 14}" and own2: "own (c_pool s1) = own p" by (auto simp: child_inv_def own)
  define e2 where "e2 = e1\<lparr>ce_fd := 14, ce_accept := (15, 0)\<rparr>"
  obtain s2 where ev2: "child_event sample_os echo_init echo_process 8 e2 s1 = Inr (Finished 14, s2)"
    by (simp add: child_event_def serve_def own2 own e2_def e1_def EPOLLIN_def c_user_at_def USER_PER_PROCESS_def echo_process_def)
  have "14 \<in> dom (c_registered s1)" "15 \<notin> dom (c_registered s1)" using d1 by simp_all
  then have r2: "?step s1 (Finished 14) (Some s2)" by (intro child_step.event [of _ e2] ev2) (auto simp: e2_def e1_def)
  have r: "run ?step ?s [Taken 14, Finished 14] (Some s2)" using r1 by (rule run_Cons) (rule run_single, rule r2)
  from echo_children [OF p r] p r own show ?thesis by (auto simp: finished_def)
qed

end
