(* ===== verification/Pool_System.thy ===== *)
theory Pool_System
  imports Echo_Conn
begin

unbundle bit_operations_syntax

text \<open>
  The process pool as one system: the parent of Process_Pool and the children of Pool_Child, joined by
  their pipes. The parent's rounds are made explicit: one call of epoll\_wait overwrites the first elements
  of its event array and leaves the rest, and the events of the round are then handled in turn, while the
  children run in between. The class T stays a parameter; the properties are stated for the echo server.
\<close>

section \<open>The model\<close>

definition POOL_MAX_EVENT_NUMBER :: nat where "POOL_MAX_EVENT_NUMBER = 10000"

text \<open>
  The descriptors in the parent's array, the events of the round it has not handled yet, and the index of
  the next one. Of each pipe to a child, the numbers not read yet; of each pipe from a child, whether
  something was written since epoll last reported it (the parent never reads from it, and it is registered
  edge triggered).
\<close>

record 'u pool_system =
  ps_parent :: processpool
  ps_events :: "nat \<Rightarrow> int"
  ps_round :: "(int \<times> flags) list"
  ps_next :: nat
  ps_kids :: "'u child list"
  ps_announced :: "int list list"
  ps_edges :: "bool list"

datatype 'a pool_action = Wait "(int \<times> flags) list" | Handle int "psignal list" | Run_child nat "'a cevent"

datatype pool_label = Waited | Parent plabel | Kid nat clabel

definition p_registered :: "processpool \<Rightarrow> int \<Rightarrow> flags option" where
  "p_registered p = epoll_table (m_epollfd (pnet p)) (calls (pnet p))"

text \<open>The child reads its pipe: epoll reported it as readable.\<close>

definition reads_pipe :: "'a cevent \<Rightarrow> 'u child \<Rightarrow> bool" where
  "reads_pipe e k \<longleftrightarrow> ce_flags e AND EPOLLIN \<noteq> 0 \<and> ce_fd e = snd (m_p2c_pipefd (own (c_pool k)))"

definition gets_bytes :: "'a cevent \<Rightarrow> bool" where
  "gets_bytes e \<longleftrightarrow> (case ce_recv e of Recv_bytes bs \<Rightarrow> True | _ \<Rightarrow> False)"

text \<open>
  What the kernel may answer. epoll\_wait reports registered descriptors, each once, and a pipe from a child
  only when something was written to it; a child that reads its pipe gets a number only when one is there,
  and is not told to wait; accept returns a descriptor that is not in use.
\<close>

fun enabled :: "'a pool_action \<Rightarrow> 'u pool_system \<Rightarrow> bool" where
  "enabled (Wait es) s \<longleftrightarrow> ps_round s = [] \<and> \<not> m_stop (ps_parent s) \<and> distinct (map fst es) \<and>
     length es \<le> POOL_MAX_EVENT_NUMBER \<and> list_all (\<lambda>(fd, fl). p_registered (ps_parent s) fd \<noteq> None) es \<and>
     list_all (\<lambda>(p, edge). edge \<or> snd (m_c2p_pipefd p) \<notin> set (map fst es)) (zip (m_sub_process (ps_parent s)) (ps_edges s))"
| "enabled (Handle connfd sigs) s \<longleftrightarrow> ps_round s \<noteq> []"
| "enabled (Run_child j e) s \<longleftrightarrow> j < length (ps_kids s) \<and>
     (let k = ps_kids s ! j in c_registered k (ce_fd e) \<noteq> None \<and> c_registered k (fst (ce_accept e)) = None \<and>
      (reads_pipe e k \<longrightarrow> ce_recv e \<noteq> Recv_again \<and> (gets_bytes e \<longrightarrow> ps_announced s ! j \<noteq> [])))"

definition epoll_round :: "(int \<times> flags) list \<Rightarrow> 'u pool_system \<Rightarrow> 'u pool_system" where
  "epoll_round es s =
     s\<lparr>ps_events := (\<lambda>i. if i < length es then fst (es ! i) else ps_events s i), ps_round := es, ps_next := 0,
       ps_edges := map (\<lambda>(p, edge). edge \<and> snd (m_c2p_pipefd p) \<notin> set (map fst es))
         (zip (m_sub_process (ps_parent s)) (ps_edges s))\<rparr>"

definition parent_handles :: "os \<Rightarrow> int \<Rightarrow> int \<Rightarrow> psignal list \<Rightarrow> 'u pool_system \<Rightarrow> (pool_label \<times> 'u pool_system) res option" where
  "parent_handles os sig0 connfd sigs s =
     (let p = ps_parent s in
      bind_run (parent_event os sig0 \<lparr>pe_fds = ps_events s, pe_flags = snd (hd (ps_round s)), pe_index = ps_next s,
                  pe_accept = connfd, pe_signals = sigs\<rparr> p) (\<lambda>(l, p').
      Some (Inr (Parent l, s\<lparr>ps_parent := p', ps_round := tl (ps_round s), ps_next := ps_next s + 1,
        ps_announced := map (\<lambda>(q, vs). vs @ sent_to (fst (m_p2c_pipefd q)) (pnet p) (pnet p'))
          (zip (m_sub_process p) (ps_announced s))\<rparr>))))"

definition child_handles :: "os \<Rightarrow> (int \<Rightarrow> int \<Rightarrow> nat \<Rightarrow> 'u \<Rightarrow> world \<Rightarrow> 'u \<times> world)
    \<Rightarrow> ('a \<Rightarrow> 'u \<Rightarrow> world \<Rightarrow> (int \<times> 'u \<times> world) res) \<Rightarrow> int list \<Rightarrow> nat \<Rightarrow> 'a cevent \<Rightarrow> 'u pool_system
    \<Rightarrow> (pool_label \<times> 'u pool_system) res" where
  "child_handles os init_T process_T sigs j e s =
     (let k = ps_kids s ! j; vs = ps_announced s ! j in
      bind_res (child_event os init_T process_T (sigs ! j) e k) (\<lambda>(l, k').
      Inr (Kid j l, s\<lparr>ps_kids := (ps_kids s)[j := k'],
        ps_announced := (ps_announced s)[j := if reads_pipe e k \<and> gets_bytes e then tl vs else vs],
        ps_edges := (ps_edges s)[j := ps_edges s ! j \<or>
          sent_to (fst (m_c2p_pipefd (own (c_pool k)))) (pnet (c_pool k)) (pnet (c_pool k')) \<noteq> []]\<rparr>)))"

fun pool_act :: "os \<Rightarrow> (int \<Rightarrow> int \<Rightarrow> nat \<Rightarrow> 'u \<Rightarrow> world \<Rightarrow> 'u \<times> world)
    \<Rightarrow> ('a \<Rightarrow> 'u \<Rightarrow> world \<Rightarrow> (int \<times> 'u \<times> world) res) \<Rightarrow> int \<Rightarrow> int list \<Rightarrow> 'a pool_action \<Rightarrow> 'u pool_system
    \<Rightarrow> (pool_label \<times> 'u pool_system) res option" where
  "pool_act os init_T process_T sig0 sigs (Wait es) s = Some (Inr (Waited, epoll_round es s))"
| "pool_act os init_T process_T sig0 sigs (Handle connfd ss) s = parent_handles os sig0 connfd ss s"
| "pool_act os init_T process_T sig0 sigs (Run_child j e) s = Some (child_handles os init_T process_T sigs j e s)"

inductive pool_moves :: "os \<Rightarrow> (int \<Rightarrow> int \<Rightarrow> nat \<Rightarrow> 'u \<Rightarrow> world \<Rightarrow> 'u \<times> world)
    \<Rightarrow> ('a \<Rightarrow> 'u \<Rightarrow> world \<Rightarrow> (int \<times> 'u \<times> world) res) \<Rightarrow> int \<Rightarrow> int list
    \<Rightarrow> 'u pool_system \<Rightarrow> pool_label \<Rightarrow> 'u pool_system option \<Rightarrow> bool"
  for os :: os and init_T :: "int \<Rightarrow> int \<Rightarrow> nat \<Rightarrow> 'u \<Rightarrow> world \<Rightarrow> 'u \<times> world"
    and process_T :: "'a \<Rightarrow> 'u \<Rightarrow> world \<Rightarrow> (int \<times> 'u \<times> world) res" and sig0 :: int and sigs :: "int list" where
  act: "enabled a s \<Longrightarrow> pool_act os init_T process_T sig0 sigs a s = Some (Inr (l, s')) \<Longrightarrow>
    pool_moves os init_T process_T sig0 sigs s l (Some s')"
| act_undefined: "enabled a s \<Longrightarrow> pool_act os init_T process_T sig0 sigs a s = Some (Inl u) \<Longrightarrow>
    pool_moves os init_T process_T sig0 sigs s Waited None"
| act_hangs: "enabled a s \<Longrightarrow> pool_act os init_T process_T sig0 sigs a s = None \<Longrightarrow>
    pool_moves os init_T process_T sig0 sigs s Waited None"

inductive_cases pool_movesE: "pool_moves os init_T process_T sig0 sigs s l (Some s')"

subsection \<open>The start\<close>

text \<open>
  The pool as main creates it: answers holds the socket pairs and pids of all rounds of the constructor, and
  child j leaves the loop in round j with the answer 0 of fork. Each process then sets up an epoll
  instance and a signal pipe of its own.
\<close>

definition forked :: "int \<Rightarrow> int \<Rightarrow> int list \<Rightarrow> fork_answer list \<Rightarrow> nat \<Rightarrow> processpool option" where
  "forked listenfd n junk answers j =
     construct_pool listenfd n junk (take j answers @ [(answers ! j)\<lparr>fa_pid := 0\<rparr>]) \<lparr>m_epollfd = 0, m_user_count = 0, calls = []\<rparr>"

definition pool_start :: "os \<Rightarrow> int \<Rightarrow> int \<Rightarrow> int list \<Rightarrow> fork_answer list \<Rightarrow> int \<Rightarrow> int \<Rightarrow> int \<Rightarrow> int list \<Rightarrow> int list \<Rightarrow> int list
    \<Rightarrow> 'u \<Rightarrow> (nat \<Rightarrow> int) \<Rightarrow> 'u pool_system option" where
  "pool_start os listenfd n junk answers ep sig0 sig1 eps sigs0 sigs1 raw array =
     (case (construct_pool listenfd n junk answers \<lparr>m_epollfd = 0, m_user_count = 0, calls = []\<rparr>,
            those (map (forked listenfd n junk answers) [0..<length answers])) of
        (Some p, Some ks) \<Rightarrow>
          Some \<lparr>ps_parent = start_parent os ep sig0 sig1 p, ps_events = array, ps_round = [], ps_next = 0,
            ps_kids = map (\<lambda>j. start_child os (eps ! j) (sigs0 ! j) (sigs1 ! j) raw (ks ! j)) [0..<length answers],
            ps_announced = replicate (length answers) [], ps_edges = replicate (length answers) False\<rparr>
      | _ \<Rightarrow> None)"


section \<open>What the parent sends\<close>

text \<open>The ends of the pipes never change, and the parent writes one number to the child it assigns and nothing else.\<close>

definition pipes :: "processpool \<Rightarrow> ((int \<times> int) \<times> int \<times> int) list" where
  "pipes p = map (\<lambda>q. (m_p2c_pipefd q, m_c2p_pipefd q)) (m_sub_process p)"

lemma reclaim_all_pipes: "map (\<lambda>q. (m_p2c_pipefd q, m_c2p_pipefd q)) (fst (reclaim_all pids ps w)) = map (\<lambda>q. (m_p2c_pipefd q, m_c2p_pipefd q)) ps"
proof (induction pids arbitrary: ps w)
  case (Cons pid pids)
  have "map (\<lambda>q. (m_p2c_pipefd q, m_c2p_pipefd q)) (fst (reclaim pid ps w)) = map (\<lambda>q. (m_p2c_pipefd q, m_c2p_pipefd q)) ps"
    by (simp add: reclaim_procs)
  with Cons.IH show ?case by (simp add: Let_def split_beta)
qed simp

definition quiet :: "syscall list \<Rightarrow> bool" where
  "quiet cs \<longleftrightarrow> reports cs = []"

lemma quiet_simps [simp]: "quiet []" "quiet (cs @ ds) \<longleftrightarrow> quiet cs \<and> quiet ds" "quiet (map Close fds)"
  "quiet (c # cs) \<longleftrightarrow> quiet cs \<and> (\<forall>fd v. c \<noteq> Send_int fd v)"
  by (auto simp: quiet_def reports_def split: syscall.splits)

lemma kill_calls:
  "\<exists>cs. calls (foldl (\<lambda>w p. if m_pid p \<noteq> -1 then emit (Kill (m_pid p) SIGTERM_NUMBER) w else w) w ps) = calls w @ cs \<and> quiet cs"
proof (induction ps arbitrary: w)
  case Nil
  then show ?case by simp
next
  case (Cons p ps)
  show ?case
  proof (cases "m_pid p = -1")
    case True
    with Cons.IH [of w] show ?thesis by simp
  next
    case False
    obtain cs where "calls (foldl (\<lambda>w p. if m_pid p \<noteq> -1 then emit (Kill (m_pid p) SIGTERM_NUMBER) w else w)
        (emit (Kill (m_pid p) SIGTERM_NUMBER) w) ps) = (calls w @ [Kill (m_pid p) SIGTERM_NUMBER]) @ cs" "quiet cs"
      using Cons.IH [of "emit (Kill (m_pid p) SIGTERM_NUMBER) w"] by auto
    with False show ?thesis by (intro exI [of _ "Kill (m_pid p) SIGTERM_NUMBER # cs"]) simp
  qed
qed

lemma signal_quiet:
  assumes "signal sig p = Some p'"
  shows "pipes p' = pipes p \<and> (\<exists>cs. calls (pnet p') = calls (pnet p) @ cs \<and> quiet cs)"
proof (cases sig)
  case (Sigchld answers)
  obtain ps w where pw: "reclaim_all (reported answers) (m_sub_process p) (pnet p) = (ps, w)" by fastforce
  then have "pipes p' = map (\<lambda>q. (m_p2c_pipefd q, m_c2p_pipefd q)) ps \<and> pnet p' = w"
    using assms by (auto simp: Sigchld signal_def wait_loop_reclaim pipes_def split: if_splits)
  with reclaim_all_calls [of "reported answers" "m_sub_process p" "pnet p"]
    reclaim_all_pipes [of "reported answers" "m_sub_process p" "pnet p"] pw
  show ?thesis by (auto simp: pipes_def)
next
  case Sigterm
  then show ?thesis using kill_calls [of "pnet p" "m_sub_process p"] assms by (auto simp: signal_def pipes_def)
next
  case Sigother
  then show ?thesis using assms by (simp add: signal_def)
qed

lemma signals_quiet:
  assumes "signals sigs p = Some p'"
  shows "pipes p' = pipes p \<and> (\<exists>cs. calls (pnet p') = calls (pnet p) @ cs \<and> quiet cs)"
  using assms
proof (induction sigs arbitrary: p)
  case Nil
  then show ?case by simp
next
  case (Cons sig sigs)
  then obtain p1 where p1: "signal sig p = Some p1" "signals sigs p1 = Some p'" by (auto split: option.splits)
  obtain cs ds where "calls (pnet p1) = calls (pnet p) @ cs" "quiet cs" "calls (pnet p') = calls (pnet p1) @ ds" "quiet ds"
    using signal_quiet [OF p1(1)] Cons.IH [OF p1(2)] by blast
  then have "calls (pnet p') = calls (pnet p) @ (cs @ ds) \<and> quiet (cs @ ds)" by simp
  moreover have "pipes p' = pipes p" using signal_quiet [OF p1(1)] Cons.IH [OF p1(2)] by simp
  ultimately show ?case by blast
qed

definition announcement :: "plabel \<Rightarrow> processpool \<Rightarrow> (int \<times> int) list" where
  "announcement l p = (case l of Assigned j \<Rightarrow> [(fst (m_p2c_pipefd (m_sub_process p ! j)), 1)] | _ \<Rightarrow> [])"

lemma parent_event_sends:
  assumes ok: "procs_ok p" and ev: "parent_event os sig0 e p = Some (Inr (l, p'))"
  shows "pipes p' = pipes p \<and> (\<exists>cs. calls (pnet p') = calls (pnet p) @ cs \<and> reports cs = announcement l p)"
proof -
  define sockfd where "sockfd = pe_fds e (pe_index e)"
  consider (conn) "sockfd = m_listenfd p" | (sig) "sockfd \<noteq> m_listenfd p" "sockfd = sig0 \<and> pe_flags e AND EPOLLIN \<noteq> 0"
    | (notified) "sockfd \<noteq> m_listenfd p" "\<not> (sockfd = sig0 \<and> pe_flags e AND EPOLLIN \<noteq> 0)" "pe_flags e AND EPOLLIN \<noteq> 0"
    | (other) "sockfd \<noteq> m_listenfd p" "pe_flags e AND EPOLLIN = 0" by blast
  then show ?thesis
  proof cases
    case conn
    then have nc: "new_connection os (pe_accept e) p = Some (Inr (l, p'))" using ev by (simp add: parent_event_def sockfd_def)
    show ?thesis
    proof (cases "find (free_child p) (turn p)")
      case None
      with new_connection_correct [OF ok, of os "pe_accept e"] nc show ?thesis
        by (auto simp: refuse_def announcement_def pipes_def reports_def split: if_splits)
    next
      case (Some j)
      with new_connection_correct [OF ok, of os "pe_accept e"] nc show ?thesis
        by (auto simp: announcement_def pipes_def p_addfd_def setnonblocking_def Let_def reports_def)
    qed
  next
    case sig
    then have "signals (pe_signals e) p = Some p'" "l = Signalled" using ev by (auto simp: parent_event_def sockfd_def Let_def)
    with signals_quiet [OF this(1)] show ?thesis by (auto simp: announcement_def quiet_def)
  next
    case notified
    then have r: "release (pe_fds e) p = Inr (l, p')" using ev by (auto simp: parent_event_def sockfd_def Let_def)
    have "pipes p' = pipes p \<and> calls (pnet p') = calls (pnet p) \<and> (\<forall>j. l \<noteq> Assigned j)"
      using release_cases [OF ok, of "pe_fds e"]
    proof cases
      case 1
      with r show ?thesis by simp
    next
      case (2 i)
      with r show ?thesis by (auto simp: pipes_def)
    qed
    then show ?thesis by (cases l) (auto simp: announcement_def reports_def)
  next
    case other
    then have "l = Ignored" "p' = p" using ev by (simp_all add: parent_event_def sockfd_def Let_def)
    then show ?thesis by (simp add: announcement_def reports_def)
  qed
qed

lemma sent_to_announcement:
  assumes "calls (pnet p') = calls (pnet p) @ cs" "reports cs = announcement l p"
  shows "sent_to fd (pnet p) (pnet p') = (case l of Assigned j \<Rightarrow> if fst (m_p2c_pipefd (m_sub_process p ! j)) = fd then [1] else [] | _ \<Rightarrow> [])"
  using assms by (cases l) (simp_all add: sent_to_def announcement_def)

section \<open>Counting\<close>

text \<open>A child is assigned at most once more than it is released.\<close>

lemma exclusive_count:
  assumes "exclusive B ls"
  shows "count_list ls (Assigned j) + of_bool (j \<in> B) \<le> count_list ls (Released j) + (of_bool (j \<in> foldl holds B ls) :: nat)"
  using assms
proof (induction ls arbitrary: B)
  case (Cons l ls)
  then have ih: "count_list ls (Assigned j) + of_bool (j \<in> holds B l) \<le> count_list ls (Released j) + (of_bool (j \<in> foldl holds (holds B l) ls) :: nat)"
    and new: "case l of Assigned j \<Rightarrow> j \<notin> B | _ \<Rightarrow> True" by simp_all
  show ?case
  proof (cases l)
    case (Released i)
    with ih show ?thesis by (cases "i = j") (auto simp: of_bool_def split: if_splits)
  qed (use ih new in \<open>auto split: if_splits\<close>)
qed simp

definition takes :: "clabel list \<Rightarrow> nat" where
  "takes ls = length (filter (\<lambda>l. case l of Taken fd \<Rightarrow> True | _ \<Rightarrow> False) ls)"

fun parent_labels :: "pool_label list \<Rightarrow> plabel list" where
  "parent_labels [] = []"
| "parent_labels (Parent l # ls) = l # parent_labels ls"
| "parent_labels (_ # ls) = parent_labels ls"

fun kid_labels :: "nat \<Rightarrow> pool_label list \<Rightarrow> clabel list" where
  "kid_labels j [] = []"
| "kid_labels j (Kid i l # ls) = (if i = j then [l] else []) @ kid_labels j ls"
| "kid_labels j (_ # ls) = kid_labels j ls"

lemma labels_append [simp]:
  "parent_labels (ls @ ms) = parent_labels ls @ parent_labels ms"
  "kid_labels j (ls @ ms) = kid_labels j ls @ kid_labels j ms"
  by (induction ls rule: parent_labels.induct) auto

section \<open>The invariant of the system\<close>

text \<open>Where a child's labels come from.\<close>

lemma child_signals_label: "map_res (Pair Idle) m = Inr (l, k') \<Longrightarrow> l = Idle"
  by (auto simp: map_res_Inr_iff)

lemma child_event_taken:
  assumes "child_event os init_T process_T sig0 e k = Inr (Taken fd, k')"
  shows "reads_pipe e k \<and> fd = fst (ce_accept e) \<and> ce_recv e \<noteq> Recv_error \<and> ce_recv e \<noteq> Recv_eof"
proof -
  have r: "reads_pipe e k" and t: "take_connection os init_T (ce_recv e) (ce_accept e) k = Inr (Taken fd, k')"
    using assms by (auto simp: child_event_def reads_pipe_def serve_def Let_def bind_res_Inr_iff
        split: if_splits prod.splits dest: child_signals_label)
  obtain connfd addr where acc: "ce_accept e = (connfd, addr)" by (cases "ce_accept e")
  obtain u w where i: "init_T (m_epollfd (pnet (c_pool k))) connfd addr (c_users k connfd)
      (p_addfd os (m_epollfd (pnet (c_pool k))) connfd (pnet (c_pool k))) = (u, w)" by fastforce
  show ?thesis using t i r unfolding take_connection_def acc
    by (auto simp: Let_def c_user_at_def acc split: if_splits)
qed

lemma child_event_finished:
  assumes "child_event os init_T process_T sig0 e k = Inr (Finished fd, k')"
  shows "fd = ce_fd e \<and> fd \<noteq> snd (m_p2c_pipefd (own (c_pool k))) \<and> fd \<noteq> sig0"
  using assms
  by (auto simp: child_event_def take_connection_def serve_def Let_def bind_res_Inr_iff
      split: if_splits prod.splits dest: child_signals_label)

lemma takes_snoc: "takes (ls @ [l]) = takes ls + (case l of Taken fd \<Rightarrow> 1 | _ \<Rightarrow> 0)"
  by (simp add: takes_def split: clabel.splits)

lemma finished_snoc: "finished (ls @ [l]) = finished ls + (case l of Finished fd \<Rightarrow> 1 | _ \<Rightarrow> 0)"
  by (simp add: finished_def split: clabel.splits)

context connection_class
begin

definition kid_inv :: "int \<Rightarrow> processpool \<Rightarrow> clabel list \<Rightarrow> 'u child \<Rightarrow> bool" where
  "kid_inv sig0 p ls k \<longleftrightarrow> child_inv serves sig0 p (foldl opens {} ls) (finished ls) k \<and>
     finite (foldl opens {} ls) \<and> card (foldl opens {} ls) + finished ls = takes ls"

lemma kid_inv_step:
  assumes inv: "kid_inv sig0 p ls k" and reg: "c_registered k (ce_fd e) \<noteq> None" and new: "c_registered k (fst (ce_accept e)) = None"
    and ev: "child_event os init_T process_T sig0 e k = Inr (l, k')"
  shows "kid_inv sig0 p (ls @ [l]) k'"
proof -
  let ?F = "foldl opens {} ls"
  have ci: "child_inv serves sig0 p ?F (finished ls) k" and fin: "finite ?F" and cnt: "card ?F + finished ls = takes ls"
    using inv by (simp_all add: kid_inv_def)
  have dom: "dom (c_registered k) = {snd (m_p2c_pipefd (own p)), sig0} \<union> ?F" and own: "own (c_pool k) = own p"
    using ci by (simp_all add: child_inv_def)
  have "child_step os init_T process_T sig0 k l (Some k')" using reg new ev by (rule child_step.event)
  from child_inv_step [OF ci this] have "child_inv serves sig0 p (opens ?F l) (finished (ls @ [l])) k'"
    by (simp add: finished_def)
  moreover have "finite (opens ?F l) \<and> card (opens ?F l) + finished (ls @ [l]) = takes (ls @ [l])"
  proof (cases l)
    case (Taken fd)
    then have "fd \<notin> dom (c_registered k)" using child_event_taken [of os init_T process_T sig0 e k fd k'] ev new by auto
    then have "fd \<notin> ?F" using dom by simp
    then show ?thesis using fin cnt by (simp add: Taken takes_snoc finished_snoc)
  next
    case (Finished fd)
    then have "fd = ce_fd e" "fd \<noteq> snd (m_p2c_pipefd (own p))" "fd \<noteq> sig0"
      using child_event_finished [of os init_T process_T sig0 e k fd k'] ev own by auto
    moreover have "ce_fd e \<in> dom (c_registered k)" using reg by auto
    ultimately have "fd \<in> ?F" using dom by simp
    then have "Suc (card (?F - {fd})) = card ?F" using fin by (rule card_Suc_Diff1 [rotated])
    then show ?thesis using fin cnt by (simp add: Finished takes_snoc finished_snoc)
  qed (use fin cnt in \<open>simp_all add: takes_snoc finished_snoc\<close>)
  ultimately show ?thesis by (simp add: kid_inv_def)
qed

text \<open>The first child whose pipes are those of ps is the parent's partner at the other end.\<close>

definition pool_inv :: "((int \<times> int) \<times> int \<times> int) list \<Rightarrow> int list \<Rightarrow> processpool list \<Rightarrow> pool_label list \<Rightarrow> 'u pool_system \<Rightarrow> bool" where
  "pool_inv qs sigs ps ls s \<longleftrightarrow> procs_ok (ps_parent s) \<and> exclusive {} (parent_labels ls) \<and>
     assigned (foldl holds {} (parent_labels ls)) (ps_parent s) \<and> pipes (ps_parent s) = qs \<and>
     length (ps_kids s) = length qs \<and> length (ps_announced s) = length qs \<and>
     (\<forall>j < length qs. kid_inv (sigs ! j) (ps ! j) (kid_labels j ls) (ps_kids s ! j) \<and>
        length (ps_announced s ! j) + takes (kid_labels j ls) \<le> count_list (parent_labels ls) (Assigned j))"

lemma pool_inv_parent:
  assumes inv: "pool_inv qs sigs ps ls s" and dist: "distinct (map (fst \<circ> fst) qs)"
    and act: "parent_handles os sig0 connfd ss s = Some (Inr (l, s'))"
  shows "pool_inv qs sigs ps (ls @ [l]) s'"
proof -
  let ?p = "ps_parent s"
  define e where "e = \<lparr>pe_fds = ps_events s, pe_flags = snd (hd (ps_round s)), pe_index = ps_next s, pe_accept = connfd, pe_signals = ss\<rparr>"
  obtain pl p' where ev: "parent_event os sig0 e ?p = Some (Inr (pl, p'))" and l: "l = Parent pl"
    and s': "ps_parent s' = p'" "ps_kids s' = ps_kids s"
      "ps_announced s' = map (\<lambda>(q, vs). vs @ sent_to (fst (m_p2c_pipefd q)) (pnet ?p) (pnet p')) (zip (m_sub_process ?p) (ps_announced s))"
    using act by (auto simp: parent_handles_def e_def [symmetric] Let_def bind_run_def split: option.splits sum.splits)
  note inv = inv [unfolded pool_inv_def]
  have ok: "procs_ok ?p" using inv by blast
  have step: "parent_step os sig0 ?p pl (Some p')" using ev by (rule parent_step.event)
  from parent_step_outcome [OF this ok] have ok': "procs_ok p'"
    and ass: "assigned B ?p \<longrightarrow> assigned (holds B pl) p' \<and> (case pl of Assigned j \<Rightarrow> j \<notin> B | _ \<Rightarrow> True)" for B by auto
  obtain cs where q': "pipes p' = pipes ?p" and cs: "calls (pnet p') = calls (pnet ?p) @ cs" "reports cs = announcement pl ?p"
    using parent_event_sends [OF ok ev] by blast
  have len: "length (m_sub_process ?p) = length qs" using inv by (auto simp: pipes_def)
  have small: "i < length qs" if "pl = Assigned i" for i
    using parent_event_Some [OF ok ev] that ok len by (auto simp: procs_ok_def)
  have fst_q: "fst (m_p2c_pipefd (m_sub_process ?p ! i)) = map (fst \<circ> fst) qs ! i" if "i < length qs" for i
    using inv that by (auto simp: pipes_def)
  have "length (ps_announced s' ! j) \<le> length (ps_announced s ! j) + count_list [pl] (Assigned j)" if j: "j < length qs" for j
  proof -
    have "ps_announced s' ! j = ps_announced s ! j @ sent_to (fst (m_p2c_pipefd (m_sub_process ?p ! j))) (pnet ?p) (pnet p')"
      using j len inv by (simp add: s')
    moreover have "i = j" if "pl = Assigned i" "fst (m_p2c_pipefd (m_sub_process ?p ! i)) = fst (m_p2c_pipefd (m_sub_process ?p ! j))" for i
      using that j small [OF that(1)] dist by (simp add: fst_q nth_eq_iff_index_eq del: nth_map)
    ultimately show ?thesis by (auto simp: sent_to_announcement [OF cs] split: plabel.splits)
  qed
  moreover have "length (ps_announced s') = length qs" using len inv by (simp add: s')
  moreover have "kid_inv (sigs ! j) (ps ! j) (kid_labels j ls) (ps_kids s' ! j)"
    and "length (ps_announced s ! j) + takes (kid_labels j ls) \<le> count_list (parent_labels ls) (Assigned j)" if "j < length qs" for j
    using inv that by (simp_all add: s')
  ultimately have "\<forall>j < length qs. kid_inv (sigs ! j) (ps ! j) (kid_labels j (ls @ [l])) (ps_kids s' ! j) \<and>
      length (ps_announced s' ! j) + takes (kid_labels j (ls @ [l])) \<le> count_list (parent_labels (ls @ [l])) (Assigned j)"
    by (fastforce simp: l)
  moreover have "exclusive {} (parent_labels ls @ [pl])" "assigned (foldl holds {} (parent_labels ls @ [pl])) p'"
    using inv ass [of "foldl holds {} (parent_labels ls)"] by (simp_all add: exclusive_snoc)
  ultimately show ?thesis using inv ok' q' len \<open>length (ps_announced s') = length qs\<close> unfolding pool_inv_def by (simp add: s'(1,2) l)
qed

lemma pool_inv_child:
  assumes inv: "pool_inv qs sigs ps ls s" and en: "enabled (Run_child j e) s"
    and act: "child_handles os init_T process_T sigs j e s = Inr (l, s')"
  shows "pool_inv qs sigs ps (ls @ [l]) s'"
proof -
  define k vs where "k = ps_kids s ! j" and "vs = ps_announced s ! j"
  note inv = inv [unfolded pool_inv_def]
  have j: "j < length qs" "j < length (ps_kids s)" "j < length (ps_announced s)"
    and reg: "c_registered k (ce_fd e) \<noteq> None" and new: "c_registered k (fst (ce_accept e)) = None"
    and gets: "reads_pipe e k \<longrightarrow> ce_recv e \<noteq> Recv_again \<and> (gets_bytes e \<longrightarrow> vs \<noteq> [])"
    using en inv by (auto simp: k_def vs_def Let_def)
  obtain cl k' where ev: "child_event os init_T process_T (sigs ! j) e k = Inr (cl, k')" and l: "l = Kid j cl"
    and s': "ps_parent s' = ps_parent s" "ps_kids s' = (ps_kids s)[j := k']"
      "ps_announced s' = (ps_announced s)[j := if reads_pipe e k \<and> gets_bytes e then tl vs else vs]"
    using act by (auto simp: child_handles_def k_def [symmetric] vs_def [symmetric] Let_def bind_res_Inr_iff)
  have kj: "kid_inv (sigs ! j) (ps ! j) (kid_labels j ls) k"
    and cj: "length vs + takes (kid_labels j ls) \<le> count_list (parent_labels ls) (Assigned j)"
    using inv j(1) by (simp_all add: k_def vs_def)
  have "kid_inv (sigs ! j) (ps ! j) (kid_labels j (ls @ [l])) k'"
    using kid_inv_step [OF kj reg new ev] by (simp add: l)
  moreover have "length (ps_announced s' ! j) + takes (kid_labels j (ls @ [l])) \<le> count_list (parent_labels ls) (Assigned j)"
  proof (cases "\<exists>fd. cl = Taken fd")
    case True
    then obtain fd where "cl = Taken fd" by blast
    with child_event_taken [of os init_T process_T "sigs ! j" e k fd k'] ev gets
    have "reads_pipe e k" "gets_bytes e" "vs \<noteq> []" by (auto simp: gets_bytes_def split: recv_answer.splits)
    then show ?thesis using cj j \<open>cl = Taken fd\<close> by (cases vs) (simp_all add: s' l takes_snoc)
  next
    case False
    then have "takes (kid_labels j ls @ [cl]) = takes (kid_labels j ls)" by (auto simp: takes_snoc split: clabel.splits)
    then show ?thesis using cj j by (auto simp: s' l)
  qed
  ultimately have "kid_inv (sigs ! i) (ps ! i) (kid_labels i (ls @ [l])) (ps_kids s' ! i) \<and>
      length (ps_announced s' ! i) + takes (kid_labels i (ls @ [l])) \<le> count_list (parent_labels (ls @ [l])) (Assigned i)"
    if "i < length qs" for i
    using inv that j by (cases "i = j") (simp_all add: s' l)
  then show ?thesis using inv unfolding pool_inv_def by (simp add: s' l)
qed

lemma pool_inv_step:
  assumes inv: "pool_inv qs sigs ps ls s" and dist: "distinct (map (fst \<circ> fst) qs)"
    and st: "pool_moves os init_T process_T sig0 sigs s l (Some s')"
  shows "pool_inv qs sigs ps (ls @ [l]) s'"
proof -
  obtain a where en: "enabled a s" and act: "pool_act os init_T process_T sig0 sigs a s = Some (Inr (l, s'))"
    using st by (rule pool_movesE) blast
  show ?thesis
  proof (cases a)
    case (Wait es)
    with act have "l = Waited" "ps_parent s' = ps_parent s" "ps_kids s' = ps_kids s" "ps_announced s' = ps_announced s"
      by (auto simp: epoll_round_def)
    with inv show ?thesis by (simp add: pool_inv_def)
  next
    case (Handle connfd ss)
    with act pool_inv_parent [OF inv dist] show ?thesis by simp
  next
    case (Run_child j e)
    with act en pool_inv_child [OF inv] show ?thesis by simp
  qed
qed

definition pool_trace :: "((int \<times> int) \<times> int \<times> int) list \<Rightarrow> int list \<Rightarrow> processpool list
    \<Rightarrow> 'u pool_system \<Rightarrow> pool_label list \<Rightarrow> 'u pool_system \<Rightarrow> bool" where
  "pool_trace qs sigs ps s ls s' \<longleftrightarrow>
     (pool_inv qs sigs ps [] s \<and> distinct (map (fst \<circ> fst) qs) \<longrightarrow> pool_inv qs sigs ps ls s')"

sublocale pool_runs: traced_system "pool_moves os init_T process_T sig0 sigs" "pool_trace qs sigs ps"
  for os sig0 sigs qs ps
proof unfold_locales
  show "pool_trace qs sigs ps s [] s" for s by (simp add: pool_trace_def)
next
  fix s ls s1 l s2
  assume "pool_trace qs sigs ps s ls s1" and "pool_moves os init_T process_T sig0 sigs s1 l (Some s2)"
  then show "pool_trace qs sigs ps s (ls @ [l]) s2" unfolding pool_trace_def using pool_inv_step by blast
qed

text \<open>The connections child j watches, and what the invariant says of their number.\<close>

lemma pool_inv_count:
  assumes "pool_inv qs sigs ps ls s" and "j < length qs"
  shows "card (dom (c_registered (ps_kids s ! j)) - {snd (m_p2c_pipefd (own (c_pool (ps_kids s ! j)))), sigs ! j}) +
      finished (kid_labels j ls) + length (ps_announced s ! j) \<le> count_list (parent_labels ls) (Released j) + 1"
proof -
  let ?F = "foldl opens {} (kid_labels j ls)"
  have inv: "kid_inv (sigs ! j) (ps ! j) (kid_labels j ls) (ps_kids s ! j)"
    and cnt: "length (ps_announced s ! j) + takes (kid_labels j ls) \<le> count_list (parent_labels ls) (Assigned j)"
    and ex: "exclusive {} (parent_labels ls)"
    using assms by (simp_all add: pool_inv_def)
  have d: "dom (c_registered (ps_kids s ! j)) - {snd (m_p2c_pipefd (own (c_pool (ps_kids s ! j)))), sigs ! j} = ?F"
    using inv by (auto simp: kid_inv_def child_inv_def)
  have "card ?F + finished (kid_labels j ls) = takes (kid_labels j ls)" using inv by (simp add: kid_inv_def)
  moreover have "count_list (parent_labels ls) (Assigned j) \<le> count_list (parent_labels ls) (Released j) + 1"
    using exclusive_count [OF ex, of j] by (auto simp: of_bool_def split: if_splits)
  ultimately show ?thesis unfolding d using cnt by linarith
qed

end

section \<open>The start of the system\<close>

lemma fork_loop_pipes:
  assumes "\<forall>a \<in> set answers. fa_pid a > 0" and "i + length answers \<le> length (m_sub_process s)"
    and "fork_loop (int i) answers s = Some s'"
  shows "pipes s' = take i (pipes s) @ map (\<lambda>a. (fa_p2c a, fa_c2p a)) answers @ drop (i + length answers) (pipes s)"
  using assms
proof (induction answers arbitrary: i s)
  case (Cons a answers)
  define s1 where "s1 = s\<lparr>m_sub_process := (m_sub_process s)[i := \<lparr>m_pid = fa_pid a, m_p2c_pipefd = fa_p2c a, m_c2p_pipefd = fa_c2p a\<rparr>],
    pnet := emit (Close (fst (fa_c2p a))) (emit (Close (snd (fa_p2c a))) (pnet s))\<rparr>"
  have p1: "pipes s1 = (pipes s)[i := (fa_p2c a, fa_c2p a)]" by (simp add: pipes_def s1_def map_update)
  have i: "i < length (pipes s)" using Cons.prems(2) by (simp add: pipes_def)
  have "fork_loop (int (Suc i)) answers s1 = Some s'" using Cons.prems(1,3) by (simp add: Let_def s1_def add.commute)
  with Cons.IH [of "Suc i" s1] Cons.prems(1,2)
  have "pipes s' = take (Suc i) (pipes s1) @ map (\<lambda>a. (fa_p2c a, fa_c2p a)) answers @ drop (Suc i + length answers) (pipes s1)"
    by (simp add: s1_def)
  then show ?case unfolding p1 using i by (simp add: take_Suc_conv_app_nth)
qed (simp add: append_take_drop_id)

lemma those_Some: "those xs = Some ys \<Longrightarrow> map Some ys = xs"
  by (induction xs arbitrary: ys) (auto split: option.splits)

lemma pool_start_inv:
  assumes start: "pool_start os listenfd n junk answers ep sig0 sig1 eps sigs0 sigs1 raw array = Some s"
    and n: "int (length answers) = n" "int (length junk) = n" and pids: "\<forall>a \<in> set answers. fa_pid a > 0"
  shows "\<exists>ps. echo.pool_inv (map (\<lambda>a. (fa_p2c a, fa_c2p a)) answers) sigs0 ps [] s"
proof -
  obtain p ks where p: "construct_pool listenfd n junk answers \<lparr>m_epollfd = 0, m_user_count = 0, calls = []\<rparr> = Some p"
    and ks: "those (map (forked listenfd n junk answers) [0..<length answers]) = Some ks"
    and s: "ps_parent s = start_parent os ep sig0 sig1 p"
      "ps_kids s = map (\<lambda>j. start_child os (eps ! j) (sigs0 ! j) (sigs1 ! j) raw (ks ! j)) [0..<length answers]"
      "ps_announced s = replicate (length answers) []"
    using start by (auto simp: pool_start_def split: option.splits)
  define qs where "qs = map (\<lambda>a. (fa_p2c a, fa_c2p a)) answers"
  have b: "0 < n" "n \<le> MAX_PROCESS_NUMBER" using p by (auto simp: construct_pool_def split: if_splits)
  have ok: "procs_ok (ps_parent s)"
    using parent_starts [OF b n(2) pids, of listenfd "\<lparr>m_epollfd = 0, m_user_count = 0, calls = []\<rparr>" os ep sig0 sig1] p s by auto
  let ?s0 = "\<lparr>m_process_number = n, m_idx = -1, m_listenfd = listenfd, m_stop = False, m_used_process = junk,
         m_sub_process = replicate (nat n) \<lparr>m_pid = -1, m_p2c_pipefd = (0, 0), m_c2p_pipefd = (0, 0)\<rparr>,
         sub_process_count = 0, pnet = \<lparr>m_epollfd = 0, m_user_count = 0, calls = []\<rparr>\<rparr>"
  have "fork_loop (int 0) answers ?s0 = Some p" using p b by (simp add: construct_pool_def)
  from fork_loop_pipes [OF pids _ this] n have "pipes p = qs" by (simp add: qs_def pipes_def)
  then have q: "pipes (ps_parent s) = qs" by (simp add: s start_parent_def setup_sig_pipe_def Let_def pipes_def)
  define ps where "ps = map (\<lambda>j. (ks ! j)\<lparr>pnet := (pnet (ks ! j))\<lparr>m_epollfd := eps ! j\<rparr>\<rparr>) [0..<length answers]"
  have "echo.kid_inv (sigs0 ! j) (ps ! j) [] (ps_kids s ! j)" if j: "j < length answers" for j
  proof -
    have all: "map Some ks = map (forked listenfd n junk answers) [0..<length answers]" using ks by (rule those_Some)
    then have len: "length ks = length answers" by (metis diff_zero length_map length_upt)
    have "Some (ks ! j) = forked listenfd n junk answers j" using all j len by (metis add_0 length_map map_nth nth_map nth_upt)
    from start_child_inv [OF this [unfolded forked_def, symmetric], of echo_serves "sigs0 ! j" "eps ! j" os "sigs1 ! j" raw]
    show ?thesis using j unfolding echo.kid_inv_def by (simp add: s ps_def finished_def takes_def)
  qed
  then have "echo.pool_inv qs sigs0 ps [] s"
    using ok q n unfolding echo.pool_inv_def by (simp add: s qs_def takes_def assigned_def)
  then show ?thesis unfolding qs_def by blast
qed


section \<open>Properties\<close>

text \<open>
  The connections of child j: what its epoll instance watches besides its two pipes.
\<close>

definition connections :: "int list \<Rightarrow> nat \<Rightarrow> 'u pool_system \<Rightarrow> int set" where
  "connections sigs j s = (let k = ps_kids s ! j in dom (c_registered k) - {snd (m_p2c_pipefd (own (c_pool k))), sigs ! j})"

text \<open>C15. The echo server as a whole, its parent and all its children, from the constructor on and in every
  interleaving: the connections a child has open, those it has finished and those announced to it and not yet
  taken are together at most one more than the times it was released. So a child that is released only
  after it has finished its connection never has a second one, open or announced, and no announcement is
  lost by reading one number for each report of epoll.\<close>

theorem child_connections_bounded:
  assumes "pool_start os listenfd n junk answers ep sig0 sig1 eps sigs0 sigs1 raw array = Some s0"
    and "int (length answers) = n" "int (length junk) = n" "\<forall>a \<in> set answers. fa_pid a > 0"
    and "distinct (map (fst \<circ> fa_p2c) answers)"
    and "run (pool_moves os echo_init echo_process sig0 sigs0) s0 ls (Some s)" and "j < length answers"
  shows "card (connections sigs0 j s) + finished (kid_labels j ls) + length (ps_announced s ! j)
    \<le> count_list (parent_labels ls) (Released j) + 1"
proof -
  obtain ps where inv: "echo.pool_inv (map (\<lambda>a. (fa_p2c a, fa_c2p a)) answers) sigs0 ps [] s0"
    using pool_start_inv [OF assms(1-4)] by blast
  have "map (fst \<circ> fst) (map (\<lambda>a. (fa_p2c a, fa_c2p a)) answers) = map (fst \<circ> fa_p2c) answers" by simp
  with echo.pool_runs.run_rel [OF assms(6)] inv assms(5)
  have "echo.pool_inv (map (\<lambda>a. (fa_p2c a, fa_c2p a)) answers) sigs0 ps ls s" unfolding echo.pool_trace_def by metis
  from echo.pool_inv_count [OF this] assms(7) show ?thesis by (simp add: connections_def Let_def)
qed

text \<open>A sequence of actions, executed.\<close>

fun pool_exec :: "os \<Rightarrow> int \<Rightarrow> int list \<Rightarrow> recv_answer pool_action list \<Rightarrow> echo_conn pool_system
    \<Rightarrow> (pool_label list \<times> echo_conn pool_system) option" where
  "pool_exec os sig0 sigs [] s = Some ([], s)"
| "pool_exec os sig0 sigs (a # as) s =
     (if enabled a s then
        (case pool_act os echo_init echo_process sig0 sigs a s of
           Some (Inr (l, s1)) \<Rightarrow> map_option (\<lambda>(ls, s2). (l # ls, s2)) (pool_exec os sig0 sigs as s1)
         | _ \<Rightarrow> None)
      else None)"

lemma pool_exec_run:
  "pool_exec os sig0 sigs as s = Some (ls, s') \<Longrightarrow> run (pool_moves os echo_init echo_process sig0 sigs) s ls (Some s')"
proof (induction as arbitrary: s ls)
  case (Cons a as)
  then obtain l s1 ls1 where en: "enabled a s" and act: "pool_act os echo_init echo_process sig0 sigs a s = Some (Inr (l, s1))"
    and rest: "pool_exec os sig0 sigs as s1 = Some (ls1, s')" and ls: "ls = l # ls1"
    by (auto split: if_splits option.splits sum.splits)
  show ?case unfolding ls by (rule run_Cons [OF pool_moves.act [OF en act] Cons.IH [OF rest]])
qed simp


text \<open>
  A pool of two children that listens on descriptor 3: both take a connection and finish it; the parent's next
  round has the report of child 0, a new connection and the report of child 1, in this order.
\<close>

definition two_forks :: "fork_answer list" where
  "two_forks = [\<lparr>fa_p2c = (4, 5), fa_c2p = (6, 7), fa_pid = 101\<rparr>, \<lparr>fa_p2c = (8, 5), fa_c2p = (6, 9), fa_pid = 102\<rparr>]"

definition two_kids :: "echo_conn pool_system option" where
  "two_kids = pool_start sample_os 3 2 [0, 0] two_forks 12 13 14 [15, 15] [16, 16] [17, 17] sample_echo (\<lambda>_. 0)"

definition kid_event :: "int \<Rightarrow> int \<Rightarrow> recv_answer cevent" where
  "kid_event fd connfd = \<lparr>ce_fd = fd, ce_flags = EPOLLIN, ce_recv = Recv_bytes [NUL, NUL, NUL, NUL], ce_accept = (connfd, 0),
     ce_signals = [], ce_input = Recv_eof\<rparr>"

definition both_served :: "recv_answer pool_action list" where
  "both_served = [Wait [(3, EPOLLIN)], Handle 30 [], Run_child 0 (kid_event 5 20), Wait [(3, EPOLLIN)], Handle 30 [],
     Run_child 1 (kid_event 5 20), Run_child 0 (kid_event 20 21), Run_child 1 (kid_event 20 21)]"

definition mixed_round :: "recv_answer pool_action list" where
  "mixed_round = [Wait [(7, EPOLLIN), (3, EPOLLIN), (9, EPOLLIN)], Handle 30 [], Handle 30 [], Handle 30 [],
     Run_child 0 (kid_event 5 20), Wait [(3, EPOLLIN)], Handle 30 [], Run_child 0 (kid_event 5 21)]"

lemma two_kids_run:
  "case two_kids of None \<Rightarrow> False | Some s0 \<Rightarrow>
     (case pool_exec sample_os 13 [16, 16] (both_served @ mixed_round) s0 of None \<Rightarrow> False | Some (ls, s) \<Rightarrow>
        ls = [Waited, Parent (Assigned 0), Kid 0 (Taken 20), Waited, Parent (Assigned 1), Kid 1 (Taken 20),
              Kid 0 (Finished 20), Kid 1 (Finished 20), Waited, Parent (Released 0), Parent (Assigned 0), Parent (Released 0),
              Kid 0 (Taken 20), Waited, Parent (Assigned 0), Kid 0 (Taken 21)] \<and>
        own (c_pool (ps_kids s ! 0)) = \<lparr>m_pid = 0, m_p2c_pipefd = (4, 5), m_c2p_pipefd = (6, 7)\<rparr> \<and>
        c_registered (ps_kids s ! 0) 20 \<noteq> None \<and> c_registered (ps_kids s ! 0) 21 \<noteq> None \<and> m_used_process (ps_parent s) = [1, 1])"
  by code_simp


lemma two_kids_trace:
  obtains s0 s ls where "two_kids = Some s0" and "run (pool_moves sample_os echo_init echo_process 13 [16, 16]) s0 ls (Some s)"
    and "count_list (parent_labels ls) (Released 1) = 0" and "kid_labels 1 ls = [Taken 20, Finished 20]"
    and "own (c_pool (ps_kids s ! 0)) = \<lparr>m_pid = 0, m_p2c_pipefd = (4, 5), m_c2p_pipefd = (6, 7)\<rparr>"
    and "c_registered (ps_kids s ! 0) 20 \<noteq> None" "c_registered (ps_kids s ! 0) 21 \<noteq> None" "m_used_process (ps_parent s) = [1, 1]"
proof -
  obtain s0 where s0: "two_kids = Some s0" using two_kids_run by (cases two_kids) simp_all
  obtain ls s where ex: "pool_exec sample_os 13 [16, 16] (both_served @ mixed_round) s0 = Some (ls, s)"
    using two_kids_run unfolding s0 option.case
    by (cases "pool_exec sample_os 13 [16, 16] (both_served @ mixed_round) s0") (simp only: option.case, fastforce)
  note facts = two_kids_run [unfolded s0 option.case ex prod.case]
  have "count_list (parent_labels ls) (Released 1) = 0" "kid_labels 1 ls = [Taken 20, Finished 20]" using facts by simp_all
  with that [OF s0 pool_exec_run [OF ex]] facts show thesis by blast
qed

lemma child_connections_bounded_witness:
  "\<exists>s0 s ls. two_kids = Some s0 \<and> run (pool_moves sample_os echo_init echo_process 13 [16, 16]) s0 ls (Some s) \<and>
     kid_labels 1 ls = [Taken 20, Finished 20] \<and> card (connections [16, 16] 1 s) = 0"
proof (rule two_kids_trace)
  fix s0 s ls
  assume s0: "two_kids = Some s0" and r: "run (pool_moves sample_os echo_init echo_process 13 [16, 16]) s0 ls (Some s)"
    and ls: "count_list (parent_labels ls) (Released 1) = 0" "kid_labels 1 ls = [Taken 20, Finished 20]"
  have "card (connections [16, 16] 1 s) = 0"
    using child_connections_bounded [OF s0 [unfolded two_kids_def] _ _ _ _ r, of 1] ls
    by (simp add: two_forks_def finished_def)
  with s0 r ls show ?thesis by blast
qed

text \<open>
  One report can so give a child a second connection while another is idle: in the run of both rounds the next
  connection goes to child 0 again, which then serves two, child 1 none, and no child can be chosen any more.
\<close>

lemma report_frees_busy_child:
  "\<exists>s0 s ls. two_kids = Some s0 \<and> run (pool_moves sample_os echo_init echo_process 13 [16, 16]) s0 ls (Some s) \<and>
     {20, 21} \<subseteq> connections [16, 16] 0 s \<and> kid_labels 1 ls = [Taken 20, Finished 20] \<and>
     \<not> free_child (ps_parent s) 0 \<and> \<not> free_child (ps_parent s) 1"
proof (rule two_kids_trace)
  fix s0 s ls
  assume s0: "two_kids = Some s0" and r: "run (pool_moves sample_os echo_init echo_process 13 [16, 16]) s0 ls (Some s)"
    and ls: "kid_labels 1 ls = [Taken 20, Finished 20]"
    and s: "own (c_pool (ps_kids s ! 0)) = \<lparr>m_pid = 0, m_p2c_pipefd = (4, 5), m_c2p_pipefd = (6, 7)\<rparr>"
      "c_registered (ps_kids s ! 0) 20 \<noteq> None" "c_registered (ps_kids s ! 0) 21 \<noteq> None" "m_used_process (ps_parent s) = [1, 1]"
  have "{20, 21} \<subseteq> connections [16, 16] 0 s" using s by (auto simp: connections_def Let_def)
  moreover have "\<not> free_child (ps_parent s) 0" "\<not> free_child (ps_parent s) 1" using s(4) by (simp_all add: free_child_def)
  ultimately show ?thesis using s0 r ls by blast
qed

text \<open>One event of a round, handled by the parent.\<close>

lemma parent_handles_step:
  assumes "ps_round s = (fd, fl) # es"
    and "parent_event os sig0 \<lparr>pe_fds = ps_events s, pe_flags = fl, pe_index = ps_next s, pe_accept = connfd, pe_signals = []\<rparr>
      (ps_parent s) = Some (Inr (l, p'))"
  shows "pool_moves os init_T process_T sig0 sigs s (Parent l) (Some (s\<lparr>ps_parent := p', ps_round := es, ps_next := ps_next s + 1,
    ps_announced := map (\<lambda>(q, vs). vs @ sent_to (fst (m_p2c_pipefd q)) (pnet (ps_parent s)) (pnet p'))
      (zip (m_sub_process (ps_parent s)) (ps_announced s))\<rparr>))"
  using assms by (intro pool_moves.act [of "Handle connfd []"]) (simp_all add: parent_handles_def Let_def)

lemma notified_releases:
  assumes "procs_ok p" and "pe_fds e (pe_index e) \<noteq> m_listenfd p" "pe_fds e (pe_index e) \<noteq> sig0" "pe_flags e AND EPOLLIN \<noteq> 0"
    and "find (\<lambda>i. pe_fds e i = snd (m_c2p_pipefd (m_sub_process p ! i))) [0..<length (m_sub_process p)] = Some i"
  shows "parent_event os sig0 e p = Some (Inr (Released i, p\<lparr>m_used_process := (m_used_process p)[i := 0]\<rparr>))"
proof -
  have "i < length (m_used_process p)" using assms(1,5) by (auto simp: find_Some_iff procs_ok_def)
  then show ?thesis using assms by (simp add: parent_event_def Let_def release_def release_loop_find)
qed

text \<open>C16. A report is matched with the event array and not with its own event, so one report can release a child
  twice. Let a round of the parent have two events with EPOLLIN on pipes (of whichever children), a new connection
  between them, and let child i be the first whose pipe is element i of the event array: the first event releases
  child i, the second gives it the connection when it is first in turn, and the third releases it
  again. Child i then counts as free while the number that announces the connection is still in its pipe.\<close>

theorem report_releases_twice:
  fixes s :: "'u pool_system" and i :: nat
  defines "p \<equiv> ps_parent s" and "p1 \<equiv> (ps_parent s)\<lparr>m_used_process := (m_used_process (ps_parent s))[i := 0]\<rparr>"
  assumes "procs_ok p" and "length (ps_announced s) = length (m_sub_process p)"
    and "ps_round s = (fd1, fl1) # (m_listenfd p, fl2) # (fd3, fl3) # es"
    and "ps_events s (ps_next s) = fd1" "ps_events s (ps_next s + 1) = m_listenfd p" "ps_events s (ps_next s + 2) = fd3"
    and "fd1 \<noteq> m_listenfd p" "fd1 \<noteq> sig0" "fl1 AND EPOLLIN \<noteq> 0" "fd3 \<noteq> m_listenfd p" "fd3 \<noteq> sig0" "fl3 AND EPOLLIN \<noteq> 0"
    and "find (\<lambda>i. ps_events s i = snd (m_c2p_pipefd (m_sub_process p ! i))) [0..<length (m_sub_process p)] = Some i"
    and "find (free_child p1) (turn p1) = Some i"
  shows "\<exists>s3. run (pool_moves os init_T process_T sig0 sigs) s [Parent (Released i), Parent (Assigned i), Parent (Released i)] (Some s3) \<and>
    free_child (ps_parent s3) i \<and> ps_announced s3 ! i = ps_announced s ! i @ [1] \<and> ps_kids s3 = ps_kids s"
proof -
  have i: "i < length (m_sub_process p)" using assms(15) by (auto simp: find_Some_iff)
  have ok1: "procs_ok p1" using assms(3) by (simp add: procs_ok_def p1_def p_def)
  let ?w = "emit (Send_int (fst (m_p2c_pipefd (m_sub_process p ! i))) 1) (pnet p)"
  define p2 where "p2 = p1\<lparr>sub_process_count := (int i + 1) mod m_process_number p1, m_used_process := (m_used_process p1)[i := 1],
    pnet := p_addfd os (m_epollfd (pnet p1)) (snd (m_c2p_pipefd (m_sub_process p1 ! i))) ?w\<rparr>"
  define p3 where "p3 = p2\<lparr>m_used_process := (m_used_process p2)[i := 0]\<rparr>"
  have ok2: "procs_ok p2" using ok1 by (simp add: procs_ok_def p2_def)
  have same: "m_sub_process p1 = m_sub_process p" "m_listenfd p1 = m_listenfd p" "m_sub_process p2 = m_sub_process p"
    "m_listenfd p2 = m_listenfd p" "pnet p1 = pnet p" by (simp_all add: p2_def p1_def p_def)
  let ?e = "\<lambda>fl k. \<lparr>pe_fds = ps_events s, pe_flags = fl, pe_index = k, pe_accept = 0, pe_signals = []\<rparr>"
  have ev1: "parent_event os sig0 (?e fl1 (ps_next s)) p = Some (Inr (Released i, p1))"
    using notified_releases [OF assms(3), of "?e fl1 (ps_next s)" sig0 i os] assms(6-15) by (simp add: p1_def p_def)
  have ev2: "parent_event os sig0 (?e fl2 (ps_next s + 1)) p1 = Some (Inr (Assigned i, p2))"
    using new_connection_correct [OF ok1, of os 0] assms(7,16) by (simp add: parent_event_def same p2_def)
  have ev3: "parent_event os sig0 (?e fl3 (ps_next s + 2)) p2 = Some (Inr (Released i, p3))"
    using notified_releases [OF ok2, of "?e fl3 (ps_next s + 2)" sig0 i os] assms(6-15) by (simp add: p3_def same)
  let ?ann = "\<lambda>vss w w'. map (\<lambda>(q, vs). vs @ sent_to (fst (m_p2c_pipefd q)) w w') (zip (m_sub_process p) vss)"
  define a1 a2 a3 where "a1 = ?ann (ps_announced s) (pnet p) (pnet p1)" and "a2 = ?ann a1 (pnet p1) (pnet p2)"
    and "a3 = ?ann a2 (pnet p2) (pnet p3)"
  let ?s1 = "s\<lparr>ps_parent := p1, ps_round := (m_listenfd p, fl2) # (fd3, fl3) # es, ps_next := ps_next s + 1, ps_announced := a1\<rparr>"
  let ?s2 = "?s1\<lparr>ps_parent := p2, ps_round := (fd3, fl3) # es, ps_next := ps_next s + 2, ps_announced := a2\<rparr>"
  let ?s3 = "?s2\<lparr>ps_parent := p3, ps_round := es, ps_next := Suc (Suc (Suc (ps_next s))), ps_announced := a3\<rparr>"
  have "pool_moves os init_T process_T sig0 sigs s (Parent (Released i)) (Some ?s1)"
    using parent_handles_step [OF assms(5), of os sig0 0 "Released i" p1] ev1 by (simp add: a1_def p_def)
  moreover have "pool_moves os init_T process_T sig0 sigs ?s1 (Parent (Assigned i)) (Some ?s2)"
    using parent_handles_step [of ?s1 "m_listenfd p" fl2 "(fd3, fl3) # es" os sig0 0 "Assigned i" p2] ev2 by (simp add: a2_def same)
  moreover have "pool_moves os init_T process_T sig0 sigs ?s2 (Parent (Released i)) (Some ?s3)"
    using parent_handles_step [of ?s2 fd3 fl3 es os sig0 0 "Released i" p3] ev3 by (simp add: a3_def same)
  ultimately have "run (pool_moves os init_T process_T sig0 sigs) s [Parent (Released i), Parent (Assigned i), Parent (Released i)] (Some ?s3)"
    by (meson run_Cons run_single)
  moreover have "free_child p3 i"
    using assms(16) i ok1 by (auto simp: find_Some_iff free_child_def p3_def same procs_ok_def p2_def)
  moreover have "a3 ! i = ps_announced s ! i @ [1]"
  proof -
    have "sent_to fd (pnet p2) (pnet p3) = []" "sent_to fd (pnet p) (pnet p1) = []" for fd
      by (simp_all add: sent_to_def p3_def same reports_def)
    moreover have "sent_to (fst (m_p2c_pipefd (m_sub_process p ! i))) (pnet p1) (pnet p2) = [1]"
      by (simp add: sent_to_def p2_def same p_addfd_def setnonblocking_def reports_def Let_def)
    ultimately show ?thesis using i assms(4) by (simp add: a1_def a2_def a3_def)
  qed
  ultimately show ?thesis by (intro exI [of _ ?s3]) simp
qed

text \<open>The round of the pool of two children: the reports of child 0 and child 1 release child 0 twice, and child 1 not at all.\<close>

lemma two_kids_round:
  "case two_kids of None \<Rightarrow> False | Some s0 \<Rightarrow>
     (case pool_exec sample_os 13 [16, 16] (both_served @ [Wait [(7, EPOLLIN), (3, EPOLLIN), (9, EPOLLIN)]]) s0 of None \<Rightarrow> False | Some (ls, s) \<Rightarrow>
        (let p = ps_parent s; p1 = p\<lparr>m_used_process := (m_used_process p)[0 := 0]\<rparr> in
         procs_ok p \<and> length (ps_announced s) = length (m_sub_process p) \<and> m_listenfd p = 3 \<and>
         ps_round s = [(7, EPOLLIN), (3, EPOLLIN), (9, EPOLLIN)] \<and> ps_next s = 0 \<and>
         ps_events s 0 = 7 \<and> ps_events s 1 = 3 \<and> ps_events s 2 = 9 \<and>
         find (\<lambda>i. ps_events s i = snd (m_c2p_pipefd (m_sub_process p ! i))) [0..<length (m_sub_process p)] = Some 0 \<and>
         find (free_child p1) (turn p1) = Some 0))"
  by code_simp

lemma report_releases_twice_witness:
  "\<exists>s0 s ls s3. two_kids = Some s0 \<and> run (pool_moves sample_os echo_init echo_process 13 [16, 16]) s0 ls (Some s) \<and>
     run (pool_moves sample_os echo_init echo_process 13 [16, 16]) s [Parent (Released 0), Parent (Assigned 0), Parent (Released 0)] (Some s3) \<and>
     free_child (ps_parent s3) 0 \<and> ps_announced s3 ! 0 \<noteq> []"
proof -
  obtain s0 where s0: "two_kids = Some s0" using two_kids_round by (cases two_kids) simp_all
  obtain ls s where ex: "pool_exec sample_os 13 [16, 16] (both_served @ [Wait [(7, EPOLLIN), (3, EPOLLIN), (9, EPOLLIN)]]) s0 = Some (ls, s)"
    using two_kids_round unfolding s0 option.case
    by (cases "pool_exec sample_os 13 [16, 16] (both_served @ [Wait [(7, EPOLLIN), (3, EPOLLIN), (9, EPOLLIN)]]) s0")
      (simp only: option.case, fastforce)
  note facts = two_kids_round [unfolded s0 option.case ex prod.case Let_def]
  have "EPOLLIN AND EPOLLIN \<noteq> 0" "ps_events s (Suc (Suc 0)) = 9" using facts by (simp_all add: EPOLLIN_def numeral_2_eq_2)
  with report_releases_twice [of s 7 EPOLLIN EPOLLIN 9 EPOLLIN "[]" 13 0 sample_os echo_init echo_process "[16, 16]"] facts
  obtain s3 where "run (pool_moves sample_os echo_init echo_process 13 [16, 16]) s [Parent (Released 0), Parent (Assigned 0), Parent (Released 0)] (Some s3)"
    "free_child (ps_parent s3) 0" "ps_announced s3 ! 0 = ps_announced s ! 0 @ [1]" by auto
  with s0 pool_exec_run [OF ex] show ?thesis by (intro exI [of _ s0] exI [of _ s] exI [of _ ls] exI [of _ s3]) simp
qed

end
