(* ===== verification/Chatroom.thy ===== *)
theory Chatroom
  imports Http_Types
begin

unbundle bit_operations_syntax

text \<open>
  The chat room of \<^verbatim>\<open>src/src/execution/chatroom_server.c\<close>: a poll set with the listening socket in
  front, users indexed by descriptor, and messages that are passed on as pointers into the sender's buffer.
\<close>

section \<open>The model\<close>

type_synonym poll_flags = "16 word"

definition POLLIN :: poll_flags where "POLLIN = 0x001"
definition POLLOUT :: poll_flags where "POLLOUT = 0x004"
definition POLLERR :: poll_flags where "POLLERR = 0x008"
definition POLLHUP :: poll_flags where "POLLHUP = 0x010"
definition POLLNVAL :: poll_flags where "POLLNVAL = 0x020"
definition POLLRDHUP :: poll_flags where "POLLRDHUP = 0x2000"

definition CHAT_USER_LIMIT :: int where "CHAT_USER_LIMIT = 5"
definition CHAT_BUFFER_SIZE :: nat where "CHAT_BUFFER_SIZE = 64"
definition CHAT_FD_LIMIT :: int where "CHAT_FD_LIMIT = 65535"

text \<open>
  The users come from malloc: None is a buffer, and WUninit a pointer, that was never written. A pointer
  that was set points to the buffer of the user with that descriptor.
\<close>

datatype chat_ptr = WUninit | WNull | WBuf int

record chat_user =
  u_address :: nat
  u_write_buf :: chat_ptr
  u_buf :: "buf option"

record pollfd =
  p_fd :: int
  p_events :: poll_flags
  p_revents :: poll_flags

record chat =
  chat_counter :: int
  chat_fds :: "pollfd list"
  chat_users :: "int \<Rightarrow> chat_user"
  chat_net :: world

definition pollfd_at :: "int \<Rightarrow> chat \<Rightarrow> pollfd res" where
  "pollfd_at i s = (if 0 \<le> i \<and> i < int (length (chat_fds s)) then Inr (chat_fds s ! nat i) else Inl OutOfBounds)"

definition chat_user_at :: "int \<Rightarrow> chat \<Rightarrow> chat_user res" where
  "chat_user_at fd s = (if 0 \<le> fd \<and> fd < CHAT_FD_LIMIT then Inr (chat_users s fd) else Inl OutOfBounds)"

text \<open>main before the loop: the last element of fds keeps what the stack held.\<close>

definition chat_start :: "int \<Rightarrow> pollfd \<Rightarrow> (int \<Rightarrow> chat_user) \<Rightarrow> chat" where
  "chat_start listenfd junk users =
     \<lparr>chat_counter = 0,
      chat_fds = \<lparr>p_fd = listenfd, p_events = POLLIN OR POLLERR, p_revents = 0\<rparr> #
        replicate (nat CHAT_USER_LIMIT - 1) \<lparr>p_fd = -1, p_events = 0, p_revents = 0\<rparr> @ [junk],
      chat_users = users, chat_net = \<lparr>m_epollfd = 0, m_user_count = 0, calls = []\<rparr>\<rparr>"

text \<open>The answers of accept and recv in one round of the loop, and of poll: the new revents.\<close>

record chat_env =
  ch_accept :: "int \<times> nat"
  ch_recv :: "int \<Rightarrow> recv_answer"

definition chat_accept :: "os \<Rightarrow> int \<times> nat \<Rightarrow> chat \<Rightarrow> chat res" where
  "chat_accept os accepted s =
     (let (connfd, client_address) = accepted; net = chat_net s in
      if connfd < 0 then Inr s
      else if chat_counter s \<ge> CHAT_USER_LIMIT
        then Inr (s\<lparr>chat_net := emit (Close connfd) (emit (Send connfd (''too many users'' @ [LF])) net)\<rparr>)
      else let n = chat_counter s + 1 in
        bind_res (chat_user_at connfd s) (\<lambda>u.
        bind_res (pollfd_at n s) (\<lambda>_.
        Inr (s\<lparr>chat_counter := n, chat_users := (chat_users s)(connfd := u\<lparr>u_address := client_address\<rparr>),
            chat_net := snd (setnonblocking os connfd net),
            chat_fds := (chat_fds s)[nat n := \<lparr>p_fd = connfd, p_events = POLLIN OR POLLRDHUP OR POLLERR, p_revents = 0\<rparr>]\<rparr>))))"

text \<open>
  The end of client i: its user becomes a copy of the last client's, its element of fds the last one. (A
  failed recv closes the descriptor before the copy, which makes no difference.)
\<close>

definition chat_leave :: "int \<Rightarrow> chat \<Rightarrow> chat res" where
  "chat_leave i s =
     bind_res (pollfd_at i s) (\<lambda>e.
     bind_res (pollfd_at (chat_counter s) s) (\<lambda>l.
     bind_res (chat_user_at (p_fd e) s) (\<lambda>_.
     bind_res (chat_user_at (p_fd l) s) (\<lambda>u.
     Inr (s\<lparr>chat_users := (chat_users s)(p_fd e := u), chat_net := emit (Close (p_fd e)) (chat_net s),
         chat_fds := (chat_fds s)[nat i := l], chat_counter := chat_counter s - 1\<rparr>)))))"

text \<open>Every client but the sender gets a pointer to the sender's buffer.\<close>

fun chat_broadcast :: "int \<Rightarrow> int list \<Rightarrow> chat \<Rightarrow> chat res" where
  "chat_broadcast connfd [] s = Inr s"
| "chat_broadcast connfd (j # js) s =
     bind_res (pollfd_at j s) (\<lambda>e.
       if p_fd e = connfd then chat_broadcast connfd js s
       else bind_res (chat_user_at (p_fd e) s) (\<lambda>u.
         chat_broadcast connfd js
           (s\<lparr>chat_fds := (chat_fds s)[nat j := e\<lparr>p_events := (p_events e OR NOT POLLIN) OR POLLOUT\<rparr>],
              chat_users := (chat_users s)(p_fd e := u\<lparr>u_write_buf := WBuf connfd\<rparr>)\<rparr>)))"

text \<open>
  Data of client i. The test for the end of the stream is an assignment: it never holds, so an empty
  buffer is passed on as well.
\<close>

definition chat_read :: "chat_env \<Rightarrow> int \<Rightarrow> int \<Rightarrow> chat \<Rightarrow> (int \<times> chat) res" where
  "chat_read env i connfd s =
     (let zero = replicate CHAT_BUFFER_SIZE NUL in
      bind_res (chat_user_at connfd s) (\<lambda>u.
      let s0 = s\<lparr>chat_users := (chat_users s)(connfd := u\<lparr>u_buf := Some zero\<rparr>)\<rparr> in
      case ch_recv env connfd of
        Recv_error \<Rightarrow> map_res (Pair (i - 1)) (chat_leave i s0)
      | Recv_again \<Rightarrow> Inr (i, s0)
      | Recv_eof \<Rightarrow> map_res (Pair i) (chat_broadcast connfd [1..chat_counter s0] s0)
      | Recv_bytes bs \<Rightarrow>
          bind_res (put_bytes zero 0 bs) (\<lambda>b.
          let s1 = s0\<lparr>chat_users := (chat_users s0)(connfd := u\<lparr>u_buf := Some b\<rparr>)\<rparr>
          in map_res (Pair i) (chat_broadcast connfd [1..chat_counter s1] s1))))"

text \<open>Client i can be written to: the text its pointer leads to is sent.\<close>

definition chat_write :: "int \<Rightarrow> int \<Rightarrow> chat \<Rightarrow> chat res" where
  "chat_write i connfd s =
     bind_res (chat_user_at connfd s) (\<lambda>u.
       case u_write_buf u of
         WUninit \<Rightarrow> Inl UninitRead
       | WNull \<Rightarrow> Inr s
       | WBuf from \<Rightarrow> bind_res (chat_user_at from s) (\<lambda>v.
           case u_buf v of
             None \<Rightarrow> Inl UninitRead
           | Some b \<Rightarrow>
               bind_res (cstr b 0) (\<lambda>txt.
               bind_res (pollfd_at i s) (\<lambda>e.
               Inr (s\<lparr>chat_users := (chat_users s)(connfd := u\<lparr>u_write_buf := WNull\<rparr>),
                   chat_net := emit (Send connfd txt) (chat_net s),
                   chat_fds := (chat_fds s)[nat i := e\<lparr>p_events := (p_events e OR NOT POLLOUT) OR POLLIN\<rparr>]\<rparr>)))))"

text \<open>One round of the for loop: the index with which the loop goes on is one more than the result.\<close>

definition chat_handle :: "os \<Rightarrow> int \<Rightarrow> chat_env \<Rightarrow> int \<Rightarrow> chat \<Rightarrow> (int \<times> chat) res" where
  "chat_handle os listenfd env i s =
     bind_res (pollfd_at i s) (\<lambda>e.
       if p_fd e = listenfd \<and> p_revents e AND POLLIN \<noteq> 0 then map_res (Pair i) (chat_accept os (ch_accept env) s)
       else if p_revents e AND POLLERR \<noteq> 0 then Inr (i, s)
       else if p_revents e AND POLLRDHUP \<noteq> 0 then map_res (Pair (i - 1)) (chat_leave i s)
       else if p_revents e AND POLLIN \<noteq> 0 then chat_read env i (p_fd e) s
       else if p_revents e AND POLLOUT \<noteq> 0 then map_res (Pair i) (chat_write i (p_fd e) s)
       else Inr (i, s))"

partial_function (option) chat_loop :: "os \<Rightarrow> int \<Rightarrow> chat_env \<Rightarrow> int \<Rightarrow> chat \<Rightarrow> chat res option" where
  "chat_loop os listenfd env i s =
     (if i < chat_counter s + 1
      then case chat_handle os listenfd env i s of
             Inl u \<Rightarrow> Some (Inl u)
           | Inr (i1, s1) \<Rightarrow> chat_loop os listenfd env (i1 + 1) s1
      else Some (Inr s))"

declare chat_loop.simps [code]

definition polled :: "(nat \<Rightarrow> poll_flags) \<Rightarrow> chat \<Rightarrow> chat" where
  "polled revents s = s\<lparr>chat_fds := map (\<lambda>i. if int i \<le> chat_counter s then (chat_fds s ! i)\<lparr>p_revents := revents i\<rparr> else chat_fds s ! i)
     [0..<length (chat_fds s)]\<rparr>"

definition chat_round :: "os \<Rightarrow> int \<Rightarrow> chat_env \<Rightarrow> (nat \<Rightarrow> poll_flags) \<Rightarrow> chat \<Rightarrow> chat res option" where
  "chat_round os listenfd env revents s = chat_loop os listenfd env 0 (polled revents s)"

lemmas poll_defs = POLLIN_def POLLOUT_def POLLERR_def POLLHUP_def POLLNVAL_def POLLRDHUP_def

section \<open>The invariant\<close>

definition chat_clients :: "chat \<Rightarrow> int set" where
  "chat_clients s = (\<lambda>k. p_fd (chat_fds s ! k)) ` {1..nat (chat_counter s)}"

text \<open>A buffer that was written holds a string, and a client that is asked about POLLOUT has a pointer.\<close>

definition users_ok :: "(int \<Rightarrow> chat_user) \<Rightarrow> bool" where
  "users_ok us \<longleftrightarrow> (\<forall>fd a. u_write_buf (us fd) = WBuf a \<longrightarrow> 0 \<le> a \<and> a < CHAT_FD_LIMIT) \<and>
     (\<forall>fd b. u_buf (us fd) = Some b \<longrightarrow> (\<exists>str. cstr b 0 = Inr str) \<and> length b = CHAT_BUFFER_SIZE)"

definition client_ok :: "int \<Rightarrow> (int \<Rightarrow> chat_user) \<Rightarrow> pollfd \<Rightarrow> bool" where
  "client_ok listenfd us e \<longleftrightarrow> 0 \<le> p_fd e \<and> p_fd e < CHAT_FD_LIMIT \<and> p_fd e \<noteq> listenfd \<and>
     (p_revents e AND POLLOUT \<noteq> 0 \<longrightarrow> p_events e AND POLLOUT \<noteq> 0) \<and>
     (p_events e AND POLLOUT \<noteq> 0 \<longrightarrow> u_write_buf (us (p_fd e)) \<noteq> WUninit)"

definition front_ok :: "int \<Rightarrow> pollfd \<Rightarrow> bool" where
  "front_ok listenfd e \<longleftrightarrow> p_fd e = listenfd \<and> p_events e = POLLIN OR POLLERR \<and>
     p_revents e AND POLLRDHUP = 0 \<and> p_revents e AND POLLOUT = 0"

definition chat_inv :: "int \<Rightarrow> chat \<Rightarrow> bool" where
  "chat_inv listenfd s \<longleftrightarrow> length (chat_fds s) = 6 \<and> 0 \<le> chat_counter s \<and> chat_counter s \<le> CHAT_USER_LIMIT \<and>
     front_ok listenfd (chat_fds s ! 0) \<and> (\<forall>k \<in> {1..nat (chat_counter s)}. client_ok listenfd (chat_users s) (chat_fds s ! k)) \<and>
     inj_on (\<lambda>k. p_fd (chat_fds s ! k)) {1..nat (chat_counter s)} \<and> users_ok (chat_users s)"

lemma chat_inv_n:
  assumes "chat_counter s = int n"
  shows "chat_inv listenfd s \<longleftrightarrow> length (chat_fds s) = 6 \<and> n \<le> 5 \<and> front_ok listenfd (chat_fds s ! 0) \<and>
     (\<forall>k \<in> {1..n}. client_ok listenfd (chat_users s) (chat_fds s ! k)) \<and>
     inj_on (\<lambda>k. p_fd (chat_fds s ! k)) {1..n} \<and> users_ok (chat_users s)"
    and "chat_clients s = (\<lambda>k. p_fd (chat_fds s ! k)) ` {1..n}"
  using assms by (auto simp: chat_inv_def chat_clients_def CHAT_USER_LIMIT_def)

lemma chat_invI:
  assumes "chat_counter s = int n" "length (chat_fds s) = 6" "n \<le> 5" "front_ok listenfd (chat_fds s ! 0)"
    and "\<And>k. k \<in> {1..n} \<Longrightarrow> client_ok listenfd (chat_users s) (chat_fds s ! k)"
    and "inj_on (\<lambda>k. p_fd (chat_fds s ! k)) {1..n}" "users_ok (chat_users s)"
  shows "chat_inv listenfd s"
  using assms by (simp add: chat_inv_n)

definition chat_env_ok :: "int \<Rightarrow> chat_env \<Rightarrow> chat \<Rightarrow> bool" where
  "chat_env_ok listenfd env s \<longleftrightarrow>
     (0 \<le> fst (ch_accept env) \<longrightarrow> fst (ch_accept env) < CHAT_FD_LIMIT \<and> fst (ch_accept env) \<notin> insert listenfd (chat_clients s)) \<and>
     (\<forall>fd bs. ch_recv env fd = Recv_bytes bs \<longrightarrow> 0 < length bs \<and> length bs < CHAT_BUFFER_SIZE)"

text \<open>What poll promises: it reports the events that were asked for, and three conditions that always are.\<close>

definition poll_ok :: "(nat \<Rightarrow> poll_flags) \<Rightarrow> chat \<Rightarrow> bool" where
  "poll_ok revents s \<longleftrightarrow> (\<forall>k \<le> nat (chat_counter s).
     revents k AND NOT (p_events (chat_fds s ! k) OR POLLERR OR POLLHUP OR POLLNVAL) = 0)"

definition closed_fds :: "syscall list \<Rightarrow> int set" where
  "closed_fds cs = {fd. Close fd \<in> set cs}"

lemma reported_asked:
  fixes x y z m :: poll_flags
  assumes "x AND NOT (y OR z) = 0" and "z AND m = 0" and "x AND m \<noteq> 0"
  shows "y AND m \<noteq> 0"
proof
  assume "y AND m = 0"
  with assms(1,2) have "x AND m = 0" by (auto simp: bit_eq_iff bit_simps)
  with assms(3) show False ..
qed

lemma polled_simps [simp]:
  "chat_counter (polled revents s) = chat_counter s" "chat_users (polled revents s) = chat_users s"
  "chat_net (polled revents s) = chat_net s" "length (chat_fds (polled revents s)) = length (chat_fds s)"
  by (simp_all add: polled_def)

lemma polled_nth:
  assumes "k \<le> nat (chat_counter s)" "0 \<le> chat_counter s" "k < length (chat_fds s)"
  shows "chat_fds (polled revents s) ! k = (chat_fds s ! k)\<lparr>p_revents := revents k\<rparr>"
  using assms by (simp add: polled_def)

lemma chat_inv_len: "chat_inv listenfd s \<Longrightarrow> k \<le> nat (chat_counter s) \<Longrightarrow> k < length (chat_fds s)"
  by (auto simp: chat_inv_def CHAT_USER_LIMIT_def)

lemma polled_inv:
  assumes inv: "chat_inv listenfd s" and "poll_ok revents s"
  shows "chat_inv listenfd (polled revents s)" and "chat_clients (polled revents s) = chat_clients s"
proof -
  have n: "chat_fds (polled revents s) ! k = (chat_fds s ! k)\<lparr>p_revents := revents k\<rparr>" if "k \<le> nat (chat_counter s)" for k
    using polled_nth [OF that _ chat_inv_len [OF inv that]] inv by (simp add: chat_inv_def)
  have asked: "p_events (chat_fds s ! k) AND m \<noteq> 0"
    if "k \<le> nat (chat_counter s)" "revents k AND m \<noteq> 0" "(POLLERR OR POLLHUP OR POLLNVAL) AND m = 0" for k m
    using assms(2) that by (intro reported_asked [OF _ that(3,2)]) (simp add: poll_ok_def)
  have k: "client_ok listenfd (chat_users s) (chat_fds (polled revents s) ! k)" if "k \<in> {1..nat (chat_counter s)}" for k
    using that inv asked [of k POLLOUT] by (simp add: n chat_inv_def client_ok_def poll_defs)
  have "front_ok listenfd (chat_fds s ! 0)" using inv by (simp add: chat_inv_def)
  then have "front_ok listenfd (chat_fds (polled revents s) ! 0)"
    using asked [of 0 POLLOUT] asked [of 0 POLLRDHUP] by (auto simp: n front_ok_def poll_defs)
  moreover have "inj_on (\<lambda>k. p_fd (chat_fds (polled revents s) ! k)) {1..nat (chat_counter s)}"
    using inv by (simp add: chat_inv_def inj_on_def n)
  ultimately show "chat_inv listenfd (polled revents s)" using inv k by (simp add: chat_inv_def)
  show "chat_clients (polled revents s) = chat_clients s" by (simp add: chat_clients_def n)
qed

section \<open>One descriptor\<close>

text \<open>What every branch of the loop's body keeps: A are the clients it takes up.\<close>

definition chat_moves :: "int \<Rightarrow> int set \<Rightarrow> chat \<Rightarrow> chat \<Rightarrow> bool" where
  "chat_moves listenfd A s s' \<longleftrightarrow> chat_inv listenfd s' \<and>
     (\<exists>cs. calls (chat_net s') = calls (chat_net s) @ cs \<and> chat_clients s' = (chat_clients s \<union> A) - closed_fds cs)"

lemma chat_moves_refl: "chat_inv listenfd s \<Longrightarrow> chat_moves listenfd {} s s"
  by (simp add: chat_moves_def closed_fds_def)

lemma chat_accept_moves:
  assumes inv: "chat_inv listenfd s"
    and new: "0 \<le> fst accepted \<longrightarrow> fst accepted < CHAT_FD_LIMIT \<and> fst accepted \<notin> insert listenfd (chat_clients s)"
  shows "\<exists>s'. chat_accept os accepted s = Inr s' \<and> chat_moves listenfd (if 0 \<le> fst accepted then {fst accepted} else {}) s s'"
proof -
  obtain fd addr where acc: "accepted = (fd, addr)" by (cases accepted)
  obtain n where n: "chat_counter s = int n" using inv by (cases "chat_counter s") (auto simp: chat_inv_def)
  consider (failed) "fd < 0" | (full) "0 \<le> fd" "chat_counter s \<ge> CHAT_USER_LIMIT"
    | (free) "0 \<le> fd" "chat_counter s < CHAT_USER_LIMIT" by linarith
  then show ?thesis
  proof cases
    case failed
    with chat_moves_refl [OF inv] show ?thesis by (simp add: chat_accept_def acc)
  next
    case full
    let ?s = "s\<lparr>chat_net := emit (Close fd) (emit (Send fd (''too many users'' @ [LF])) (chat_net s))\<rparr>"
    have "closed_fds [Send fd (''too many users'' @ [LF]), Close fd] = {fd}" by (simp add: closed_fds_def)
    moreover have "fd \<notin> chat_clients s" using new full by (simp add: acc)
    ultimately have "chat_clients s = chat_clients s \<union> {fd} - closed_fds [Send fd (''too many users'' @ [LF]), Close fd]" by auto
    moreover have "calls (chat_net ?s) = calls (chat_net s) @ [Send fd (''too many users'' @ [LF]), Close fd]" by simp
    moreover have "chat_inv listenfd ?s" "chat_clients ?s = chat_clients s" using inv by (simp_all add: chat_inv_def chat_clients_def)
    ultimately have "chat_moves listenfd {fd} s ?s" unfolding chat_moves_def by blast
    with full show ?thesis by (simp add: chat_accept_def acc)
  next
    case free
    let ?new = "\<lparr>p_fd = fd, p_events = POLLIN OR POLLRDHUP OR POLLERR, p_revents = 0\<rparr>"
    let ?us = "(chat_users s)(fd := (chat_users s fd)\<lparr>u_address := addr\<rparr>)"
    define s' where "s' = s\<lparr>chat_counter := int (Suc n), chat_users := ?us, chat_net := snd (setnonblocking os fd (chat_net s)),
      chat_fds := (chat_fds s)[Suc n := ?new]\<rparr>"
    have len: "length (chat_fds s) = 6" "Suc n \<le> 5" using inv free n by (simp_all add: chat_inv_def CHAT_USER_LIMIT_def)
    have fd: "fd < CHAT_FD_LIMIT" "fd \<noteq> listenfd" "fd \<notin> chat_clients s" using new free by (simp_all add: acc)
    have run: "chat_accept os accepted s = Inr s'"
      using free len fd n by (simp add: chat_accept_def acc chat_user_at_def pollfd_at_def Let_def nat_add_distrib add.commute s'_def)
    have old: "chat_fds s' ! k = chat_fds s ! k" if "k \<in> {1..n}" for k using that by (simp add: s'_def)
    have new1: "chat_fds s' ! Suc n = ?new" using len by (simp add: s'_def)
    have wb: "u_write_buf (chat_users s' k) = u_write_buf (chat_users s k)" "u_buf (chat_users s' k) = u_buf (chat_users s k)" for k
      by (simp_all add: s'_def)
    have ks: "{1..Suc n} = insert (Suc n) {1..n}" by auto
    have "chat_inv listenfd s'"
    proof (rule chat_invI)
      show "chat_counter s' = int (Suc n)" "length (chat_fds s') = 6" "Suc n \<le> 5" using len by (simp_all add: s'_def)
      show "front_ok listenfd (chat_fds s' ! 0)" using inv by (simp add: chat_inv_def s'_def)
      show "users_ok (chat_users s')" using inv unfolding chat_inv_def users_ok_def wb by blast
    next
      fix k assume k: "k \<in> {1..Suc n}"
      show "client_ok listenfd (chat_users s') (chat_fds s' ! k)"
      proof (cases "k = Suc n")
        case True
        then show ?thesis using fd free by (simp add: client_ok_def poll_defs new1)
      next
        case False
        with k have "k \<in> {1..n}" by simp
        with old [OF this] inv n show ?thesis unfolding client_ok_def wb by (simp add: chat_inv_def client_ok_def)
      qed
    next
      have "inj_on (\<lambda>k. p_fd (chat_fds s' ! k)) {1..n}"
        using inv n by (subst inj_on_cong [of _ _ "\<lambda>k. p_fd (chat_fds s ! k)"]) (simp_all add: chat_inv_def old)
      moreover have "p_fd (chat_fds s' ! Suc n) \<notin> (\<lambda>k. p_fd (chat_fds s' ! k)) ` {1..n}"
        using fd(3) n by (auto simp: chat_clients_def new1 old)
      ultimately show "inj_on (\<lambda>k. p_fd (chat_fds s' ! k)) {1..Suc n}" unfolding ks by (subst inj_on_insert) auto
    qed
    moreover have "chat_clients s' = chat_clients s \<union> {fd} - closed_fds [Fcntl_setfl fd (os_getfl os fd OR O_NONBLOCK)]"
    proof -
      have "chat_clients s' = (\<lambda>k. p_fd (chat_fds s' ! k)) ` {1..Suc n}" by (rule chat_inv_n(2)) (simp add: s'_def)
      also have "\<dots> = insert fd ((\<lambda>k. p_fd (chat_fds s' ! k)) ` {1..n})" unfolding ks by (simp add: new1)
      also have "(\<lambda>k. p_fd (chat_fds s' ! k)) ` {1..n} = chat_clients s"
        unfolding chat_inv_n(2) [OF n] by (rule image_cong) (simp_all add: old)
      finally show ?thesis by (simp add: closed_fds_def)
    qed
    ultimately have "chat_moves listenfd {fd} s s'"
      unfolding chat_moves_def by (intro conjI exI [of _ "[Fcntl_setfl fd (os_getfl os fd OR O_NONBLOCK)]"])
        (simp_all add: setnonblocking_def Let_def s'_def)
    with run free show ?thesis by (simp add: acc)
  qed
qed

text \<open>The last element takes the place of element k0.\<close>

lemma image_move_last:
  assumes k0: "k0 \<in> {1..Suc m}"
  shows "(\<lambda>k. f (if k = k0 then Suc m else k)) ` {1..m} = f ` ({1..Suc m} - {k0})"
proof -
  define \<sigma> where "\<sigma> k = (if k = k0 then Suc m else k)" for k
  have "\<sigma> ` {1..m} = {1..Suc m} - {k0}"
  proof
    show "\<sigma> ` {1..m} \<subseteq> {1..Suc m} - {k0}" by (auto simp: \<sigma>_def)
    show "{1..Suc m} - {k0} \<subseteq> \<sigma> ` {1..m}"
    proof
      fix k assume k: "k \<in> {1..Suc m} - {k0}"
      then show "k \<in> \<sigma> ` {1..m}"
        by (cases "k = Suc m") (use k0 in \<open>auto simp: \<sigma>_def intro: image_eqI [of _ _ k0] image_eqI [of _ _ k]\<close>)
    qed
  qed
  then have "f ` \<sigma> ` {1..m} = f ` ({1..Suc m} - {k0})" by simp
  then show ?thesis unfolding image_image \<sigma>_def .
qed

text \<open>The end of client i.\<close>

lemma chat_leave_moves:
  assumes inv: "chat_inv listenfd s" and i: "1 \<le> i" "i \<le> chat_counter s"
  shows "\<exists>s'. chat_leave i s = Inr s' \<and> chat_moves listenfd {} s s' \<and> chat_counter s' = chat_counter s - 1"
proof -
  obtain m where n: "chat_counter s = int (Suc m)" using inv i by (cases "chat_counter s"; cases "nat (chat_counter s)") auto
  obtain k0 where k0: "i = int k0" "k0 \<in> {1..Suc m}" using i n by (cases i) auto
  let ?e = "chat_fds s ! k0" and ?l = "chat_fds s ! Suc m"
  define s' where "s' = s\<lparr>chat_users := (chat_users s)(p_fd ?e := chat_users s (p_fd ?l)),
    chat_net := emit (Close (p_fd ?e)) (chat_net s), chat_fds := (chat_fds s)[k0 := ?l], chat_counter := int m\<rparr>"
  have N: "length (chat_fds s) = 6" "Suc m \<le> 5" "front_ok listenfd (chat_fds s ! 0)"
    "\<And>k. k \<in> {1..Suc m} \<Longrightarrow> client_ok listenfd (chat_users s) (chat_fds s ! k)"
    "inj_on (\<lambda>k. p_fd (chat_fds s ! k)) {1..Suc m}" "users_ok (chat_users s)"
    using inv unfolding chat_inv_n(1) [OF n] by blast+
  have ok: "client_ok listenfd (chat_users s) ?e" "client_ok listenfd (chat_users s) ?l" using N(4) k0 by simp_all
  have run: "chat_leave i s = Inr s'"
    using N(1,2) k0 n ok by (simp add: chat_leave_def pollfd_at_def chat_user_at_def client_ok_def s'_def nat_add_distrib)
  have el: "chat_fds s' ! k = (if k = k0 then ?l else chat_fds s ! k)" for k
    using N(1,2) k0 by (simp add: s'_def nth_list_update)
  have img: "(\<lambda>k. p_fd (chat_fds s' ! k)) ` {1..m} = (\<lambda>k. p_fd (chat_fds s ! k)) ` ({1..Suc m} - {k0})"
    unfolding image_move_last [OF k0(2), symmetric] by (rule image_cong) (simp_all add: el)
  have apart: "p_fd (chat_fds s' ! k) \<noteq> p_fd ?e" if "k \<in> {1..m}" for k
  proof -
    have "p_fd (chat_fds s' ! k) \<in> (\<lambda>k. p_fd (chat_fds s ! k)) ` ({1..Suc m} - {k0})" using that unfolding img [symmetric] by blast
    then obtain k' where "p_fd (chat_fds s' ! k) = p_fd (chat_fds s ! k')" "k' \<in> {1..Suc m}" "k' \<noteq> k0" by blast
    with inj_onD [OF N(5), of k' k0] k0(2) show ?thesis by auto
  qed
  have "chat_inv listenfd s'"
  proof (rule chat_invI)
    show "chat_counter s' = int m" "length (chat_fds s') = 6" "m \<le> 5" using N by (simp_all add: s'_def)
    show "front_ok listenfd (chat_fds s' ! 0)" using N(3) k0 by (simp add: el)
    show "users_ok (chat_users s')" using N(6) unfolding users_ok_def s'_def by simp
  next
    fix k assume k: "k \<in> {1..m}"
    have "client_ok listenfd (chat_users s) (chat_fds s' ! k)" using N(4) k by (simp add: el)
    then show "client_ok listenfd (chat_users s') (chat_fds s' ! k)"
      using apart [OF k] by (simp add: client_ok_def s'_def)
  next
    have "inj_on (\<lambda>k. p_fd (chat_fds s' ! k)) {1..m}"
    proof (rule eq_card_imp_inj_on)
      have "card ((\<lambda>k. p_fd (chat_fds s ! k)) ` ({1..Suc m} - {k0})) = card ({1..Suc m} - {k0})"
        using N(5) by (intro card_image inj_on_subset [OF N(5)]) auto
      also have "\<dots> = m" using k0 by simp
      finally show "card ((\<lambda>k. p_fd (chat_fds s' ! k)) ` {1..m}) = card {1..m}" unfolding img by simp
    qed simp
    then show "inj_on (\<lambda>k. p_fd (chat_fds s' ! k)) {1..m}" .
  qed
  moreover have "chat_clients s' = chat_clients s \<union> {} - closed_fds [Close (p_fd ?e)]"
  proof -
    have "chat_clients s' = (\<lambda>k. p_fd (chat_fds s' ! k)) ` {1..m}" by (rule chat_inv_n(2)) (simp add: s'_def)
    also have "\<dots> = (\<lambda>k. p_fd (chat_fds s ! k)) ` {1..Suc m} - {p_fd ?e}"
      unfolding img using inj_on_image_set_diff [OF N(5), of "{1..Suc m}" "{k0}"] k0 by auto
    finally show ?thesis by (simp add: chat_inv_n(2) [OF n] closed_fds_def)
  qed
  ultimately have "chat_moves listenfd {} s s'"
    unfolding chat_moves_def by (intro conjI exI [of _ "[Close (p_fd ?e)]"]) (simp_all add: s'_def)
  with run n show ?thesis by (simp add: s'_def)
qed

lemma or_pollout: "(x OR POLLOUT) AND POLLOUT \<noteq> 0"
proof -
  have "(x OR POLLOUT) AND POLLOUT = POLLOUT" by (auto simp: bit_eq_iff bit_simps)
  then show ?thesis by (simp add: POLLOUT_def)
qed

text \<open>The broadcast: what changes are the pointers and events of the others, and nothing else.\<close>

lemma chat_broadcast_outcome:
  assumes "\<forall>j \<in> set js. 0 \<le> j \<and> j < int (length (chat_fds s)) \<and> 0 \<le> p_fd (chat_fds s ! nat j) \<and> p_fd (chat_fds s ! nat j) < CHAT_FD_LIMIT"
  shows "\<exists>s'. chat_broadcast connfd js s = Inr s' \<and> chat_counter s' = chat_counter s \<and> chat_net s' = chat_net s \<and>
    length (chat_fds s') = length (chat_fds s) \<and>
    (\<forall>k. p_fd (chat_fds s' ! k) = p_fd (chat_fds s ! k) \<and> p_revents (chat_fds s' ! k) = p_revents (chat_fds s ! k)) \<and>
    (\<forall>k. int k \<notin> set js \<or> p_fd (chat_fds s ! k) = connfd \<longrightarrow> chat_fds s' ! k = chat_fds s ! k) \<and>
    (\<forall>k. p_events (chat_fds s ! k) AND POLLOUT \<noteq> 0 \<longrightarrow> p_events (chat_fds s' ! k) AND POLLOUT \<noteq> 0) \<and>
    (\<forall>fd. chat_users s' fd = (if fd \<noteq> connfd \<and> fd \<in> (\<lambda>j. p_fd (chat_fds s ! nat j)) ` set js
       then (chat_users s fd)\<lparr>u_write_buf := WBuf connfd\<rparr> else chat_users s fd))"
  using assms
proof (induction js arbitrary: s)
  case (Cons j js)
  let ?e = "chat_fds s ! nat j"
  have j: "0 \<le> j" "j < int (length (chat_fds s))" "0 \<le> p_fd ?e" "p_fd ?e < CHAT_FD_LIMIT" using Cons.prems by simp_all
  show ?case
  proof (cases "p_fd ?e = connfd")
    case True
    with j have "chat_broadcast connfd (j # js) s = chat_broadcast connfd js s" by (simp add: pollfd_at_def)
    with Cons.IH [of s] Cons.prems True show ?thesis by auto
  next
    case False
    define e1 where "e1 = ?e\<lparr>p_events := (p_events ?e OR NOT POLLIN) OR POLLOUT\<rparr>"
    define s1 where "s1 = s\<lparr>chat_fds := (chat_fds s)[nat j := e1],
      chat_users := (chat_users s)(p_fd ?e := (chat_users s (p_fd ?e))\<lparr>u_write_buf := WBuf connfd\<rparr>)\<rparr>"
    have step: "chat_broadcast connfd (j # js) s = chat_broadcast connfd js s1"
      using False j by (simp add: pollfd_at_def chat_user_at_def s1_def e1_def)
    have fds: "p_fd (chat_fds s1 ! k) = p_fd (chat_fds s ! k)" "p_revents (chat_fds s1 ! k) = p_revents (chat_fds s ! k)"
      "k \<noteq> nat j \<Longrightarrow> chat_fds s1 ! k = chat_fds s ! k"
      "p_events (chat_fds s ! k) AND POLLOUT \<noteq> 0 \<Longrightarrow> p_events (chat_fds s1 ! k) AND POLLOUT \<noteq> 0" for k
      using j or_pollout by (auto simp: s1_def e1_def nth_list_update)
    have len: "length (chat_fds s1) = length (chat_fds s)" "chat_counter s1 = chat_counter s" "chat_net s1 = chat_net s"
      by (simp_all add: s1_def)
    have us: "chat_users s1 fd = (if fd = p_fd ?e then (chat_users s fd)\<lparr>u_write_buf := WBuf connfd\<rparr> else chat_users s fd)" for fd
      by (simp add: s1_def)
    obtain s' where s': "chat_broadcast connfd js s1 = Inr s'" "chat_counter s' = chat_counter s1" "chat_net s' = chat_net s1"
      "length (chat_fds s') = length (chat_fds s1)"
      "\<And>k. p_fd (chat_fds s' ! k) = p_fd (chat_fds s1 ! k) \<and> p_revents (chat_fds s' ! k) = p_revents (chat_fds s1 ! k)"
      "\<And>k. int k \<notin> set js \<or> p_fd (chat_fds s1 ! k) = connfd \<Longrightarrow> chat_fds s' ! k = chat_fds s1 ! k"
      "\<And>k. p_events (chat_fds s1 ! k) AND POLLOUT \<noteq> 0 \<Longrightarrow> p_events (chat_fds s' ! k) AND POLLOUT \<noteq> 0"
      "\<And>fd. chat_users s' fd = (if fd \<noteq> connfd \<and> fd \<in> (\<lambda>j. p_fd (chat_fds s1 ! nat j)) ` set js
         then (chat_users s1 fd)\<lparr>u_write_buf := WBuf connfd\<rparr> else chat_users s1 fd)"
      using Cons.IH [of s1] Cons.prems by (auto simp: fds len)
    have same: "chat_fds s' ! k = chat_fds s ! k" if "int k \<notin> set (j # js) \<or> p_fd (chat_fds s ! k) = connfd" for k
    proof -
      have "k \<noteq> nat j" using that False j by auto
      with s'(6) [of k] fds(1,3) [of k] that show ?thesis by auto
    qed
    have users: "chat_users s' fd = (if fd \<noteq> connfd \<and> fd \<in> (\<lambda>j. p_fd (chat_fds s ! nat j)) ` set (j # js)
       then (chat_users s fd)\<lparr>u_write_buf := WBuf connfd\<rparr> else chat_users s fd)" for fd
      unfolding s'(8) fds us using False by auto
    show ?thesis unfolding step using s'(1-5,7) fds len same users by (intro exI [of _ s'] conjI allI impI) simp_all
  qed
qed simp

lemma padded_str:
  assumes "length bs < N"
  shows "cstr (bs @ replicate (N - length bs) NUL) 0 = Inr (takeWhile (\<lambda>c. c \<noteq> NUL) bs)"
proof -
  define t where "t = takeWhile (\<lambda>c. c \<noteq> NUL) bs"
  have "\<exists>r. bs @ replicate (N - length bs) NUL = t @ NUL # r"
  proof (cases "NUL \<in> set bs")
    case True
    then have "dropWhile (\<lambda>c. c \<noteq> NUL) bs \<noteq> []" by (auto simp: dropWhile_eq_Nil_conv)
    then obtain d ds where d: "dropWhile (\<lambda>c. c \<noteq> NUL) bs = d # ds" by (cases "dropWhile (\<lambda>c. c \<noteq> NUL) bs") auto
    with hd_dropWhile [of "\<lambda>c. c \<noteq> NUL" bs] have "bs = t @ NUL # ds"
      using takeWhile_dropWhile_id [of "\<lambda>c. c \<noteq> NUL" bs] by (simp add: t_def)
    then show ?thesis by (intro exI [of _ "ds @ replicate (N - length bs) NUL"]) (simp only: append.assoc append_Cons)
  next
    case False
    then have "t = bs" by (auto simp: t_def takeWhile_eq_all_conv)
    moreover obtain m where "N - length bs = Suc m" using assms by (cases "N - length bs") auto
    ultimately show ?thesis by auto
  qed
  moreover have "NUL \<notin> set t" by (auto simp: t_def dest: set_takeWhileD)
  ultimately show ?thesis unfolding cstr_iff str_at_def t_def [symmetric] by simp
qed

text \<open>A client's buffer may hold any string.\<close>

lemma chat_inv_buf:
  fixes fd :: int
  assumes inv: "chat_inv listenfd s" and b: "cstr b 0 = Inr str" "length b = CHAT_BUFFER_SIZE"
  defines "s' \<equiv> s\<lparr>chat_users := (chat_users s)(fd := (chat_users s fd)\<lparr>u_buf := Some b\<rparr>)\<rparr>"
  shows "chat_inv listenfd s'" and "chat_clients s' = chat_clients s"
proof -
  have wb: "u_write_buf (chat_users s' k) = u_write_buf (chat_users s k)" for k by (simp add: s'_def)
  have "users_ok (chat_users s)" using inv by (simp add: chat_inv_def)
  then have "users_ok (chat_users s')" unfolding users_ok_def wb using b by (simp add: s'_def)
  then show "chat_inv listenfd s'" using inv unfolding chat_inv_def client_ok_def wb by (simp add: s'_def)
  show "chat_clients s' = chat_clients s" by (simp add: chat_clients_def s'_def)
qed

lemma chat_inv_users:
  assumes "chat_inv listenfd s" "fd \<in> chat_clients s"
  shows "0 \<le> fd" "fd < CHAT_FD_LIMIT" "fd \<noteq> listenfd"
  using assms by (auto simp: chat_inv_def chat_clients_def client_ok_def)

lemma client_ix: "1 \<le> i \<Longrightarrow> i \<le> chat_counter s \<Longrightarrow> p_fd (chat_fds s ! nat i) \<in> chat_clients s"
  by (auto simp: chat_clients_def intro!: image_eqI [of _ _ "nat i"])

text \<open>A broadcast by a client reaches every other client.\<close>

lemma chat_broadcast_clients:
  assumes inv: "chat_inv listenfd s" and c: "connfd \<in> chat_clients s"
  shows "\<exists>s'. chat_broadcast connfd [1..chat_counter s] s = Inr s' \<and> chat_inv listenfd s' \<and>
    chat_counter s' = chat_counter s \<and> chat_net s' = chat_net s \<and> chat_clients s' = chat_clients s \<and>
    (\<forall>k. p_fd (chat_fds s' ! k) = p_fd (chat_fds s ! k)) \<and>
    (\<forall>fd. chat_users s' fd = (if fd \<in> chat_clients s - {connfd} then (chat_users s fd)\<lparr>u_write_buf := WBuf connfd\<rparr> else chat_users s fd))"
proof -
  obtain n where n: "chat_counter s = int n" using inv by (cases "chat_counter s") (auto simp: chat_inv_def)
  have N: "length (chat_fds s) = 6" "n \<le> 5" "front_ok listenfd (chat_fds s ! 0)"
    "\<And>k. k \<in> {1..n} \<Longrightarrow> client_ok listenfd (chat_users s) (chat_fds s ! k)"
    "inj_on (\<lambda>k. p_fd (chat_fds s ! k)) {1..n}" "users_ok (chat_users s)"
    using inv unfolding chat_inv_n(1) [OF n] by blast+
  have cl: "(\<lambda>j. p_fd (chat_fds s ! nat j)) ` set [1..chat_counter s] = chat_clients s"
  proof -
    have "x \<in> nat ` {1..int n}" if "x \<in> {1..n}" for x using that by (intro image_eqI [of _ _ "int x"]) auto
    then have "nat ` {1..int n} = {1..n}" by auto
    then have "(\<lambda>k. p_fd (chat_fds s ! k)) ` nat ` {1..int n} = chat_clients s" by (simp add: chat_inv_n(2) [OF n])
    then show ?thesis unfolding image_image by (simp add: n)
  qed
  have pre: "\<forall>j \<in> set [1..chat_counter s]. 0 \<le> j \<and> j < int (length (chat_fds s)) \<and> 0 \<le> p_fd (chat_fds s ! nat j) \<and>
      p_fd (chat_fds s ! nat j) < CHAT_FD_LIMIT"
  proof
    fix j assume "j \<in> set [1..chat_counter s]"
    then have "nat j \<in> {1..n}" "0 \<le> j" "j < int (length (chat_fds s))" using n N(1,2) by auto
    with N(4) [of "nat j"] show "0 \<le> j \<and> j < int (length (chat_fds s)) \<and> 0 \<le> p_fd (chat_fds s ! nat j) \<and>
      p_fd (chat_fds s ! nat j) < CHAT_FD_LIMIT" by (simp add: client_ok_def)
  qed
  obtain s' where s': "chat_broadcast connfd [1..chat_counter s] s = Inr s'" "chat_counter s' = chat_counter s"
    "chat_net s' = chat_net s" "length (chat_fds s') = length (chat_fds s)"
    "\<And>k. p_fd (chat_fds s' ! k) = p_fd (chat_fds s ! k)" "\<And>k. p_revents (chat_fds s' ! k) = p_revents (chat_fds s ! k)"
    "\<And>k. int k \<notin> set [1..chat_counter s] \<or> p_fd (chat_fds s ! k) = connfd \<Longrightarrow> chat_fds s' ! k = chat_fds s ! k"
    "\<And>k. p_events (chat_fds s ! k) AND POLLOUT \<noteq> 0 \<Longrightarrow> p_events (chat_fds s' ! k) AND POLLOUT \<noteq> 0"
    "\<And>fd. chat_users s' fd = (if fd \<in> chat_clients s - {connfd} then (chat_users s fd)\<lparr>u_write_buf := WBuf connfd\<rparr> else chat_users s fd)"
    using chat_broadcast_outcome [OF pre, of connfd] unfolding cl by auto
  have "chat_inv listenfd s'"
  proof (rule chat_invI)
    show "chat_counter s' = int n" "length (chat_fds s') = 6" "n \<le> 5" using s' n N by simp_all
    have "chat_fds s' ! 0 = chat_fds s ! 0" by (rule s'(7)) simp
    with N(3) show "front_ok listenfd (chat_fds s' ! 0)" by simp
    show "inj_on (\<lambda>k. p_fd (chat_fds s' ! k)) {1..n}" using N(5) by (simp add: s'(5))
    show "users_ok (chat_users s')"
      using N(6) chat_inv_users [OF inv c] unfolding users_ok_def by (auto simp: s'(9))
  next
    fix k assume k: "k \<in> {1..n}"
    then have fd: "p_fd (chat_fds s ! k) \<in> chat_clients s" unfolding chat_inv_n(2) [OF n] by blast
    show "client_ok listenfd (chat_users s') (chat_fds s' ! k)"
    proof (cases "p_fd (chat_fds s ! k) = connfd")
      case True
      then have "chat_fds s' ! k = chat_fds s ! k" by (intro s'(7)) simp
      with N(4) [OF k] True show ?thesis by (simp add: client_ok_def s'(9))
    next
      case False
      with N(4) [OF k] fd s'(8) [of k] show ?thesis by (simp add: client_ok_def s'(5,6,9))
    qed
  qed
  moreover have "chat_clients s' = chat_clients s" by (simp add: chat_clients_def s'(2,5))
  ultimately show ?thesis using s' by blast
qed

text \<open>Data of a client, and a client that can be written to.\<close>

lemma chat_read_cases:
  assumes inv: "chat_inv listenfd s" and i: "1 \<le> i" "i \<le> chat_counter s" and fd: "connfd = p_fd (chat_fds s ! nat i)"
    and recv: "\<forall>bs. ch_recv env connfd = Recv_bytes bs \<longrightarrow> length bs < CHAT_BUFFER_SIZE"
  shows "\<exists>i' s'. chat_read env i connfd s = Inr (i', s') \<and> chat_moves listenfd {} s s' \<and>
    (i' = i \<and> chat_counter s' = chat_counter s \<or> i' = i - 1 \<and> chat_counter s' = chat_counter s - 1)"
proof -
  have c: "connfd \<in> chat_clients s" using client_ix [OF i] fd by simp
  note range = chat_inv_users [OF inv c]
  define upd where "upd b = s\<lparr>chat_users := (chat_users s)(connfd := (chat_users s connfd)\<lparr>u_buf := Some b\<rparr>)\<rparr>" for b
  let ?zero = "replicate CHAT_BUFFER_SIZE NUL"
  have upd: "chat_inv listenfd (upd b)" "chat_clients (upd b) = chat_clients s" "chat_counter (upd b) = chat_counter s"
    "chat_net (upd b) = chat_net s"
    if "cstr b 0 = Inr str" "length b = CHAT_BUFFER_SIZE" for b str
    using chat_inv_buf [OF inv that, of connfd] by (simp_all add: upd_def)
  have z: "cstr ?zero 0 = Inr []" using padded_str [of "[]" CHAT_BUFFER_SIZE] by (simp add: CHAT_BUFFER_SIZE_def)
  note z0 = upd [OF z]
  have moves: "chat_moves listenfd {} s s'" if "chat_inv listenfd s'" "chat_clients s' = chat_clients s" "chat_net s' = chat_net s" for s'
    using that by (simp add: chat_moves_def closed_fds_def exI [of _ "[]"])
  have cast: "\<exists>s'. chat_broadcast connfd [1..chat_counter (upd b)] (upd b) = Inr s' \<and> chat_moves listenfd {} s s' \<and> chat_counter s' = chat_counter s"
    if "cstr b 0 = Inr str" "length b = CHAT_BUFFER_SIZE" for b str
    using chat_broadcast_clients [of listenfd "upd b" connfd] upd [OF that] c moves by auto
  show ?thesis
  proof (cases "ch_recv env connfd")
    case (Recv_bytes bs)
    let ?b = "bs @ replicate (CHAT_BUFFER_SIZE - length bs) NUL"
    have len: "length bs < CHAT_BUFFER_SIZE" using recv Recv_bytes by simp
    then have "put_bytes ?zero 0 bs = Inr ?b" by (simp add: put_bytes_def)
    with cast [OF padded_str [OF len]] len Recv_bytes range show ?thesis
      by (auto simp: chat_read_def chat_user_at_def upd_def Let_def)
  next
    case Recv_eof
    with cast [OF z] range show ?thesis by (auto simp: chat_read_def chat_user_at_def upd_def Let_def)
  next
    case Recv_again
    with z0 moves [of "upd ?zero"] range show ?thesis by (simp add: chat_read_def chat_user_at_def upd_def Let_def)
  next
    case Recv_error
    have "1 \<le> i" "i \<le> chat_counter (upd ?zero)" using i z0 by simp_all
    from chat_leave_moves [OF z0(1) this] z0 obtain s' where "chat_leave i (upd ?zero) = Inr s'" "chat_moves listenfd {} s s'"
      "chat_counter s' = chat_counter s - 1" by (auto simp: chat_moves_def)
    with Recv_error range show ?thesis by (simp add: chat_read_def chat_user_at_def upd_def Let_def)
  qed
qed

lemma chat_write_cases:
  assumes inv: "chat_inv listenfd s" and i: "1 \<le> i" "i \<le> chat_counter s" and fd: "connfd = p_fd (chat_fds s ! nat i)"
    and out: "p_revents (chat_fds s ! nat i) AND POLLOUT \<noteq> 0"
  shows "chat_write i connfd s = Inl UninitRead \<or>
    (\<exists>s'. chat_write i connfd s = Inr s' \<and> chat_moves listenfd {} s s' \<and> chat_counter s' = chat_counter s)"
proof -
  have c: "connfd \<in> chat_clients s" using client_ix [OF i] fd by simp
  note range = chat_inv_users [OF inv c]
  have ix: "nat i \<in> {1..nat (chat_counter s)}" "nat i < length (chat_fds s)"
    using i inv by (auto simp: chat_inv_def CHAT_USER_LIMIT_def)
  then have ok: "client_ok listenfd (chat_users s) (chat_fds s ! nat i)" using inv unfolding chat_inv_def by blast
  have us: "users_ok (chat_users s)" using inv by (simp add: chat_inv_def)
  show ?thesis
  proof (cases "u_write_buf (chat_users s connfd)")
    case WUninit
    with ok out fd show ?thesis by (simp add: client_ok_def)
  next
    case WNull
    then show ?thesis using range chat_moves_refl [OF inv] by (simp add: chat_write_def chat_user_at_def)
  next
    case (WBuf a)
    then have a: "0 \<le> a" "a < CHAT_FD_LIMIT" using us by (auto simp: users_ok_def)
    show ?thesis
    proof (cases "u_buf (chat_users s a)")
      case None
      then show ?thesis using WBuf a range by (simp add: chat_write_def chat_user_at_def)
    next
      case (Some b)
      with us obtain str where str: "cstr b 0 = Inr str" unfolding users_ok_def by blast
      let ?e = "chat_fds s ! nat i"
      define s' where "s' = s\<lparr>chat_users := (chat_users s)(connfd := (chat_users s connfd)\<lparr>u_write_buf := WNull\<rparr>),
        chat_net := emit (Send connfd str) (chat_net s),
        chat_fds := (chat_fds s)[nat i := ?e\<lparr>p_events := (p_events ?e OR NOT POLLOUT) OR POLLIN\<rparr>]\<rparr>"
      have "chat_write i connfd s = Inr s'"
        using WBuf Some a range str ix i by (simp add: chat_write_def chat_user_at_def pollfd_at_def s'_def)
      moreover have "chat_moves listenfd {} s s'"
      proof -
        have e: "p_fd (chat_fds s' ! k) = p_fd (chat_fds s ! k)" "p_revents (chat_fds s' ! k) = p_revents (chat_fds s ! k)"
          "k \<noteq> nat i \<Longrightarrow> chat_fds s' ! k = chat_fds s ! k" for k
          using ix by (cases "k = nat i"; simp add: s'_def)+
        have wb: "u_write_buf (chat_users s' k) \<noteq> WUninit" if "u_write_buf (chat_users s k) \<noteq> WUninit" for k
          using that by (simp add: s'_def)
        have ev: "p_events ?e AND POLLOUT \<noteq> 0" using ok out by (simp add: client_ok_def)
        then have "((p_events ?e OR NOT POLLOUT) OR POLLIN) AND POLLOUT \<noteq> 0" by (auto simp: bit_eq_iff bit_simps)
        then have ei: "p_events (chat_fds s' ! nat i) AND POLLOUT \<noteq> 0" using ix by (simp add: s'_def)
        have cl: "client_ok listenfd (chat_users s') (chat_fds s' ! k)" if "k \<in> {1..nat (chat_counter s)}" for k
        proof -
          have "client_ok listenfd (chat_users s) (chat_fds s ! k)" using inv that by (simp add: chat_inv_def)
          then show ?thesis using e [of k] ei wb ev unfolding client_ok_def by (cases "k = nat i") simp_all
        qed
        have "chat_counter s' = chat_counter s" "length (chat_fds s') = length (chat_fds s)" by (simp_all add: s'_def)
        moreover have "users_ok (chat_users s')" using us by (simp add: users_ok_def s'_def)
        moreover have "chat_fds s' ! 0 = chat_fds s ! 0" using i by (intro e(3)) simp
        ultimately have "chat_inv listenfd s'" using inv cl by (simp add: chat_inv_def e)
        moreover have "chat_clients s' = chat_clients s" unfolding chat_clients_def e by (simp add: s'_def)
        ultimately show ?thesis by (simp add: chat_moves_def closed_fds_def s'_def exI [of _ "[Send connfd str]"])
      qed
      ultimately show ?thesis by (simp add: s'_def)
    qed
  qed
qed

section \<open>One round\<close>

lemma chat_handle_client:
  assumes inv: "chat_inv listenfd s" and i: "1 \<le> i" "i \<le> chat_counter s"
    and recv: "\<forall>fd bs. ch_recv env fd = Recv_bytes bs \<longrightarrow> length bs < CHAT_BUFFER_SIZE"
  shows "chat_handle os listenfd env i s = Inl UninitRead \<or>
    (\<exists>i' s'. chat_handle os listenfd env i s = Inr (i', s') \<and> chat_moves listenfd {} s s' \<and>
      (i' = i \<and> chat_counter s' = chat_counter s \<or> i' = i - 1 \<and> chat_counter s' = chat_counter s - 1))"
proof -
  let ?e = "chat_fds s ! nat i"
  have at: "pollfd_at i s = Inr ?e" using i inv by (auto simp: pollfd_at_def chat_inv_def CHAT_USER_LIMIT_def)
  have "p_fd ?e \<noteq> listenfd" using chat_inv_users(3) [OF inv client_ix [OF i]] .
  then have h: "chat_handle os listenfd env i s =
     (if p_revents ?e AND POLLERR \<noteq> 0 then Inr (i, s)
      else if p_revents ?e AND POLLRDHUP \<noteq> 0 then map_res (Pair (i - 1)) (chat_leave i s)
      else if p_revents ?e AND POLLIN \<noteq> 0 then chat_read env i (p_fd ?e) s
      else if p_revents ?e AND POLLOUT \<noteq> 0 then map_res (Pair i) (chat_write i (p_fd ?e) s)
      else Inr (i, s))"
    by (simp add: chat_handle_def at)
  have r: "\<exists>i' s'. chat_read env i (p_fd ?e) s = Inr (i', s') \<and> chat_moves listenfd {} s s' \<and>
    (i' = i \<and> chat_counter s' = chat_counter s \<or> i' = i - 1 \<and> chat_counter s' = chat_counter s - 1)"
    using recv by (intro chat_read_cases [OF inv i refl]) simp
  show ?thesis
  proof (cases "p_revents ?e AND POLLERR = 0 \<and> p_revents ?e AND POLLRDHUP = 0 \<and> p_revents ?e AND POLLIN = 0 \<and> p_revents ?e AND POLLOUT \<noteq> 0")
    case True
    then show ?thesis using chat_write_cases [OF inv i refl] by (auto simp: h)
  next
    case False
    then show ?thesis using chat_leave_moves [OF inv i] r chat_moves_refl [OF inv] by (auto simp: h)
  qed
qed

lemma chat_moves_trans:
  assumes "chat_moves listenfd A s s1" and "chat_moves listenfd {} s1 s2"
  shows "chat_moves listenfd A s s2"
proof -
  obtain cs ds where "calls (chat_net s1) = calls (chat_net s) @ cs" "chat_clients s1 = (chat_clients s \<union> A) - closed_fds cs"
    "calls (chat_net s2) = calls (chat_net s1) @ ds" "chat_clients s2 = chat_clients s1 - closed_fds ds"
    using assms by (auto simp: chat_moves_def)
  moreover have "closed_fds (cs @ ds) = closed_fds cs \<union> closed_fds ds" by (auto simp: closed_fds_def)
  ultimately show ?thesis using assms(2) unfolding chat_moves_def by (intro conjI exI [of _ "cs @ ds"]) auto
qed

lemma chat_loop_clients:
  assumes "chat_inv listenfd s" "1 \<le> i"
    and recv: "\<forall>fd bs. ch_recv env fd = Recv_bytes bs \<longrightarrow> length bs < CHAT_BUFFER_SIZE"
  shows "chat_loop os listenfd env i s = Some (Inl UninitRead) \<or>
    (\<exists>s'. chat_loop os listenfd env i s = Some (Inr s') \<and> chat_moves listenfd {} s s')"
  using assms(1,2)
proof (induction "nat (chat_counter s + 1 - i)" arbitrary: s i rule: less_induct)
  case less
  show ?case
  proof (cases "i < chat_counter s + 1")
    case False
    then show ?thesis using chat_moves_refl [OF less.prems(1)] by (simp add: chat_loop.simps [of os listenfd env i s])
  next
    case True
    then have "i \<le> chat_counter s" by simp
    from chat_handle_client [OF less.prems this recv, of os] show ?thesis
    proof
      assume "chat_handle os listenfd env i s = Inl UninitRead"
      then show ?thesis using True by (simp add: chat_loop.simps [of os listenfd env i s])
    next
      assume "\<exists>i' s'. chat_handle os listenfd env i s = Inr (i', s') \<and> chat_moves listenfd {} s s' \<and>
        (i' = i \<and> chat_counter s' = chat_counter s \<or> i' = i - 1 \<and> chat_counter s' = chat_counter s - 1)"
      then obtain i' s' where h: "chat_handle os listenfd env i s = Inr (i', s')" and m: "chat_moves listenfd {} s s'"
        and c: "i' = i \<and> chat_counter s' = chat_counter s \<or> i' = i - 1 \<and> chat_counter s' = chat_counter s - 1" by blast
      have eq: "chat_loop os listenfd env i s = chat_loop os listenfd env (i' + 1) s'"
        using True h by (simp add: chat_loop.simps [of os listenfd env i s])
      have "chat_inv listenfd s'" using m by (simp add: chat_moves_def)
      moreover have "nat (chat_counter s' + 1 - (i' + 1)) < nat (chat_counter s + 1 - i)" "1 \<le> i' + 1"
        using c True less.prems(2) by auto
      ultimately show ?thesis using less.hyps [of s' "i' + 1"] chat_moves_trans [OF m] unfolding eq by blast
    qed
  qed
qed

section \<open>Properties\<close>

definition listen_reported :: "(nat \<Rightarrow> poll_flags) \<Rightarrow> bool" where
  "listen_reported revents \<longleftrightarrow> revents 0 AND POLLIN \<noteq> 0"

text \<open>C22. A round of the chat room, for every report of poll and all answers of accept and recv: it always ends,
  and in a state in which the poll set again has the listening socket in front and behind it, without gaps
  or repetitions, the descriptors of the clients: those from before and the one accepted, less those that
  were closed. The only undefined behaviour it can meet is a read of a buffer that was never written, through a
  pointer to the buffer of a sender.\<close>

theorem chat_round_safe:
  assumes "chat_inv listenfd s" "poll_ok revents s" "chat_env_ok listenfd env s"
  shows "chat_round os listenfd env revents s = Some (Inl UninitRead) \<or>
    (\<exists>s' cs. chat_round os listenfd env revents s = Some (Inr s') \<and> chat_inv listenfd s' \<and>
       calls (chat_net s') = calls (chat_net s) @ cs \<and>
       chat_clients s' = (chat_clients s \<union> {fd. listen_reported revents \<and> 0 \<le> fd \<and> fd = fst (ch_accept env)}) - closed_fds cs)"
proof -
  let ?s = "polled revents s" and ?A = "{fd. listen_reported revents \<and> 0 \<le> fd \<and> fd = fst (ch_accept env)}"
  note inv = polled_inv [OF assms(1,2)]
  have recv: "\<forall>fd bs. ch_recv env fd = Recv_bytes bs \<longrightarrow> length bs < CHAT_BUFFER_SIZE"
    using assms(3) by (auto simp: chat_env_ok_def)
  have front: "chat_fds ?s ! 0 = (chat_fds s ! 0)\<lparr>p_revents := revents 0\<rparr>"
    using assms(1) by (intro polled_nth) (auto simp: chat_inv_def)
  then have f: "p_fd (chat_fds ?s ! 0) = listenfd" "p_revents (chat_fds ?s ! 0) = revents 0"
    "revents 0 AND POLLRDHUP = 0" "revents 0 AND POLLOUT = 0"
    using inv(1) assms(1) by (auto simp: chat_inv_def front_ok_def)
  have at: "pollfd_at 0 ?s = Inr (chat_fds ?s ! 0)" and c: "0 \<le> chat_counter ?s" using inv(1) by (simp_all add: pollfd_at_def chat_inv_def)
  have "\<exists>s1. chat_handle os listenfd env 0 ?s = Inr (0, s1) \<and> chat_moves listenfd ?A ?s s1"
  proof (cases "listen_reported revents")
    case True
    have "\<exists>s1. chat_accept os (ch_accept env) ?s = Inr s1 \<and>
        chat_moves listenfd (if 0 \<le> fst (ch_accept env) then {fst (ch_accept env)} else {}) ?s s1"
      using assms(3) inv(2) by (intro chat_accept_moves [OF inv(1)]) (simp add: chat_env_ok_def)
    moreover have "?A = (if 0 \<le> fst (ch_accept env) then {fst (ch_accept env)} else {})" using True by auto
    ultimately show ?thesis using True by (auto simp: chat_handle_def at f listen_reported_def)
  next
    case False
    then have "?A = {}" by simp
    with False show ?thesis using chat_moves_refl [OF inv(1)] by (simp add: chat_handle_def at f listen_reported_def)
  qed
  then obtain s1 where h: "chat_handle os listenfd env 0 ?s = Inr (0, s1)" and m: "chat_moves listenfd ?A ?s s1" by blast
  have "chat_round os listenfd env revents s = chat_loop os listenfd env 1 s1"
    using c h by (simp add: chat_round_def chat_loop.simps [of os listenfd env 0 ?s])
  moreover have "chat_inv listenfd s1" using m by (simp add: chat_moves_def)
  ultimately have "chat_round os listenfd env revents s = Some (Inl UninitRead) \<or>
      (\<exists>s'. chat_round os listenfd env revents s = Some (Inr s') \<and> chat_moves listenfd ?A ?s s')"
    using chat_loop_clients [of listenfd s1 1, OF _ _ recv, of os] chat_moves_trans [OF m] by auto
  then show ?thesis by (simp add: chat_moves_def inv(2))
qed

lemma chat_start_inv:
  assumes "users_ok us"
  shows "chat_inv listenfd (chat_start listenfd junk us)" and "chat_clients (chat_start listenfd junk us) = {}"
  using assms by (simp_all add: chat_inv_def chat_start_def CHAT_USER_LIMIT_def front_ok_def chat_clients_def)

text \<open>A room with the clients 7 and 8, of which only 7 has written something; its message to 8 is pending.\<close>

definition sample_chat :: chat where
  "sample_chat = \<lparr>chat_counter = 2,
     chat_fds = \<lparr>p_fd = 3, p_events = POLLIN OR POLLERR, p_revents = 0\<rparr> #
       \<lparr>p_fd = 7, p_events = POLLIN OR POLLRDHUP OR POLLERR, p_revents = POLLIN\<rparr> #
       \<lparr>p_fd = 8, p_events = POLLIN OR POLLRDHUP OR POLLERR OR POLLOUT, p_revents = 0\<rparr> #
       replicate 3 \<lparr>p_fd = -1, p_events = 0, p_revents = 0\<rparr>,
     chat_users = (\<lambda>fd. \<lparr>u_address = 0, u_write_buf = (if fd = 8 then WBuf 7 else WUninit),
       u_buf = (if fd = 7 then Some (CHR ''x'' # replicate 63 NUL) else None)\<rparr>),
     chat_net = \<lparr>m_epollfd = 0, m_user_count = 0, calls = []\<rparr>\<rparr>"

lemma sample_chat_inv: "chat_inv 3 sample_chat" "chat_clients sample_chat = {7, 8}"
proof -
  have x: "cstr (CHR ''x'' # replicate 63 NUL) 0 = Inr ''x''"
    using padded_str [of "''x''" 64] by (simp add: numeral_eq_Suc)
  have ks: "{1..2} = {1, 2 :: nat}" by auto
  have "chat_counter sample_chat = int 2" by (simp add: sample_chat_def)
  note n = chat_inv_n [OF this, unfolded ks]
  have f: "chat_fds sample_chat ! 0 = \<lparr>p_fd = 3, p_events = POLLIN OR POLLERR, p_revents = 0\<rparr>"
    "chat_fds sample_chat ! 1 = \<lparr>p_fd = 7, p_events = POLLIN OR POLLRDHUP OR POLLERR, p_revents = POLLIN\<rparr>"
    "chat_fds sample_chat ! 2 = \<lparr>p_fd = 8, p_events = POLLIN OR POLLRDHUP OR POLLERR OR POLLOUT, p_revents = 0\<rparr>"
    by (simp_all add: sample_chat_def)
  have "users_ok (chat_users sample_chat)" using x
    by (simp add: sample_chat_def users_ok_def CHAT_FD_LIMIT_def CHAT_BUFFER_SIZE_def)
  moreover have "length (chat_fds sample_chat) = 6" "u_write_buf (chat_users sample_chat 8) \<noteq> WUninit"
    by (simp_all add: sample_chat_def)
  ultimately show "chat_inv 3 sample_chat" unfolding n
    by (simp add: f f(2) [unfolded One_nat_def] front_ok_def client_ok_def CHAT_FD_LIMIT_def poll_defs)
  show "chat_clients sample_chat = {7, 8}" unfolding n by (simp add: f f(2) [unfolded One_nat_def])
qed

lemma chat_round_safe_witness:
  "\<exists>s' cs. chat_round sample_os 3 \<lparr>ch_accept = (9, 0), ch_recv = (\<lambda>_. Recv_eof)\<rparr>
      (\<lambda>k. if k = 0 then POLLIN else 0) (chat_start 3 \<lparr>p_fd = 1, p_events = 2, p_revents = 3\<rparr> (chat_users sample_chat)) = Some (Inr s') \<and>
     chat_clients s' = {9} - closed_fds cs \<and> calls (chat_net s') = cs"
proof -
  let ?us = "chat_users sample_chat" and ?j = "\<lparr>p_fd = 1, p_events = 2, p_revents = 3\<rparr>"
  let ?env = "\<lparr>ch_accept = (9, 0), ch_recv = (\<lambda>_. Recv_eof)\<rparr> :: chat_env" and ?rev = "\<lambda>k :: nat. if k = 0 then POLLIN else 0"
  have "users_ok ?us" using sample_chat_inv by (simp add: chat_inv_def)
  note st = chat_start_inv [OF this, of 3 ?j]
  have p: "poll_ok ?rev (chat_start 3 ?j ?us)" by (simp add: poll_ok_def chat_start_def poll_defs)
  have e: "chat_env_ok 3 ?env (chat_start 3 ?j ?us)" by (simp add: chat_env_ok_def st CHAT_FD_LIMIT_def)
  have "chat_round sample_os 3 ?env ?rev (chat_start 3 ?j ?us) \<noteq> Some (Inl UninitRead)"
    by (simp add: chat_round_def chat_loop.simps [of _ _ _ 0] chat_loop.simps [of _ _ _ 1] chat_loop.simps [of _ _ _ 2]
        chat_handle_def pollfd_at_def polled_def chat_start_def chat_accept_def chat_user_at_def CHAT_USER_LIMIT_def
        CHAT_FD_LIMIT_def upt_rec poll_defs)
  moreover have "calls (chat_net (chat_start 3 ?j ?us)) = []" "{fd :: int. 0 \<le> fd \<and> fd = 9} = {9}" by (auto simp: chat_start_def)
  ultimately show ?thesis using chat_round_safe [OF st(1) p e, of sample_os]
    by (auto simp: st(2) listen_reported_def POLLIN_def)
qed

text \<open>Several clients that can be written to, one after the other.\<close>

fun chat_write_each :: "int list \<Rightarrow> chat \<Rightarrow> chat res" where
  "chat_write_each [] s = Inr s"
| "chat_write_each (j # js) s = bind_res (pollfd_at j s) (\<lambda>e. bind_res (chat_write j (p_fd e) s) (chat_write_each js))"

lemma chat_write_each_pending:
  assumes "u_buf (chat_users s a) = Some b" "cstr b 0 = Inr str" "0 \<le> a" "a < CHAT_FD_LIMIT"
    and "\<And>j. p_fd (chat_fds s ! nat j) = fd j" and "distinct (map fd js)"
    and "\<forall>j \<in> set js. 0 \<le> j \<and> j < int (length (chat_fds s)) \<and> 0 \<le> fd j \<and> fd j < CHAT_FD_LIMIT \<and>
      u_write_buf (chat_users s (fd j)) = WBuf a"
  shows "\<exists>s'. chat_write_each js s = Inr s' \<and> calls (chat_net s') = calls (chat_net s) @ map (\<lambda>j. Send (fd j) str) js"
  using assms
proof (induction js arbitrary: s)
  case (Cons j js)
  let ?e = "chat_fds s ! nat j" and ?u = "chat_users s"
  define s1 where "s1 = s\<lparr>chat_users := ?u(fd j := (?u (fd j))\<lparr>u_write_buf := WNull\<rparr>),
    chat_net := emit (Send (fd j) str) (chat_net s),
    chat_fds := (chat_fds s)[nat j := ?e\<lparr>p_events := (p_events ?e OR NOT POLLOUT) OR POLLIN\<rparr>]\<rparr>"
  have at: "pollfd_at j s = Inr ?e" using Cons.prems(7) by (simp add: pollfd_at_def)
  have w: "chat_write j (p_fd ?e) s = Inr s1"
    using Cons.prems at by (simp add: chat_write_def chat_user_at_def s1_def)
  have "\<exists>s'. chat_write_each js s1 = Inr s' \<and> calls (chat_net s') = calls (chat_net s1) @ map (\<lambda>j. Send (fd j) str) js"
  proof (rule Cons.IH)
    show "u_buf (chat_users s1 a) = Some b" using Cons.prems(1) by (auto simp: s1_def)
    show "p_fd (chat_fds s1 ! nat k) = fd k" for k
    proof (cases "nat k = nat j")
      case True
      have "nat j < length (chat_fds s)" using Cons.prems(7) by auto
      then have "p_fd (chat_fds s1 ! nat k) = p_fd (chat_fds s ! nat k)" by (simp add: s1_def True)
      then show ?thesis unfolding Cons.prems(5) .
    next
      case False
      then have "chat_fds s1 ! nat k = chat_fds s ! nat k" by (simp add: s1_def)
      then show ?thesis by (simp only: Cons.prems(5))
    qed
    show "\<forall>k \<in> set js. 0 \<le> k \<and> k < int (length (chat_fds s1)) \<and> 0 \<le> fd k \<and> fd k < CHAT_FD_LIMIT \<and>
      u_write_buf (chat_users s1 (fd k)) = WBuf a"
    proof
      fix k assume k: "k \<in> set js"
      then have "fd k \<in> fd ` set js" by simp
      then have "fd k \<noteq> fd j" using Cons.prems(6) by auto
      with k Cons.prems(7) show "0 \<le> k \<and> k < int (length (chat_fds s1)) \<and> 0 \<le> fd k \<and> fd k < CHAT_FD_LIMIT \<and>
        u_write_buf (chat_users s1 (fd k)) = WBuf a" by (simp add: s1_def)
    qed
  qed (use Cons.prems in auto)
  with at w show ?case by (auto simp: s1_def)
qed simp

text \<open>C23. A message without NUL bytes that a client sends reaches every other client whole: handling the
  sender's data and then writing to any of the other clients, one after the other and in any order, sends
  each of them exactly the bytes received, and nothing else is sent.\<close>

theorem chat_delivers:
  assumes inv: "chat_inv listenfd s" and i: "1 \<le> i" "i \<le> chat_counter s" and c: "connfd = p_fd (chat_fds s ! nat i)"
    and r: "ch_recv env connfd = Recv_bytes bs" "length bs < CHAT_BUFFER_SIZE" "NUL \<notin> set bs"
    and js: "distinct js" "set js \<subseteq> {1..chat_counter s} - {i}"
  shows "\<exists>s1 s2. chat_read env i connfd s = Inr (i, s1) \<and> chat_counter s1 = chat_counter s \<and> chat_net s1 = chat_net s \<and>
    chat_write_each js s1 = Inr s2 \<and>
    calls (chat_net s2) = calls (chat_net s) @ map (\<lambda>j. Send (p_fd (chat_fds s ! nat j)) bs) js"
proof -
  have cc: "connfd \<in> chat_clients s" using client_ix [OF i] c by simp
  let ?b = "bs @ replicate (CHAT_BUFFER_SIZE - length bs) NUL"
  have str: "cstr ?b 0 = Inr bs" using padded_str [OF r(2)] r(3) by (simp add: takeWhile_eq_all_conv) (metis takeWhile_eq_all_conv)
  define s0 where "s0 = s\<lparr>chat_users := (chat_users s)(connfd := (chat_users s connfd)\<lparr>u_buf := Some ?b\<rparr>)\<rparr>"
  have s0: "chat_inv listenfd s0" "chat_clients s0 = chat_clients s" "chat_counter s0 = chat_counter s"
    "chat_net s0 = chat_net s" "chat_fds s0 = chat_fds s" "u_buf (chat_users s0 connfd) = Some ?b"
    using chat_inv_buf [OF inv str, of connfd] r(2) by (simp_all add: s0_def)
  obtain s1 where s1: "chat_broadcast connfd [1..chat_counter s0] s0 = Inr s1" "chat_inv listenfd s1" "chat_counter s1 = chat_counter s"
    "chat_net s1 = chat_net s" "\<And>k. p_fd (chat_fds s1 ! k) = p_fd (chat_fds s ! k)"
    "\<And>fd. chat_users s1 fd = (if fd \<in> chat_clients s - {connfd} then (chat_users s0 fd)\<lparr>u_write_buf := WBuf connfd\<rparr> else chat_users s0 fd)"
    using chat_broadcast_clients [OF s0(1), of connfd] cc unfolding s0(2-5) by blast
  note range = chat_inv_users [OF inv cc]
  have "put_bytes (replicate CHAT_BUFFER_SIZE NUL) 0 bs = Inr ?b" using r(2) by (simp add: put_bytes_def)
  then have run: "chat_read env i connfd s = Inr (i, s1)"
    using r(1) range s1(1) by (simp add: chat_read_def chat_user_at_def Let_def s0_def)
  let ?fd = "\<lambda>j. p_fd (chat_fds s ! nat j)"
  have inj: "inj_on ?fd {1..chat_counter s}"
  proof (rule inj_onI)
    fix j k assume "j \<in> {1..chat_counter s}" "k \<in> {1..chat_counter s}" "?fd j = ?fd k"
    moreover from this have "nat j \<in> {1..nat (chat_counter s)}" "nat k \<in> {1..nat (chat_counter s)}" by auto
    ultimately have "nat j = nat k" using inv unfolding chat_inv_def by (auto dest: inj_onD)
    with \<open>j \<in> _\<close> \<open>k \<in> _\<close> show "j = k" by auto
  qed
  have "\<exists>s2. chat_write_each js s1 = Inr s2 \<and> calls (chat_net s2) = calls (chat_net s1) @ map (\<lambda>j. Send (?fd j) bs) js"
  proof (rule chat_write_each_pending [OF _ str, of _ connfd])
    show "u_buf (chat_users s1 connfd) = Some ?b" using s0(6) by (simp add: s1(6))
    show "distinct (map ?fd js)" using js inj by (auto simp: distinct_map intro: inj_on_subset)
    show "\<forall>j \<in> set js. 0 \<le> j \<and> j < int (length (chat_fds s1)) \<and> 0 \<le> ?fd j \<and> ?fd j < CHAT_FD_LIMIT \<and>
      u_write_buf (chat_users s1 (?fd j)) = WBuf connfd"
    proof
      fix j assume "j \<in> set js"
      with js(2) have j: "j \<in> {1..chat_counter s}" "j \<noteq> i" by auto
      then have d: "?fd j \<in> chat_clients s" by (intro client_ix) simp_all
      have "?fd j \<noteq> connfd" using inj_onD [OF inj, of j i] j i c by auto
      with d j chat_inv_users [OF inv d] s1(2,3)
      show "0 \<le> j \<and> j < int (length (chat_fds s1)) \<and> 0 \<le> ?fd j \<and> ?fd j < CHAT_FD_LIMIT \<and>
        u_write_buf (chat_users s1 (?fd j)) = WBuf connfd"
        by (auto simp: s1(6) chat_inv_def CHAT_USER_LIMIT_def)
    qed
  qed (use range s1(5) in auto)
  with run s1(3,4) show ?thesis by auto
qed

text \<open>A room of three clients, of whom the first has something to say.\<close>

definition three_clients :: chat where
  "three_clients = \<lparr>chat_counter = 3,
     chat_fds = \<lparr>p_fd = 3, p_events = POLLIN OR POLLERR, p_revents = 0\<rparr> #
       map (\<lambda>fd. \<lparr>p_fd = fd, p_events = POLLIN OR POLLRDHUP OR POLLERR, p_revents = (if fd = 7 then POLLIN else 0)\<rparr>) [7, 8, 9] @
       replicate 2 \<lparr>p_fd = -1, p_events = 0, p_revents = 0\<rparr>,
     chat_users = (\<lambda>_. \<lparr>u_address = 0, u_write_buf = WNull, u_buf = None\<rparr>),
     chat_net = \<lparr>m_epollfd = 0, m_user_count = 0, calls = []\<rparr>\<rparr>"

lemma three_clients_inv: "chat_inv 3 three_clients"
proof -
  have ks: "{1..3} = {1, 2, 3 :: nat}" by auto
  have "chat_counter three_clients = int 3" by (simp add: three_clients_def)
  note n = chat_inv_n [OF this, unfolded ks]
  have f: "chat_fds three_clients ! 0 = \<lparr>p_fd = 3, p_events = POLLIN OR POLLERR, p_revents = 0\<rparr>"
    "chat_fds three_clients ! 1 = \<lparr>p_fd = 7, p_events = POLLIN OR POLLRDHUP OR POLLERR, p_revents = POLLIN\<rparr>"
    "chat_fds three_clients ! 2 = \<lparr>p_fd = 8, p_events = POLLIN OR POLLRDHUP OR POLLERR, p_revents = 0\<rparr>"
    "chat_fds three_clients ! 3 = \<lparr>p_fd = 9, p_events = POLLIN OR POLLRDHUP OR POLLERR, p_revents = 0\<rparr>"
    by (simp_all add: three_clients_def)
  have "users_ok (chat_users three_clients)" by (simp add: three_clients_def users_ok_def)
  moreover have "length (chat_fds three_clients) = 6" "u_write_buf (chat_users three_clients k) \<noteq> WUninit" for k
    by (simp_all add: three_clients_def)
  ultimately show ?thesis unfolding n
    by (simp add: f f(2) [unfolded One_nat_def] front_ok_def client_ok_def CHAT_FD_LIMIT_def poll_defs)
qed

lemma chat_delivers_witness:
  "\<exists>s1 s2. chat_read \<lparr>ch_accept = (9, 0), ch_recv = (\<lambda>_. Recv_bytes ''hi'')\<rparr> 1 7 three_clients = Inr (1, s1) \<and>
     chat_write_each [3, 2] s1 = Inr s2 \<and> calls (chat_net s2) = [Send 9 ''hi'', Send 8 ''hi'']"
proof -
  let ?env = "\<lparr>ch_accept = (9, 0), ch_recv = (\<lambda>_. Recv_bytes ''hi'')\<rparr> :: chat_env"
  have f: "p_fd (chat_fds three_clients ! nat 1) = 7" "p_fd (chat_fds three_clients ! nat 2) = 8" "p_fd (chat_fds three_clients ! nat 3) = 9"
    "chat_counter three_clients = 3" "calls (chat_net three_clients) = []" by (simp_all add: three_clients_def eval_nat_numeral)
  have "1 \<le> (1 :: int)" "1 \<le> chat_counter three_clients" "ch_recv ?env 7 = Recv_bytes ''hi''" "length ''hi'' < CHAT_BUFFER_SIZE"
    "NUL \<notin> set ''hi''" "distinct [3, 2 :: int]" "set [3, 2] \<subseteq> {1..chat_counter three_clients} - {1}"
    by (simp_all add: f CHAT_BUFFER_SIZE_def)
  note h = this
  from chat_delivers [OF three_clients_inv h(1,2) f(1) [symmetric] h(3-7)] show ?thesis
    by (auto simp: f simp del: chat_write_each.simps nat_numeral)
qed

text \<open>C24. A client b that waits for the message of a sender a, when a leaves: b's pointer still leads to
  the buffer of a's descriptor, but there now stands a copy of the last client's buffer. So b is sent the last text
  of that client, which need not be the message, and when that client never wrote anything the behaviour is
  undefined.\<close>

theorem chat_sender_left:
  assumes inv: "chat_inv listenfd s" and i: "1 \<le> i" "i \<le> chat_counter s" and a: "a = p_fd (chat_fds s ! nat i)"
    and b: "b \<in> chat_clients s" "b \<noteq> a" "u_write_buf (chat_users s b) = WBuf a"
    and k: "1 \<le> k" "k < chat_counter s"
  shows "\<exists>s1. chat_leave i s = Inr s1 \<and>
    chat_write k b s1 = (case u_buf (chat_users s (p_fd (chat_fds s ! nat (chat_counter s)))) of
        None \<Rightarrow> Inl UninitRead
      | Some m \<Rightarrow> bind_res (cstr m 0) (\<lambda>str. Inr (s1\<lparr>chat_users := (chat_users s1)(b := (chat_users s1 b)\<lparr>u_write_buf := WNull\<rparr>),
          chat_net := emit (Send b str) (chat_net s1),
          chat_fds := (chat_fds s1)[nat k := (chat_fds s1 ! nat k)\<lparr>p_events := (p_events (chat_fds s1 ! nat k) OR NOT POLLOUT) OR POLLIN\<rparr>]\<rparr>)))"
proof -
  let ?l = "p_fd (chat_fds s ! nat (chat_counter s))"
  have ac: "a \<in> chat_clients s" "?l \<in> chat_clients s" using client_ix [OF i] client_ix [of "chat_counter s" s] a i by simp_all
  note ra = chat_inv_users [OF inv ac(1)] and rl = chat_inv_users [OF inv ac(2)] and rb = chat_inv_users [OF inv b(1)]
  have len: "length (chat_fds s) = 6" "chat_counter s \<le> 5" using inv by (simp_all add: chat_inv_def CHAT_USER_LIMIT_def)
  define s1 where "s1 = s\<lparr>chat_users := (chat_users s)(a := chat_users s ?l), chat_net := emit (Close a) (chat_net s),
    chat_fds := (chat_fds s)[nat i := chat_fds s ! nat (chat_counter s)], chat_counter := chat_counter s - 1\<rparr>"
  have run: "chat_leave i s = Inr s1"
    using i len ra rl a by (simp add: chat_leave_def pollfd_at_def chat_user_at_def s1_def)
  have ub: "chat_users s1 b = chat_users s b" "chat_users s1 a = chat_users s ?l" using b(2) by (simp_all add: s1_def)
  have at: "pollfd_at k s1 = Inr (chat_fds s1 ! nat k)" using k len by (simp add: pollfd_at_def s1_def)
  show ?thesis using run ub at b(3) ra rb
    by (intro exI [of _ s1]) (simp add: chat_write_def chat_user_at_def split: option.splits)
qed

lemma chat_sender_left_witness:
  "\<exists>s1. chat_leave 1 sample_chat = Inr s1 \<and> chat_write 1 8 s1 = Inl UninitRead"
proof -
  have f: "p_fd (chat_fds sample_chat ! nat 1) = 7" "p_fd (chat_fds sample_chat ! 2) = 8" "chat_counter sample_chat = 2"
    "u_write_buf (chat_users sample_chat 8) = WBuf 7" "u_buf (chat_users sample_chat 8) = None" by (simp_all add: sample_chat_def)
  have h: "8 \<in> chat_clients sample_chat" "(8 :: int) \<noteq> 7" "1 \<le> (1 :: int)" "1 \<le> chat_counter sample_chat" "1 < chat_counter sample_chat"
    by (simp_all add: sample_chat_inv f)
  from chat_sender_left [OF sample_chat_inv(1) h(3,4) f(1) [symmetric] h(1,2) f(4) h(3,5)] show ?thesis by (simp add: f)
qed

end
