(* ===== verification/Subprocess_Chat.thy ===== *)
theory Subprocess_Chat
  imports Http_Types Transitions
begin

unbundle bit_operations_syntax

text \<open>
  The chat room of \<^verbatim>\<open>src/src/execution/subprocess_chat_room.cpp\<close>: a server that forks for each
  client, the processes of the clients, and the memory they share, one segment per client. The pipes carry
  the index of the client whose segment is to be passed on.
\<close>

section \<open>The server\<close>

definition ROOM_USER_LIMIT :: int where "ROOM_USER_LIMIT = 5"
definition ROOM_BUFFER_SIZE :: nat where "ROOM_BUFFER_SIZE = 0x400"
definition PROCESS_LIMIT :: int where "PROCESS_LIMIT = 0xffff"
definition TERM_SIGNAL :: nat where "TERM_SIGNAL = 15"

record room_client =
  rc_address :: nat
  rc_connfd :: int
  rc_pid :: int
  rc_pipefd :: "int \<times> int"

text \<open>The last component is not of the code: the children that fork has given the process, which wait can report.\<close>

record room =
  room_users :: "room_client list"
  room_processes :: "int \<Rightarrow> int"
  room_count :: int
  stop_server :: bool
  terminate :: bool
  room_net :: world
  room_children :: "int set"

definition room_addfd :: "os \<Rightarrow> int \<Rightarrow> int \<Rightarrow> world \<Rightarrow> world" where
  "room_addfd os epollfd fd w = snd (setnonblocking os fd (emit (Epoll_add epollfd fd (EPOLLIN OR EPOLLET)) w))"

definition room_start :: "os \<Rightarrow> int \<Rightarrow> int \<Rightarrow> int \<times> int \<Rightarrow> room_client list \<Rightarrow> room" where
  "room_start os listenfd epollfd sig_pipefd junk =
     \<lparr>room_users = junk, room_processes = (\<lambda>_. -1), room_count = 0, stop_server = False, terminate = False,
      room_net = room_addfd os epollfd (fst sig_pipefd) (snd (setnonblocking os (snd sig_pipefd)
        (room_addfd os epollfd listenfd \<lparr>m_epollfd = epollfd, m_user_count = 0, calls = []\<rparr>))),
      room_children = {}\<rparr>"

definition room_user_at :: "int \<Rightarrow> room \<Rightarrow> room_client res" where
  "room_user_at i s = (if 0 \<le> i \<and> i < int (length (room_users s)) then Inr (room_users s ! nat i) else Inl OutOfBounds)"

definition room_process_at :: "int \<Rightarrow> room \<Rightarrow> int res" where
  "room_process_at pid s = (if 0 \<le> pid \<and> pid < PROCESS_LIMIT then Inr (room_processes s pid) else Inl OutOfBounds)"

text \<open>
  A new connection, with what accept, socketpair and fork return. The process for which fork returned a
  pid, the parent, goes on as the process of the client; the one for which it returned 0 goes on as the
  server.
\<close>

record room_arrival =
  ra_connfd :: int
  ra_address :: nat
  ra_pipefd :: "int \<times> int"
  ra_fork :: int

datatype room_label = Joined | Turned_away | No_change

datatype room_next = Goes_on room_label room | Serves int room

definition room_accept :: "os \<Rightarrow> int \<Rightarrow> int \<times> int \<Rightarrow> room_arrival \<Rightarrow> room \<Rightarrow> room_next res" where
  "room_accept os listenfd sig_pipefd a s =
     (let connfd = ra_connfd a; n = room_count s; net = room_net s; pipefd = ra_pipefd a in
      if connfd < 0 then Inr (Goes_on No_change s)
      else if n \<ge> ROOM_USER_LIMIT
        then Inr (Goes_on Turned_away (s\<lparr>room_net := emit (Send connfd (''too many users'' @ [LF])) net\<rparr>))
      else bind_res (room_user_at n s) (\<lambda>u.
        let u1 = u\<lparr>rc_address := ra_address a, rc_connfd := connfd, rc_pipefd := pipefd\<rparr>;
            s1 = s\<lparr>room_users := (room_users s)[nat n := u1]\<rparr> in
        if ra_fork a < 0 then Inr (Goes_on No_change (s1\<lparr>room_net := emit (Close connfd) net\<rparr>))
        else if ra_fork a \<noteq> 0 then
          Inr (Serves n (s1\<lparr>room_children := insert (ra_fork a) (room_children s),
            room_net := foldl (\<lambda>w fd. emit (Close fd) w) net
              [m_epollfd net, listenfd, fst pipefd, fst sig_pipefd, snd sig_pipefd]\<rparr>))
        else bind_res (room_process_at (ra_fork a) s1) (\<lambda>_.
          Inr (Goes_on Joined (s1\<lparr>
            room_net := room_addfd os (m_epollfd net) (fst pipefd) (emit (Close (snd pipefd)) (emit (Close connfd) net)),
            room_users := (room_users s)[nat n := u1\<lparr>rc_pid := ra_fork a\<rparr>],
            room_processes := (room_processes s)(ra_fork a := n), room_count := n + 1\<rparr>)))))"

text \<open>The signals: with SIGCHLD the pids that waitpid returns one after the other.\<close>

datatype room_signal = R_child "int list" | R_term | R_other

fun room_reclaim :: "int list \<Rightarrow> room \<Rightarrow> room res" where
  "room_reclaim [] s = Inr s"
| "room_reclaim (pid # pids) s =
     bind_res (room_process_at pid s) (\<lambda>del_user.
     let s1 = s\<lparr>room_processes := (room_processes s)(pid := -1)\<rparr> in
     if del_user < 0 \<or> del_user > ROOM_USER_LIMIT then room_reclaim pids s1
     else bind_res (room_user_at del_user s1) (\<lambda>u.
       let net = emit (Close (fst (rc_pipefd u))) (emit (Epoll_del (m_epollfd (room_net s)) (fst (rc_pipefd u))) (room_net s));
           n = room_count s - 1 in
       bind_res (room_user_at n s1) (\<lambda>l.
       bind_res (room_process_at (rc_pid l) s1) (\<lambda>_.
       room_reclaim pids (s1\<lparr>room_net := net, room_count := n, room_users := (room_users s)[nat del_user := l],
         room_processes := (room_processes s1)(rc_pid l := del_user)\<rparr>)))))"

fun room_kill :: "int list \<Rightarrow> room \<Rightarrow> room res" where
  "room_kill [] s = Inr s"
| "room_kill (i # is) s =
     bind_res (room_user_at i s) (\<lambda>u. room_kill is (s\<lparr>room_net := emit (Kill (rc_pid u) TERM_SIGNAL) (room_net s)\<rparr>))"

definition room_signal :: "room_signal \<Rightarrow> room \<Rightarrow> room res" where
  "room_signal sig s =
     (case sig of
        R_child pids \<Rightarrow> bind_res (room_reclaim pids s) (\<lambda>s1.
          Inr (if terminate s1 \<and> room_count s1 = 0 then s1\<lparr>stop_server := True\<rparr> else s1))
      | R_term \<Rightarrow>
          if room_count s = 0 then Inr (s\<lparr>stop_server := True\<rparr>)
          else map_res (\<lambda>s1. s1\<lparr>terminate := True\<rparr>) (room_kill [0..room_count s - 1] s)
      | R_other \<Rightarrow> Inr s)"

fun room_signals :: "room_signal list \<Rightarrow> room \<Rightarrow> room res" where
  "room_signals [] s = Inr s"
| "room_signals (sig # sigs) s = bind_res (room_signal sig s) (room_signals sigs)"

text \<open>The message of a client's process: its number goes to every other one.\<close>

fun room_forward :: "int \<Rightarrow> int \<Rightarrow> int list \<Rightarrow> room \<Rightarrow> room res" where
  "room_forward sockfd child [] s = Inr s"
| "room_forward sockfd child (j # js) s =
     bind_res (room_user_at j s) (\<lambda>u.
       room_forward sockfd child js
         (if fst (rc_pipefd u) \<noteq> sockfd then s\<lparr>room_net := emit (Send_int (fst (rc_pipefd u)) child) (room_net s)\<rparr> else s))"

text \<open>One event; recv on a pipe gives the number, or None after a failure or the end.\<close>

record room_event =
  re_fd :: int
  re_flags :: flags
  re_arrival :: room_arrival
  re_signals :: "room_signal list"
  re_recv :: "int option"

definition room_handle :: "os \<Rightarrow> int \<Rightarrow> int \<times> int \<Rightarrow> room_event \<Rightarrow> room \<Rightarrow> room_next res" where
  "room_handle os listenfd sig_pipefd e s =
     (let sockfd = re_fd e in
      if sockfd = listenfd then room_accept os listenfd sig_pipefd (re_arrival e) s
      else if sockfd = fst sig_pipefd \<and> re_flags e AND EPOLLIN \<noteq> 0
        then map_res (Goes_on No_change) (room_signals (re_signals e) s)
      else if re_flags e AND EPOLLIN \<noteq> 0
        then (case re_recv e of
                None \<Rightarrow> Inr (Goes_on No_change s)
              | Some child \<Rightarrow> map_res (Goes_on No_change) (room_forward sockfd child [0..room_count s - 1] s))
      else Inr (Goes_on No_change s))"

text \<open>After the loop: the descriptors are closed. The arrays from malloc are then given to delete[], which is undefined.\<close>

definition del_resource :: "int \<Rightarrow> int \<times> int \<Rightarrow> room \<Rightarrow> room" where
  "del_resource listenfd sig_pipefd s = s\<lparr>room_net := foldl (\<lambda>w fd. emit (Close fd) w) (room_net s)
     [fst sig_pipefd, snd sig_pipefd, listenfd, m_epollfd (room_net s)]\<rparr>"

text \<open>
  The process that goes on as the server. waitpid only reports children of the process that calls it.
\<close>

definition reaps :: "room_signal \<Rightarrow> int set" where
  "reaps sig = (case sig of R_child pids \<Rightarrow> set pids | _ \<Rightarrow> {})"

inductive room_step :: "os \<Rightarrow> int \<Rightarrow> int \<times> int \<Rightarrow> room \<Rightarrow> room_label \<Rightarrow> room option \<Rightarrow> bool"
  for os :: os and listenfd :: int and sig_pipefd :: "int \<times> int" where
  event: "(\<Union>sig \<in> set (re_signals e). reaps sig) \<subseteq> room_children s \<Longrightarrow>
    room_handle os listenfd sig_pipefd e s = Inr (Goes_on l s') \<Longrightarrow> room_step os listenfd sig_pipefd s l (Some s')"
| event_undefined: "(\<Union>sig \<in> set (re_signals e). reaps sig) \<subseteq> room_children s \<Longrightarrow>
    room_handle os listenfd sig_pipefd e s = Inl u \<Longrightarrow> room_step os listenfd sig_pipefd s No_change None"

section \<open>The process of a client\<close>

record room_child =
  k_idx :: int
  k_connfd :: int
  k_pipefd :: int
  k_epollfd :: int
  stop_child :: bool
  k_net :: world

definition start_room_child :: "os \<Rightarrow> int \<Rightarrow> int \<Rightarrow> room_client list \<Rightarrow> world \<Rightarrow> room_child res" where
  "start_room_child os epollfd idx users w =
     (if \<not> (0 \<le> idx \<and> idx < int (length users)) then Inl OutOfBounds
      else let u = users ! nat idx in
        Inr \<lparr>k_idx = idx, k_connfd = rc_connfd u, k_pipefd = snd (rc_pipefd u), k_epollfd = epollfd, stop_child = False,
             k_net = room_addfd os epollfd (snd (rc_pipefd u)) (room_addfd os epollfd (rc_connfd u) w)\<rparr>)"

text \<open>The handler of SIGTERM in a client's process.\<close>

definition child_term_handler :: "room_child \<Rightarrow> room_child" where
  "child_term_handler s = s\<lparr>stop_child := True\<rparr>"

definition segment_at :: "int \<Rightarrow> buf list \<Rightarrow> buf res" where
  "segment_at i shm = (if 0 \<le> i \<and> i < int (length shm) then Inr (shm ! nat i) else Inl OutOfBounds)"

text \<open>Data of the client: it is written to the client's own segment.\<close>

definition room_child_read :: "recv_answer \<Rightarrow> room_child \<Rightarrow> buf list \<Rightarrow> (room_child \<times> buf list) res" where
  "room_child_read answer s shm =
     (let zero = replicate ROOM_BUFFER_SIZE NUL in
      bind_res (segment_at (k_idx s) shm) (\<lambda>_.
      let shm0 = shm[nat (k_idx s) := zero] in
      case answer of
        Recv_again \<Rightarrow> Inr (s, shm0)
      | Recv_error \<Rightarrow> Inr (s\<lparr>stop_child := True\<rparr>, shm0)
      | Recv_eof \<Rightarrow> Inr (s\<lparr>stop_child := True\<rparr>, shm0)
      | Recv_bytes bs \<Rightarrow>
          map_res (\<lambda>b. (s\<lparr>k_net := emit (Send_int (k_pipefd s) (k_idx s)) (k_net s)\<rparr>, shm0[nat (k_idx s) := b]))
            (put_bytes zero 0 bs)))"

text \<open>A number from the server: the segment of that client is sent whole.\<close>

datatype number_answer = Number int | Number_again | Number_end

definition room_child_notified :: "number_answer \<Rightarrow> room_child \<Rightarrow> buf list \<Rightarrow> room_child res" where
  "room_child_notified answer s shm =
     (case answer of
        Number_again \<Rightarrow> Inr s
      | Number_end \<Rightarrow> Inr (s\<lparr>stop_child := True\<rparr>)
      | Number client \<Rightarrow> map_res (\<lambda>b. s\<lparr>k_net := emit (Send (k_connfd s) b) (k_net s)\<rparr>) (segment_at client shm))"

record room_child_event =
  rk_fd :: int
  rk_flags :: flags
  rk_data :: recv_answer
  rk_number :: number_answer

definition room_child_handle :: "room_child_event \<Rightarrow> room_child \<Rightarrow> buf list \<Rightarrow> (room_child \<times> buf list) res" where
  "room_child_handle e s shm =
     (if rk_fd e = k_connfd s \<and> rk_flags e AND EPOLLIN \<noteq> 0 then room_child_read (rk_data e) s shm
      else if rk_fd e = k_pipefd s \<and> rk_flags e AND EPOLLIN \<noteq> 0
        then map_res (\<lambda>s1. (s1, shm)) (room_child_notified (rk_number e) s shm)
      else Inr (s, shm))"

definition end_room_child :: "room_child \<Rightarrow> room_child" where
  "end_room_child s = s\<lparr>k_net := foldl (\<lambda>w fd. emit (Close fd) w) (k_net s) [k_connfd s, k_pipefd s, k_epollfd s]\<rparr>"

section \<open>Operations of the server\<close>

lemma room_forward_outcome:
  assumes "\<forall>j \<in> set js. 0 \<le> j \<and> j < int (length (room_users s))"
  shows "\<exists>w. room_forward sockfd child js s = Inr (s\<lparr>room_net := w\<rparr>) \<and> m_epollfd w = m_epollfd (room_net s) \<and>
    calls w = calls (room_net s) @ map (\<lambda>j. Send_int (fst (rc_pipefd (room_users s ! nat j))) child)
      (filter (\<lambda>j. fst (rc_pipefd (room_users s ! nat j)) \<noteq> sockfd) js)"
  using assms
proof (induction js arbitrary: s)
  case Nil
  show ?case by (intro exI [of _ "room_net s"]) simp
next
  case (Cons j js)
  let ?p = "fst (rc_pipefd (room_users s ! nat j))"
  let ?s = "if ?p \<noteq> sockfd then s\<lparr>room_net := emit (Send_int ?p child) (room_net s)\<rparr> else s"
  have "\<forall>j \<in> set js. 0 \<le> j \<and> j < int (length (room_users ?s))" using Cons.prems by simp
  from Cons.IH [OF this] Cons.prems show ?case by (auto simp: room_user_at_def)
qed

lemma room_kill_outcome:
  assumes "\<forall>j \<in> set js. 0 \<le> j \<and> j < int (length (room_users s))"
  shows "\<exists>w. room_kill js s = Inr (s\<lparr>room_net := w\<rparr>) \<and> m_epollfd w = m_epollfd (room_net s) \<and>
    calls w = calls (room_net s) @ map (\<lambda>j. Kill (rc_pid (room_users s ! nat j)) TERM_SIGNAL) js"
  using assms
proof (induction js arbitrary: s)
  case Nil
  show ?case by (intro exI [of _ "room_net s"]) simp
next
  case (Cons j js)
  let ?s = "s\<lparr>room_net := emit (Kill (rc_pid (room_users s ! nat j)) TERM_SIGNAL) (room_net s)\<rparr>"
  have "\<forall>j \<in> set js. 0 \<le> j \<and> j < int (length (room_users ?s))" using Cons.prems by simp
  from Cons.IH [OF this] Cons.prems show ?case by (auto simp: room_user_at_def)
qed

text \<open>The server that goes on has no children, and knows its clients under the pid 0.\<close>

definition room_inv :: "room \<Rightarrow> bool" where
  "room_inv s \<longleftrightarrow> int (length (room_users s)) = ROOM_USER_LIMIT \<and> 0 \<le> room_count s \<and> room_count s \<le> ROOM_USER_LIMIT \<and>
     room_children s = {} \<and> (\<forall>i < nat (room_count s). rc_pid (room_users s ! i) = 0)"

lemma room_inv_net [simp]: "room_inv (s\<lparr>room_net := w\<rparr>) = room_inv s" "room_inv (s\<lparr>stop_server := b\<rparr>) = room_inv s"
  "room_inv (s\<lparr>terminate := b\<rparr>) = room_inv s"
  by (simp_all add: room_inv_def)

lemma room_ix: "room_inv s \<Longrightarrow> \<forall>j \<in> set [0..room_count s - 1]. 0 \<le> j \<and> j < int (length (room_users s))"
  by (auto simp: room_inv_def)

text \<open>SIGTERM: the server kills process 0, its own process group, once for each client.\<close>

lemma room_term_kills_group:
  assumes inv: "room_inv s" and "room_count s > 0"
  shows "\<exists>s'. room_signal R_term s = Inr s' \<and> room_inv s' \<and> room_count s' = room_count s \<and> terminate s' \<and>
    calls (room_net s') = calls (room_net s) @ replicate (nat (room_count s)) (Kill 0 TERM_SIGNAL)"
proof -
  have "map (\<lambda>j. Kill (rc_pid (room_users s ! nat j)) TERM_SIGNAL) [0..room_count s - 1] = replicate (nat (room_count s)) (Kill 0 TERM_SIGNAL)"
    using inv by (intro replicate_eqI) (auto simp: room_inv_def)
  with room_kill_outcome [OF room_ix [OF inv]] assms show ?thesis
    by (auto simp: room_signal_def room_inv_def)
qed

lemma room_signal_inv:
  assumes inv: "room_inv s" and "reaps sig = {}"
  shows "\<exists>s'. room_signal sig s = Inr s' \<and> room_inv s' \<and> room_count s' = room_count s"
proof (cases sig)
  case (R_child pids)
  with assms(2) have "pids = []" by (simp add: reaps_def)
  with R_child inv show ?thesis by (simp add: room_signal_def)
next
  case R_term
  then show ?thesis
  proof (cases "room_count s = 0")
    case True
    with R_term inv show ?thesis by (simp add: room_signal_def)
  next
    case False
    with room_term_kills_group [OF inv] inv R_term show ?thesis by (fastforce simp: room_inv_def)
  qed
next
  case R_other
  with inv show ?thesis by (simp add: room_signal_def)
qed

lemma room_signals_inv:
  assumes "room_inv s" and "(\<Union>sig \<in> set sigs. reaps sig) = {}"
  shows "\<exists>s'. room_signals sigs s = Inr s' \<and> room_inv s' \<and> room_count s' = room_count s"
  using assms
proof (induction sigs arbitrary: s)
  case (Cons sig sigs)
  then obtain s1 where "room_signal sig s = Inr s1" "room_inv s1" "room_count s1 = room_count s"
    using room_signal_inv [of s sig] by auto
  with Cons.IH [of s1] Cons.prems show ?case by simp
qed simp

text \<open>What an event that the server survives does to the clients.\<close>

definition room_after :: "room_label \<Rightarrow> room \<Rightarrow> room \<Rightarrow> bool" where
  "room_after l s s' \<longleftrightarrow> room_inv s' \<and> room_count s' = room_count s + (if l = Joined then 1 else 0) \<and>
     (l = Turned_away \<longrightarrow> room_count s = ROOM_USER_LIMIT)"

lemma room_accept_inv:
  assumes inv: "room_inv s"
  shows "case room_accept os listenfd sig_pipefd a s of
    Inl u \<Rightarrow> False | Inr (Goes_on l s') \<Rightarrow> room_after l s s' | Inr (Serves n s') \<Rightarrow> n = room_count s \<and> ra_fork a \<noteq> 0"
proof -
  consider (failed) "ra_connfd a < 0" | (full) "\<not> ra_connfd a < 0" "room_count s \<ge> ROOM_USER_LIMIT"
    | (room) "\<not> ra_connfd a < 0" "room_count s < ROOM_USER_LIMIT" by linarith
  then show ?thesis
  proof cases
    case failed
    with inv show ?thesis by (simp add: room_accept_def Let_def room_after_def)
  next
    case full
    with inv show ?thesis by (simp add: room_accept_def Let_def room_after_def) (simp add: room_inv_def)
  next
    case room
    have u: "room_user_at (room_count s) s = Inr (room_users s ! nat (room_count s))"
      using inv room by (simp add: room_inv_def room_user_at_def)
    consider (no_fork) "ra_fork a < 0" | (parent) "ra_fork a > 0" | (child) "ra_fork a = 0" by linarith
    then show ?thesis
    proof cases
      case child
      then have "room_process_at (ra_fork a) t = Inr (room_processes t 0)" for t
        by (simp add: room_process_at_def PROCESS_LIMIT_def)
      with child room u inv show ?thesis
        by (auto simp: room_accept_def Let_def room_after_def room_inv_def nth_list_update nat_add_distrib)
    qed (use room u inv in \<open>simp_all add: room_accept_def Let_def room_after_def room_inv_def\<close>)
  qed
qed

lemma room_handle_inv:
  assumes inv: "room_inv s" and reaped: "(\<Union>sig \<in> set (re_signals e). reaps sig) \<subseteq> room_children s"
  shows "case room_handle os listenfd sig_pipefd e s of
    Inl u \<Rightarrow> False | Inr (Goes_on l s') \<Rightarrow> room_after l s s' | Inr (Serves n s') \<Rightarrow> True"
proof -
  have same: "room_after No_change s s'" if "room_inv s'" "room_count s' = room_count s" for s'
    using that by (simp add: room_after_def)
  have "(\<Union>sig \<in> set (re_signals e). reaps sig) = {}" using reaped inv by (simp add: room_inv_def)
  from room_signals_inv [OF inv this] obtain s1 where s1: "room_signals (re_signals e) s = Inr s1" "room_inv s1" "room_count s1 = room_count s"
    by blast
  obtain w where w: "\<And>child. room_forward (re_fd e) child [0..room_count s - 1] s = Inr (s\<lparr>room_net := w child\<rparr>)"
    using room_forward_outcome [OF room_ix [OF inv]] by metis
  have acc: "case room_accept os listenfd sig_pipefd (re_arrival e) s of
    Inl u \<Rightarrow> False | Inr (Goes_on l s') \<Rightarrow> room_after l s s' | Inr (Serves n s') \<Rightarrow> True"
    using room_accept_inv [OF inv, where os = os and listenfd = listenfd and sig_pipefd = sig_pipefd and a = "re_arrival e"] by (auto split: sum.splits room_next.splits)
  show ?thesis using acc s1 same [of s1] same [of s] same [of "s\<lparr>room_net := w _\<rparr>"] inv
    by (simp add: room_handle_def Let_def w split: option.splits)
qed

lemma room_step_after:
  assumes "room_step os listenfd sig_pipefd s l r" and inv: "room_inv s"
  shows "\<exists>s'. r = Some s' \<and> room_after l s s'"
  using assms(1)
proof cases
  case (event e s')
  with room_handle_inv [OF inv event(2), where os = os and listenfd = listenfd and sig_pipefd = sig_pipefd] show ?thesis by simp
next
  case (event_undefined e u)
  with room_handle_inv [OF inv event_undefined(3), where os = os and listenfd = listenfd and sig_pipefd = sig_pipefd] show ?thesis by simp
qed

interpretation room_runs: safe_system "room_step os listenfd sig_pipefd" room_inv "\<lambda>_. True"
  by unfold_locales (use room_step_after in \<open>fastforce simp: room_after_def\<close>)

definition room_trace :: "room \<Rightarrow> room_label list \<Rightarrow> room \<Rightarrow> bool" where
  "room_trace s ls s' \<longleftrightarrow> (room_inv s \<longrightarrow> room_inv s' \<and> room_count s' = room_count s + int (count_list ls Joined) \<and>
     (\<forall>ls1 ls2. ls = ls1 @ Turned_away # ls2 \<longrightarrow> room_count s + int (count_list ls1 Joined) = ROOM_USER_LIMIT))"

interpretation room_counts: traced_system "room_step os listenfd sig_pipefd" room_trace
  for os listenfd sig_pipefd
proof unfold_locales
  show "room_trace s [] s" for s by (simp add: room_trace_def)
next
  fix s ls s1 l s2
  assume t: "room_trace s ls s1" and st: "room_step os listenfd sig_pipefd s1 l (Some s2)"
  show "room_trace s (ls @ [l]) s2" unfolding room_trace_def
  proof (intro impI conjI allI)
    assume "room_inv s"
    with t have a: "room_inv s1" "room_count s1 = room_count s + int (count_list ls Joined)"
      "\<And>ls1 ls2. ls = ls1 @ Turned_away # ls2 \<Longrightarrow> room_count s + int (count_list ls1 Joined) = ROOM_USER_LIMIT"
      by (simp_all add: room_trace_def)
    from room_step_after [OF st a(1)] have b: "room_after l s1 s2" by simp
    then show "room_inv s2" "room_count s2 = room_count s + int (count_list (ls @ [l]) Joined)"
      using a(2) by (auto simp: room_after_def)
    fix ls1 ls2 assume "ls @ [l] = ls1 @ Turned_away # ls2"
    then show "room_count s + int (count_list ls1 Joined) = ROOM_USER_LIMIT"
      using a b by (cases ls2 rule: rev_cases) (auto simp: room_after_def)
  qed
qed

section \<open>Properties\<close>

lemma room_start_inv:
  "int (length junk) = ROOM_USER_LIMIT \<Longrightarrow> room_inv (room_start os listenfd epollfd sig_pipefd junk)"
  by (simp add: room_start_def room_inv_def ROOM_USER_LIMIT_def)

text \<open>C25. The process that goes on as the server after each fork never forgets a client: under every sequence
  of events, signals included, the number of its users is the number of connections it has ever accepted, and a
  connection is turned away exactly when five have been accepted before, whether they are still there or not. No
  event leads to undefined behaviour. The reason is that fork's result is tested the wrong way round: the server
  is always the child, and has no children to wait for.\<close>

theorem room_forgets_nobody:
  assumes "int (length junk) = ROOM_USER_LIMIT"
    and "run (room_step os listenfd sig_pipefd) (room_start os listenfd epollfd sig_pipefd junk) ls r"
  shows "\<exists>s. r = Some s \<and> room_count s = int (count_list ls Joined) \<and> room_count s \<le> ROOM_USER_LIMIT \<and>
    (\<forall>ls1 ls2. ls = ls1 @ Turned_away # ls2 \<longrightarrow> int (count_list ls1 Joined) = ROOM_USER_LIMIT)"
proof -
  note inv = room_start_inv [OF assms(1), of os listenfd epollfd sig_pipefd]
  from room_runs.run_safe [OF assms(2) inv] obtain s where r: "r = Some s" "room_inv s" by auto
  from room_counts.run_rel [OF assms(2) [unfolded r]] inv r show ?thesis
    by (auto simp: room_trace_def room_start_def room_inv_def)
qed

definition sample_arrival :: room_event where
  "sample_arrival = \<lparr>re_fd = 3, re_flags = EPOLLIN,
     re_arrival = \<lparr>ra_connfd = 7, ra_address = 0, ra_pipefd = (8, 9), ra_fork = 0\<rparr>, re_signals = [], re_recv = None\<rparr>"

lemma room_forgets_nobody_witness:
  "\<exists>s. run (room_step sample_os 3 (5, 6)) (room_start sample_os 3 4 (5, 6)
      (replicate 5 \<lparr>rc_address = 0, rc_connfd = 0, rc_pid = 0, rc_pipefd = (0, 0)\<rparr>)) [Joined] (Some s) \<and> room_count s = 1"
proof -
  let ?junk = "replicate 5 \<lparr>rc_address = 0, rc_connfd = 0, rc_pid = 0, rc_pipefd = (0, 0)\<rparr>"
  let ?s = "room_start sample_os 3 4 (5, 6) ?junk"
  obtain s where "room_handle sample_os 3 (5, 6) sample_arrival ?s = Inr (Goes_on Joined s)"
    by (simp add: room_handle_def sample_arrival_def room_accept_def room_start_def room_user_at_def room_process_at_def
        PROCESS_LIMIT_def ROOM_USER_LIMIT_def Let_def)
  then have "room_step sample_os 3 (5, 6) ?s Joined (Some s)"
    by (intro room_step.event [of sample_arrival]) (simp_all add: sample_arrival_def)
  then have r: "run (room_step sample_os 3 (5, 6)) ?s [Joined] (Some s)" by (rule run_single)
  have "int (length ?junk) = ROOM_USER_LIMIT" by (simp add: ROOM_USER_LIMIT_def)
  from room_forgets_nobody [OF this r] r show ?thesis by auto
qed

text \<open>C26. The way of a message through the processes: the process of client i stores the bytes in segment i and
  announces i, touching no other segment; the server forwards the number, in order, to every other client's
  process and not back; and a process that gets the number sends its client the bytes, filled up with
  NULs to the whole segment, as long as the segment has not changed.\<close>

theorem room_message_path:
  assumes s: "room_inv s" and i: "0 \<le> i" "i < room_count s" and k: "k_idx ci = i"
    and pipes: "inj_on (\<lambda>j. fst (rc_pipefd (room_users s ! nat j))) {0..<room_count s}"
    and shm: "int (length shm) = ROOM_USER_LIMIT" and bs: "length bs < ROOM_BUFFER_SIZE"
  shows "\<exists>shm' ci' s'. room_child_read (Recv_bytes bs) ci shm = Inr (ci', shm') \<and>
    calls (k_net ci') = calls (k_net ci) @ [Send_int (k_pipefd ci) i] \<and>
    (\<forall>j. j \<noteq> nat i \<longrightarrow> shm' ! j = shm ! j) \<and>
    room_forward (fst (rc_pipefd (room_users s ! nat i))) i [0..room_count s - 1] s = Inr s' \<and>
    calls (room_net s') = calls (room_net s) @
      map (\<lambda>j. Send_int (fst (rc_pipefd (room_users s ! nat j))) i) (filter (\<lambda>j. j \<noteq> i) [0..room_count s - 1]) \<and>
    (\<forall>cj. \<exists>cj'. room_child_notified (Number i) cj shm' = Inr cj' \<and>
      calls (k_net cj') = calls (k_net cj) @ [Send (k_connfd cj) (bs @ replicate (ROOM_BUFFER_SIZE - length bs) NUL)])"
proof -
  let ?b = "bs @ replicate (ROOM_BUFFER_SIZE - length bs) NUL"
  let ?shm = "(shm[nat i := replicate ROOM_BUFFER_SIZE NUL])[nat i := ?b]"
  have len: "nat i < length shm" "i < int (length shm)" using i s shm by (simp_all add: room_inv_def nat_less_iff)
  have put: "put_bytes (replicate ROOM_BUFFER_SIZE NUL) 0 bs = Inr ?b" using bs by (simp add: put_bytes_def)
  have rd: "room_child_read (Recv_bytes bs) ci shm = Inr (ci\<lparr>k_net := emit (Send_int (k_pipefd ci) i) (k_net ci)\<rparr>, ?shm)"
    using len i put by (simp add: room_child_read_def segment_at_def k Let_def)
  have nt: "room_child_notified (Number i) cj ?shm = Inr (cj\<lparr>k_net := emit (Send (k_connfd cj) ?b) (k_net cj)\<rparr>)" for cj
    using len i by (simp add: room_child_notified_def segment_at_def)
  have "filter (\<lambda>j. fst (rc_pipefd (room_users s ! nat j)) \<noteq> fst (rc_pipefd (room_users s ! nat i))) [0..room_count s - 1] =
      filter (\<lambda>j. j \<noteq> i) [0..room_count s - 1]"
    using i pipes by (intro filter_cong) (auto dest: inj_onD)
  with room_forward_outcome [OF room_ix [OF s], of "fst (rc_pipefd (room_users s ! nat i))" i] obtain w where
    "room_forward (fst (rc_pipefd (room_users s ! nat i))) i [0..room_count s - 1] s = Inr (s\<lparr>room_net := w\<rparr>)"
    "calls w = calls (room_net s) @ map (\<lambda>j. Send_int (fst (rc_pipefd (room_users s ! nat j))) i) (filter (\<lambda>j. j \<noteq> i) [0..room_count s - 1])"
    by auto
  with rd nt show ?thesis
    by (intro exI [of _ ?shm] exI [of _ "ci\<lparr>k_net := emit (Send_int (k_pipefd ci) i) (k_net ci)\<rparr>"] exI [of _ "s\<lparr>room_net := w\<rparr>"])
      simp
qed

definition two_in_room :: room where
  "two_in_room = \<lparr>room_users = map (\<lambda>k. \<lparr>rc_address = 0, rc_connfd = 20 + k, rc_pid = 0, rc_pipefd = (10 + k, 30 + k)\<rparr>) [0..4],
     room_processes = (\<lambda>_. -1), room_count = 2, stop_server = False, terminate = False, room_net = sample_world, room_children = {}\<rparr>"

lemma room_message_path_witness:
  "\<exists>shm' ci' s'. room_child_read (Recv_bytes ''hi'')
      \<lparr>k_idx = 0, k_connfd = 20, k_pipefd = 30, k_epollfd = 40, stop_child = False, k_net = sample_world\<rparr> (replicate 5 []) = Inr (ci', shm') \<and>
     calls (k_net ci') = [Send_int 30 0] \<and> room_forward 10 0 [0..1] two_in_room = Inr s' \<and> calls (room_net s') = [Send_int 11 0]"
proof -
  let ?c = "\<lparr>k_idx = 0, k_connfd = 20, k_pipefd = 30, k_epollfd = 40, stop_child = False, k_net = sample_world\<rparr>"
  have u: "room_users two_in_room ! k = \<lparr>rc_address = 0, rc_connfd = 20 + int k, rc_pid = 0, rc_pipefd = (10 + int k, 30 + int k)\<rparr>"
    if "k < 5" for k using that by (simp add: two_in_room_def)
  have c: "room_count two_in_room = 2" "calls (room_net two_in_room) = []" "calls (k_net ?c) = []" "k_pipefd ?c = 30"
    by (simp_all add: two_in_room_def sample_world_def)
  have "room_inv two_in_room" using u by (simp add: room_inv_def c ROOM_USER_LIMIT_def) (simp add: two_in_room_def)
  moreover have "inj_on (\<lambda>j. fst (rc_pipefd (room_users two_in_room ! nat j))) {0..<room_count two_in_room}"
    by (auto simp: c inj_on_def u)
  moreover have "int (length (replicate 5 ([] :: buf))) = ROOM_USER_LIMIT" "length ''hi'' < ROOM_BUFFER_SIZE" "0 \<le> (0 :: int)"
    "0 < room_count two_in_room" "k_idx ?c = 0"
    by (simp_all add: ROOM_USER_LIMIT_def ROOM_BUFFER_SIZE_def c)
  moreover have "[0..1] = [0, 1 :: int]" by (simp add: upto_rec1)
  ultimately show ?thesis using room_message_path [of two_in_room 0 ?c "replicate 5 []" "''hi''"]
    unfolding c by (auto simp: u)
qed

end
