(* ===== verification/Room_System.thy ===== *)
theory Room_System
  imports Subprocess_Chat
begin

unbundle bit_operations_syntax

text \<open>
  The chat room of Subprocess\_Chat as one system: the process that goes on as the server, the processes of the
  clients, the memory they share and the pipes between them, in any interleaving.
\<close>

section \<open>The model\<close>

text \<open>
  For each client its process, the events of the process's current round it has not handled, the numbers it wrote
  that the server has not read, and the numbers the server wrote that it has not read.
\<close>

record room_system =
  rs_server :: room
  rs_kids :: "room_child list"
  rs_left :: "nat list"
  rs_memory :: "buf list"
  rs_up :: "int list list"
  rs_down :: "int list list"

text \<open>
  An event of the server, with the pid fork gives the other process, the epoll instance that one creates, and the
  clients to whose pipe no number can be written, because it is full or its reader has gone; a client's process
  gets a number of events from epoll\_wait, handles one of them (the flag says whether a write to its pipe fails), or
  gets SIGTERM. The results of these writes are not looked at.
\<close>

datatype room_action = Server room_event int int "nat list" | Awaits nat nat | Client nat room_child_event bool | Terminated nat

text \<open>
  What happened: a client's process stored a text in its segment (and announced it, or its announcement was lost),
  cleared it, or sent its client what the segment of the number it read holds; the server read a number from the pipe of
  a client and wrote it to those of others: to some of them the write succeeded, to others it failed.
\<close>

datatype room_happens = Arrived room_label | Relayed nat "nat list" "nat list" | Stored nat "char list" bool | Cleared nat
  | Shown nat nat "char list list" | Other

definition user_pipe :: "room \<Rightarrow> nat \<Rightarrow> int" where
  "user_pipe s i = fst (rc_pipefd (room_users s ! i))"

definition user_pipes :: "room \<Rightarrow> int set" where
  "user_pipes s = user_pipe s ` {..<nat (room_count s)}"

text \<open>The client whose pipe the server reads at an event.\<close>

definition server_reads :: "int \<Rightarrow> int \<times> int \<Rightarrow> room_event \<Rightarrow> room \<Rightarrow> nat option" where
  "server_reads listenfd sig_pipefd e s =
     (if re_fd e \<noteq> listenfd \<and> re_fd e \<noteq> fst sig_pipefd \<and> re_flags e AND EPOLLIN \<noteq> 0
      then find (\<lambda>i. user_pipe s i = re_fd e) [0..<nat (room_count s)] else None)"

definition client_reads :: "room_child_event \<Rightarrow> room_child \<Rightarrow> bool" where
  "client_reads e k \<longleftrightarrow> rk_flags e AND EPOLLIN \<noteq> 0 \<and> rk_fd e = k_pipefd k \<and> rk_fd e \<noteq> k_connfd k"

definition client_hears :: "room_child_event \<Rightarrow> room_child \<Rightarrow> bool" where
  "client_hears e k \<longleftrightarrow> rk_flags e AND EPOLLIN \<noteq> 0 \<and> rk_fd e = k_connfd k"

text \<open>
  What the kernel may answer. epoll\_wait reports what the process registered; a number is read from a pipe only when
  it is the next one there; accept and socketpair return descriptors that are not in use; recv returns at
  most the bytes it was offered space for. The process fork returns 0 to has no children, the other one a pid. A client's
  process calls epoll\_wait when it has handled all events of the last round and stop\_child is not set; it handles the
  rest of its round whatever stop\_child is.
\<close>

fun room_enabled :: "int \<Rightarrow> int \<times> int \<Rightarrow> room_action \<Rightarrow> room_system \<Rightarrow> bool" where
  "room_enabled listenfd sig_pipefd (Server e pid ep refused) s \<longleftrightarrow>
     (let sv = rs_server s; used = {listenfd, fst sig_pipefd} \<union> user_pipes sv; a = re_arrival e in
      re_fd e \<in> used \<and> list_all (\<lambda>sig. reaps sig \<subseteq> room_children sv) (re_signals e) \<and>
      ra_fork a \<le> 0 \<and> 0 < pid \<and> fst (ra_pipefd a) \<notin> used \<and> ra_connfd a \<noteq> snd (ra_pipefd a) \<and>
      (case server_reads listenfd sig_pipefd e sv of
         None \<Rightarrow> True
       | Some i \<Rightarrow> (case re_recv e of None \<Rightarrow> True | Some v \<Rightarrow> rs_up s ! i \<noteq> [] \<and> v = hd (rs_up s ! i))))"
| "room_enabled listenfd sig_pipefd (Awaits j n) s \<longleftrightarrow> j < length (rs_kids s) \<and> rs_left s ! j = 0 \<and> \<not> stop_child (rs_kids s ! j)"
| "room_enabled listenfd sig_pipefd (Terminated j) s \<longleftrightarrow> j < length (rs_kids s)"
| "room_enabled listenfd sig_pipefd (Client j e refused) s \<longleftrightarrow> j < length (rs_kids s) \<and> 0 < rs_left s ! j \<and>
     (let k = rs_kids s ! j in
      (case rk_data e of Recv_bytes bs \<Rightarrow> length bs < ROOM_BUFFER_SIZE | _ \<Rightarrow> True) \<and>
      (client_reads e k \<longrightarrow> (case rk_number e of Number v \<Rightarrow> rs_down s ! j \<noteq> [] \<and> v = hd (rs_down s ! j) | _ \<Rightarrow> True)))"

text \<open>
  A new client: after fork the process that got the pid goes on as the client's, and the other one as the server.
\<close>

definition new_kid :: "os \<Rightarrow> int \<Rightarrow> int \<times> int \<Rightarrow> room_event \<Rightarrow> int \<Rightarrow> int \<Rightarrow> room \<Rightarrow> room_child list res" where
  "new_kid os listenfd sig_pipefd e pid ep s =
     bind_res (room_handle os listenfd sig_pipefd (e\<lparr>re_arrival := (re_arrival e)\<lparr>ra_fork := pid\<rparr>\<rparr>) s) (\<lambda>next.
     case next of
       Serves n t \<Rightarrow> map_res (\<lambda>k. [k]) (start_room_child os ep n (room_users t) (room_net t))
     | Goes_on l t \<Rightarrow> Inr [])"

definition server_acts :: "os \<Rightarrow> int \<Rightarrow> int \<times> int \<Rightarrow> room_event \<Rightarrow> int \<Rightarrow> int \<Rightarrow> nat list \<Rightarrow> room_system \<Rightarrow> (room_happens \<times> room_system) res" where
  "server_acts os listenfd sig_pipefd e pid ep refused s =
     (let sv = rs_server s; read = (case re_recv e of None \<Rightarrow> None | Some v \<Rightarrow> server_reads listenfd sig_pipefd e sv) in
      bind_res (room_handle os listenfd sig_pipefd e sv) (\<lambda>next.
      case next of
        Serves n t \<Rightarrow> Inr (Other, s)
      | Goes_on l sv1 \<Rightarrow>
          bind_res (if l = Joined then new_kid os listenfd sig_pipefd e pid ep sv else Inr []) (\<lambda>ks.
          let written = filter (\<lambda>j. sent_to (user_pipe sv j) (room_net sv) (room_net sv1) \<noteq> []) [0..<nat (room_count sv)] in
          Inr (case read of
                 Some i \<Rightarrow> Relayed i (filter (\<lambda>j. j \<notin> set refused) written) (filter (\<lambda>j. j \<in> set refused) written)
               | None \<Rightarrow> Arrived l,
            s\<lparr>rs_server := sv1, rs_kids := rs_kids s @ ks, rs_left := rs_left s @ map (\<lambda>_. 0) ks,
              rs_up := (case read of None \<Rightarrow> rs_up s | Some i \<Rightarrow> (rs_up s)[i := tl (rs_up s ! i)]) @ map (\<lambda>_. []) ks,
              rs_down := map (\<lambda>(i, vs). vs @ (if i \<in> set refused then [] else sent_to (user_pipe sv i) (room_net sv) (room_net sv1)))
                  (enumerate 0 (rs_down s)) @ map (\<lambda>_. []) ks\<rparr>))))"

text \<open>The texts a process sent to its client between two states.\<close>

definition texts_sent :: "int \<Rightarrow> world \<Rightarrow> world \<Rightarrow> char list list" where
  "texts_sent fd w w' = concat (map (\<lambda>c. case c of Send f b \<Rightarrow> if f = fd then [b] else [] | _ \<Rightarrow> []) (drop (length (calls w)) (calls w')))"

definition client_acts :: "nat \<Rightarrow> room_child_event \<Rightarrow> bool \<Rightarrow> room_system \<Rightarrow> (room_happens \<times> room_system) res" where
  "client_acts j e refused s =
     (let k = rs_kids s ! j in
      bind_res (room_child_handle e k (rs_memory s)) (\<lambda>(k1, shm).
      let up = if refused then [] else sent_to (k_pipefd k) (k_net k) (k_net k1) in
      Inr (if client_hears e k then (case rk_data e of Recv_bytes bs \<Rightarrow> Stored j bs (up \<noteq> []) | _ \<Rightarrow> Cleared j)
           else if client_reads e k then (case rk_number e of Number v \<Rightarrow> Shown j (nat v) (texts_sent (k_connfd k) (k_net k) (k_net k1)) | _ \<Rightarrow> Other)
           else Other,
        s\<lparr>rs_kids := (rs_kids s)[j := k1], rs_left := (rs_left s)[j := rs_left s ! j - 1], rs_memory := shm,
          rs_up := (rs_up s)[j := rs_up s ! j @ up],
          rs_down := (rs_down s)[j := (case rk_number e of Number v \<Rightarrow> if client_reads e k then tl (rs_down s ! j) else rs_down s ! j
                                       | _ \<Rightarrow> rs_down s ! j)]\<rparr>)))"

fun room_act :: "os \<Rightarrow> int \<Rightarrow> int \<times> int \<Rightarrow> room_action \<Rightarrow> room_system \<Rightarrow> (room_happens \<times> room_system) res" where
  "room_act os listenfd sig_pipefd (Server e pid ep refused) s = server_acts os listenfd sig_pipefd e pid ep refused s"
| "room_act os listenfd sig_pipefd (Awaits j n) s = Inr (Other, s\<lparr>rs_left := (rs_left s)[j := n]\<rparr>)"
| "room_act os listenfd sig_pipefd (Client j e refused) s = client_acts j e refused s"
| "room_act os listenfd sig_pipefd (Terminated j) s = Inr (Other, s\<lparr>rs_kids := (rs_kids s)[j := child_term_handler (rs_kids s ! j)]\<rparr>)"

inductive room_moves :: "os \<Rightarrow> int \<Rightarrow> int \<times> int \<Rightarrow> room_system \<Rightarrow> room_happens \<Rightarrow> room_system option \<Rightarrow> bool"
  for os :: os and listenfd :: int and sig_pipefd :: "int \<times> int" where
  act: "room_enabled listenfd sig_pipefd a s \<Longrightarrow> room_act os listenfd sig_pipefd a s = Inr (l, s') \<Longrightarrow>
    room_moves os listenfd sig_pipefd s l (Some s')"
| act_undefined: "room_enabled listenfd sig_pipefd a s \<Longrightarrow> room_act os listenfd sig_pipefd a s = Inl u \<Longrightarrow>
    room_moves os listenfd sig_pipefd s Other None"

inductive_cases room_movesE: "room_moves os listenfd sig_pipefd s l r"

text \<open>The start: nobody is there, and the memory holds what it held before.\<close>

definition room_system_start :: "os \<Rightarrow> int \<Rightarrow> int \<Rightarrow> int \<times> int \<Rightarrow> room_client list \<Rightarrow> buf list \<Rightarrow> room_system" where
  "room_system_start os listenfd epollfd sig_pipefd junk memory =
     \<lparr>rs_server = room_start os listenfd epollfd sig_pipefd junk, rs_kids = [], rs_left = [], rs_memory = memory, rs_up = [], rs_down = []\<rparr>"

section \<open>Steps of the server\<close>

lemma room_signals_effect:
  assumes "room_inv s" and "list_all (\<lambda>sig. reaps sig = {}) sigs"
  shows "\<exists>s' cs. room_signals sigs s = Inr s' \<and> room_inv s' \<and> room_users s' = room_users s \<and> room_count s' = room_count s \<and>
    calls (room_net s') = calls (room_net s) @ cs \<and> reports cs = []"
  using assms
proof (induction sigs arbitrary: s)
  case Nil
  then show ?case by (intro exI [of _ s] exI [of _ "[]"]) (simp add: reports_def)
next
  case (Cons sig sigs)
  then have inv: "room_inv s" and re: "reaps sig = {}" by simp_all
  have "\<exists>s1 cs. room_signal sig s = Inr s1 \<and> room_users s1 = room_users s \<and> room_count s1 = room_count s \<and>
    calls (room_net s1) = calls (room_net s) @ cs \<and> reports cs = []"
  proof (cases sig)
    case (R_child pids)
    with re have "pids = []" by (simp add: reaps_def)
    with R_child show ?thesis by (auto simp: room_signal_def reports_def)
  next
    case R_term
    then show ?thesis using room_kill_outcome [OF room_ix [OF inv]]
      by (cases "room_count s = 0") (auto simp: room_signal_def reports_def comp_def)
  next
    case R_other
    then show ?thesis by (auto simp: room_signal_def reports_def)
  qed
  moreover from room_signal_inv [OF inv re] obtain s1 where "room_signal sig s = Inr s1" "room_inv s1" by blast
  ultimately obtain cs where s1: "room_signal sig s = Inr s1" "room_inv s1" "room_users s1 = room_users s" "room_count s1 = room_count s"
    "calls (room_net s1) = calls (room_net s) @ cs" "reports cs = []" by auto
  from Cons.IH [OF s1(2)] Cons.prems obtain s2 ds where "room_signals sigs s1 = Inr s2" "room_inv s2" "room_users s2 = room_users s1"
    "room_count s2 = room_count s1" "calls (room_net s2) = calls (room_net s1) @ ds" "reports ds = []" by auto
  with s1 show ?case by simp
qed

text \<open>The three kinds of event: a new connection, a signal, a number from a client's process.\<close>

definition room_sends :: "room \<Rightarrow> room \<Rightarrow> (int \<times> int) list \<Rightarrow> bool" where
  "room_sends s s' rs \<longleftrightarrow> (\<exists>cs. calls (room_net s') = calls (room_net s) @ cs \<and> reports cs = rs)"

lemma room_sends_to: "room_sends s s' rs \<Longrightarrow> sent_to fd (room_net s) (room_net s') = map snd (filter (\<lambda>r. fst r = fd) rs)"
  by (auto simp: room_sends_def sent_to_def)

lemma reports_addfd: "\<exists>cs. calls (room_addfd os ep fd w) = calls w @ cs \<and> reports cs = []"
  by (simp add: room_addfd_def setnonblocking_def Let_def reports_def)

lemma room_accept_effect:
  assumes inv: "room_inv s" and fork: "ra_fork a \<le> 0"
  shows "\<exists>l s'. room_accept os listenfd sig_pipefd a s = Inr (Goes_on l s') \<and> room_sends s s' [] \<and>
    (\<forall>i < nat (room_count s). room_users s' ! i = room_users s ! i) \<and>
    (if l = Joined then \<not> ra_connfd a < 0 \<and> room_count s < ROOM_USER_LIMIT \<and>
       rc_pipefd (room_users s' ! nat (room_count s)) = ra_pipefd a else True)"
proof -
  consider (failed) "ra_connfd a < 0" | (full) "\<not> ra_connfd a < 0" "room_count s \<ge> ROOM_USER_LIMIT"
    | (room) "\<not> ra_connfd a < 0" "room_count s < ROOM_USER_LIMIT" by linarith
  then show ?thesis
  proof cases
    case room
    have n: "nat (room_count s) < length (room_users s)" and p: "0 \<le> room_count s" using inv room by (auto simp: room_inv_def)
    have u: "room_user_at (room_count s) s = Inr (room_users s ! nat (room_count s))"
      using inv room by (simp add: room_inv_def room_user_at_def)
    have pr: "room_process_at 0 t = Inr (room_processes t 0)" for t by (simp add: room_process_at_def PROCESS_LIMIT_def)
    show ?thesis
    proof (cases "ra_fork a < 0")
      case True
      with room u n show ?thesis by (simp add: room_accept_def Let_def room_sends_def reports_def)
    next
      case False
      with fork have z: "ra_fork a = 0" by simp
      obtain cs where cs: "calls (room_addfd os (m_epollfd (room_net s)) (fst (ra_pipefd a))
          (emit (Close (snd (ra_pipefd a))) (emit (Close (ra_connfd a)) (room_net s)))) =
          calls (room_net s) @ ([Close (ra_connfd a), Close (snd (ra_pipefd a))] @ cs)" "reports cs = []"
        using reports_addfd [of os "m_epollfd (room_net s)" "fst (ra_pipefd a)" "emit (Close (snd (ra_pipefd a))) (emit (Close (ra_connfd a)) (room_net s))"]
        by auto
      have "reports ([Close (ra_connfd a), Close (snd (ra_pipefd a))] @ cs) = []" using cs(2) by (simp add: reports_def)
      with z room u n p pr cs(1) show ?thesis unfolding room_sends_def by (simp add: room_accept_def Let_def)
    qed
  qed (simp_all add: room_accept_def Let_def room_sends_def reports_def)
qed

text \<open>What holds of the system in every state.\<close>

definition room_ok :: "int \<Rightarrow> int \<times> int \<Rightarrow> room_system \<Rightarrow> bool" where
  "room_ok listenfd sig_pipefd s \<longleftrightarrow>
     (let sv = rs_server s; n = nat (room_count sv) in
      room_inv sv \<and> length (rs_kids s) = n \<and> length (rs_left s) = n \<and> length (rs_up s) = n \<and> length (rs_down s) = n \<and>
      int (length (rs_memory s)) = ROOM_USER_LIMIT \<and> (\<forall>b \<in> set (rs_memory s). length b = ROOM_BUFFER_SIZE) \<and>
      inj_on (user_pipe sv) {..<n} \<and> {listenfd, fst sig_pipefd} \<inter> user_pipes sv = {} \<and>
      (\<forall>i < n. k_idx (rs_kids s ! i) = int i \<and> k_connfd (rs_kids s ! i) \<noteq> k_pipefd (rs_kids s ! i)) \<and>
      (\<forall>i < n. set (rs_up s ! i) \<subseteq> {int i}) \<and> (\<forall>j < n. set (rs_down s ! j) \<subseteq> int ` ({..<n} - {j})))"

definition passes_on :: "nat \<Rightarrow> nat list \<Rightarrow> room_system \<Rightarrow> room \<Rightarrow> room_system" where
  "passes_on i refused s sv1 = s\<lparr>rs_server := sv1, rs_up := (rs_up s)[i := tl (rs_up s ! i)],
     rs_down := map (\<lambda>(j, vs). vs @ (if j = i \<or> j \<in> set refused then [] else [int i])) (enumerate 0 (rs_down s))\<rparr>"

text \<open>A number read from the pipe of client i reached the clients got, and not the clients lost, of n.\<close>

definition reaches :: "nat \<Rightarrow> nat \<Rightarrow> nat list \<Rightarrow> nat list \<Rightarrow> bool" where
  "reaches n i got lost \<longleftrightarrow> i < n \<and> distinct (got @ lost) \<and> set (got @ lost) = {..<n} - {i}"

definition lets_in :: "room_child list \<Rightarrow> room_system \<Rightarrow> room \<Rightarrow> room_system" where
  "lets_in ks s sv1 = s\<lparr>rs_server := sv1, rs_kids := rs_kids s @ ks, rs_left := rs_left s @ map (\<lambda>_. 0) ks, rs_up := rs_up s @ map (\<lambda>_. []) ks,
     rs_down := rs_down s @ map (\<lambda>_. []) ks\<rparr>"

lemma enumerate_same: "map (\<lambda>(j, vs). vs) (enumerate 0 xs) = xs"
proof -
  have "map (\<lambda>(j, vs). vs) (enumerate 0 xs) = map snd (enumerate 0 xs)" by (rule map_cong) auto
  then show ?thesis by simp
qed

lemma map_enumerate_cong:
  "(\<And>j. j < length xs \<Longrightarrow> f j = g j) \<Longrightarrow> map (\<lambda>(j, vs). vs @ f j) (enumerate 0 xs) = map (\<lambda>(j, vs). vs @ g j) (enumerate 0 xs)"
  by (auto simp: in_set_enumerate_eq)

lemma filter_upto_eq: "0 \<le> j \<Longrightarrow> j < n \<Longrightarrow> filter (\<lambda>i. i = j) [0..n - 1] = [j :: int]"
proof -
  assume "0 \<le> j" "j < n"
  then have "[0..n - 1] = [0..j - 1] @ j # [j + 1..n - 1]" using upto_split1 [of 0 j "n - 1"] upto_rec1 [of j "n - 1"] by simp
  then show ?thesis by simp
qed

text \<open>A number that is forwarded reaches every other client's pipe once.\<close>

lemma forward_sent:
  assumes inj: "inj_on (user_pipe s) {..<nat n}" and j: "j < nat n" and i: "i < nat n"
  shows "map snd (filter (\<lambda>r. fst r = user_pipe s j) (map (\<lambda>k. (user_pipe s (nat k), v))
      (filter (\<lambda>k. user_pipe s (nat k) \<noteq> user_pipe s i) [0..n - 1]))) = (if j = i then [] else [v])"
proof -
  have eq: "user_pipe s (nat k) = user_pipe s m \<longleftrightarrow> k = int m" if "k \<in> set [0..n - 1]" "m < nat n" for k m
  proof -
    have "nat k \<in> {..<nat n}" "m \<in> {..<nat n}" using that by auto
    from inj_on_eq_iff [OF inj this] that(1) show ?thesis by auto
  qed
  have "filter ((\<lambda>r. fst r = user_pipe s j) \<circ> (\<lambda>k. (user_pipe s (nat k), v))) (filter (\<lambda>k. user_pipe s (nat k) \<noteq> user_pipe s i) [0..n - 1]) =
      filter (\<lambda>k. j \<noteq> i \<and> k = int j) [0..n - 1]"
    unfolding filter_filter by (rule filter_cong [OF refl]) (use eq i j in auto)
  also have "\<dots> = (if j = i then [] else [int j])" using filter_upto_eq [of "int j" n] j by auto
  finally show ?thesis unfolding filter_map by simp
qed

lemma server_reads_Some:
  "server_reads listenfd sig_pipefd e sv = Some i \<Longrightarrow>
     re_fd e \<noteq> listenfd \<and> re_fd e \<noteq> fst sig_pipefd \<and> re_flags e AND EPOLLIN \<noteq> 0 \<and> i < nat (room_count sv) \<and> user_pipe sv i = re_fd e"
  by (auto simp: server_reads_def find_Some_iff split: if_splits)

lemma server_relays:
  assumes ok: "room_ok listenfd sig_pipefd s" and en: "room_enabled listenfd sig_pipefd (Server e pid ep refused) s"
    and rd: "server_reads listenfd sig_pipefd e (rs_server s) = Some i" "re_recv e = Some v"
  shows "\<exists>w got lost. server_acts os listenfd sig_pipefd e pid ep refused s = Inr (Relayed i got lost, passes_on i refused s ((rs_server s)\<lparr>room_net := w\<rparr>)) \<and>
    reaches (nat (room_count (rs_server s))) i got lost \<and> (\<forall>j. j \<in> set got \<longleftrightarrow> j < nat (room_count (rs_server s)) \<and> j \<noteq> i \<and> j \<notin> set refused) \<and>
    rs_up s ! i \<noteq> []"
proof -
  let ?sv = "rs_server s"
  have inv: "room_inv ?sv" and inj: "inj_on (user_pipe ?sv) {..<nat (room_count ?sv)}" and len: "length (rs_down s) = nat (room_count ?sv)"
    using ok by (simp_all add: room_ok_def Let_def)
  note r = server_reads_Some [OF rd(1)]
  have up: "rs_up s ! i \<noteq> []" "v = hd (rs_up s ! i)" using en rd by (auto simp: Let_def)
  moreover have "set (rs_up s ! i) \<subseteq> {int i}" using ok r by (simp add: room_ok_def Let_def)
  ultimately have v: "v = int i" using hd_in_set by blast
  obtain w where w: "room_forward (re_fd e) v [0..room_count ?sv - 1] ?sv = Inr (?sv\<lparr>room_net := w\<rparr>)"
    "calls w = calls (room_net ?sv) @ map (\<lambda>j. Send_int (user_pipe ?sv (nat j)) v) (filter (\<lambda>j. user_pipe ?sv (nat j) \<noteq> re_fd e) [0..room_count ?sv - 1])"
    using room_forward_outcome [OF room_ix [OF inv], of "re_fd e" v] by (auto simp: user_pipe_def)
  have h: "room_handle os listenfd sig_pipefd e ?sv = Inr (Goes_on No_change (?sv\<lparr>room_net := w\<rparr>))"
    using r rd(2) w(1) by (simp add: room_handle_def Let_def)
  have reports_map: "reports (map (\<lambda>j. Send_int (f j) v) xs) = map (\<lambda>j. (f j, v)) xs" for f and xs :: "int list"
    by (induction xs) (simp_all add: reports_def)
  have "room_sends ?sv (?sv\<lparr>room_net := w\<rparr>) (map (\<lambda>j. (user_pipe ?sv (nat j), v)) (filter (\<lambda>j. user_pipe ?sv (nat j) \<noteq> user_pipe ?sv i) [0..room_count ?sv - 1]))"
    using w(2) r by (simp add: room_sends_def reports_map)
  note sent = room_sends_to [OF this]
  have to: "sent_to (user_pipe ?sv j) (room_net ?sv) w = (if j = i then [] else [int i])" if "j < nat (room_count ?sv)" for j
    using forward_sent [OF inj that, of i v] r len sent v by simp
  have dn: "map (\<lambda>(j, vs). vs @ (if j \<in> set refused then [] else sent_to (user_pipe ?sv j) (room_net ?sv) w)) (enumerate 0 (rs_down s)) =
      map (\<lambda>(j, vs). vs @ (if j = i \<or> j \<in> set refused then [] else [int i])) (enumerate 0 (rs_down s))"
    by (rule map_enumerate_cong) (use to len in simp)
  define others where "others = filter (\<lambda>j. j \<noteq> i) [0..<nat (room_count ?sv)]"
  have wr: "filter (\<lambda>j. sent_to (user_pipe ?sv j) (room_net ?sv) w \<noteq> []) [0..<nat (room_count ?sv)] = others"
    unfolding others_def by (rule filter_cong [OF refl]) (use to in auto)
  let ?got = "filter (\<lambda>j. j \<notin> set refused) others" and ?lost = "filter (\<lambda>j. j \<in> set refused) others"
  have "server_acts os listenfd sig_pipefd e pid ep refused s = Inr (Relayed i ?got ?lost, passes_on i refused s (?sv\<lparr>room_net := w\<rparr>))"
    unfolding passes_on_def dn [symmetric] wr [symmetric] using h rd
    by (simp add: server_acts_def Let_def cong: if_cong del: filter_filter)
  moreover have "reaches (nat (room_count ?sv)) i ?got ?lost" using r by (auto simp: reaches_def others_def)
  moreover have "j \<in> set ?got \<longleftrightarrow> j < nat (room_count ?sv) \<and> j \<noteq> i \<and> j \<notin> set refused" for j by (auto simp: others_def)
  ultimately show ?thesis using up by blast
qed

lemma server_lets_in:
  assumes ok: "room_ok listenfd sig_pipefd s" and en: "room_enabled listenfd sig_pipefd (Server e pid ep refused) s"
    and rd: "server_reads listenfd sig_pipefd e (rs_server s) = None \<or> re_recv e = None"
  shows "\<exists>l sv1 ks. server_acts os listenfd sig_pipefd e pid ep refused s = Inr (Arrived l, lets_in ks s sv1) \<and> room_after l (rs_server s) sv1 \<and>
    (\<forall>i < nat (room_count (rs_server s)). user_pipe sv1 i = user_pipe (rs_server s) i) \<and>
    (if l = Joined
     then user_pipe sv1 (nat (room_count (rs_server s))) \<notin> {listenfd, fst sig_pipefd} \<union> user_pipes (rs_server s) \<and>
       (\<exists>k. ks = [k] \<and> k_idx k = room_count (rs_server s) \<and> k_connfd k \<noteq> k_pipefd k)
     else ks = [])"
proof -
  let ?sv = "rs_server s" and ?a = "re_arrival e"
  have inv: "room_inv ?sv" using ok by (simp add: room_ok_def Let_def)
  have reap: "list_all (\<lambda>sig. reaps sig = {}) (re_signals e)" and fork: "ra_fork ?a \<le> 0" and pid: "0 < pid"
    using en inv by (auto simp: Let_def room_inv_def list_all_iff)
  have rds: "(case re_recv e of None \<Rightarrow> None | Some v \<Rightarrow> server_reads listenfd sig_pipefd e ?sv) = None"
    using rd by (cases "re_recv e") auto
  have after: "room_after l ?sv sv1" if "room_handle os listenfd sig_pipefd e ?sv = Inr (Goes_on l sv1)" for l sv1
  proof -
    have "(\<Union>sig \<in> set (re_signals e). reaps sig) \<subseteq> room_children ?sv" using reap by (auto simp: list_all_iff)
    from room_handle_inv [OF inv this, of os listenfd sig_pipefd] that show ?thesis by simp
  qed
  have acts: "server_acts os listenfd sig_pipefd e pid ep refused s = Inr (Arrived l, lets_in ks s sv1)"
    if h: "room_handle os listenfd sig_pipefd e ?sv = Inr (Goes_on l sv1)" and q: "room_sends ?sv sv1 []"
      and ks: "(if l = Joined then new_kid os listenfd sig_pipefd e pid ep ?sv else Inr []) = Inr ks" for l sv1 ks
    using h ks rds room_sends_to [OF q] by (simp add: server_acts_def lets_in_def Let_def enumerate_same cong: if_cong)
  show ?thesis
  proof (cases "re_fd e = listenfd")
    case True
    obtain l sv1 where acc: "room_accept os listenfd sig_pipefd ?a ?sv = Inr (Goes_on l sv1)" and q: "room_sends ?sv sv1 []"
      and same: "\<forall>i < nat (room_count ?sv). room_users sv1 ! i = room_users ?sv ! i"
      and new: "if l = Joined then \<not> ra_connfd ?a < 0 \<and> room_count ?sv < ROOM_USER_LIMIT \<and>
         rc_pipefd (room_users sv1 ! nat (room_count ?sv)) = ra_pipefd ?a else True"
      using room_accept_effect [OF inv fork, of os listenfd sig_pipefd] by blast
    have h: "room_handle os listenfd sig_pipefd e ?sv = Inr (Goes_on l sv1)" using True acc by (simp add: room_handle_def)
    have pipes: "\<forall>i < nat (room_count ?sv). user_pipe sv1 i = user_pipe ?sv i" using same by (simp add: user_pipe_def)
    show ?thesis
    proof (cases "l = Joined")
      case False
      with acts [OF h q, of "[]"] after [OF h] pipes show ?thesis by auto
    next
      case joined: True
      with new have c: "\<not> ra_connfd ?a < 0" "room_count ?sv < ROOM_USER_LIMIT" "rc_pipefd (room_users sv1 ! nat (room_count ?sv)) = ra_pipefd ?a"
        by simp_all
      have n: "room_user_at (room_count ?sv) ?sv = Inr (room_users ?sv ! nat (room_count ?sv))" "nat (room_count ?sv) < length (room_users ?sv)"
        "0 \<le> room_count ?sv" "room_count ?sv < int (length (room_users ?sv))"
        using inv c by (auto simp: room_inv_def room_user_at_def)
      have "\<exists>k. new_kid os listenfd sig_pipefd e pid ep ?sv = Inr [k] \<and> k_idx k = room_count ?sv \<and> k_connfd k = ra_connfd ?a \<and>
        k_pipefd k = snd (ra_pipefd ?a)"
        using True c n pid by (simp add: new_kid_def room_handle_def room_accept_def Let_def start_room_child_def)
      then obtain k where k: "new_kid os listenfd sig_pipefd e pid ep ?sv = Inr [k]" "k_idx k = room_count ?sv" "k_connfd k = ra_connfd ?a"
        "k_pipefd k = snd (ra_pipefd ?a)" by blast
      have "fst (ra_pipefd ?a) \<notin> {listenfd, fst sig_pipefd} \<union> user_pipes ?sv" "ra_connfd ?a \<noteq> snd (ra_pipefd ?a)"
        using en by (auto simp: Let_def)
      then have "user_pipe sv1 (nat (room_count ?sv)) \<notin> {listenfd, fst sig_pipefd} \<union> user_pipes ?sv \<and> k_connfd k \<noteq> k_pipefd k"
        using c(3) k by (simp add: user_pipe_def)
      with acts [OF h q, of "[k]"] after [OF h] joined pipes k show ?thesis
        by (intro exI [of _ l] exI [of _ sv1] exI [of _ "[k]"]) auto
    qed
  next
    case other: False
    have "\<exists>sv1. room_handle os listenfd sig_pipefd e ?sv = Inr (Goes_on No_change sv1) \<and> room_users sv1 = room_users ?sv \<and> room_sends ?sv sv1 []"
    proof (cases "re_fd e = fst sig_pipefd \<and> re_flags e AND EPOLLIN \<noteq> 0")
      case True
      with other room_signals_effect [OF inv reap] show ?thesis by (fastforce simp: room_handle_def Let_def room_sends_def)
    next
      case False
      have "re_recv e = None" if "re_flags e AND EPOLLIN \<noteq> 0"
      proof -
        have "re_fd e \<noteq> fst sig_pipefd" "re_fd e \<in> user_pipes ?sv" using False other en that by (auto simp: Let_def)
        then have "server_reads listenfd sig_pipefd e ?sv \<noteq> None"
          using other that by (auto simp: server_reads_def user_pipes_def find_None_iff)
        with rd show ?thesis by simp
      qed
      with other False have "room_handle os listenfd sig_pipefd e ?sv = Inr (Goes_on No_change ?sv)"
        by (cases "re_flags e AND EPOLLIN = 0") (auto simp: room_handle_def Let_def)
      then show ?thesis by (intro exI [of _ ?sv]) (simp add: room_sends_def reports_def)
    qed
    then obtain sv1 where h: "room_handle os listenfd sig_pipefd e ?sv = Inr (Goes_on No_change sv1)"
      and u: "room_users sv1 = room_users ?sv" and q: "room_sends ?sv sv1 []" by blast
    from acts [OF h q, of "[]"] after [OF h] u show ?thesis by (auto simp: user_pipe_def)
  qed
qed

section \<open>Steps of a client's process\<close>

definition same_kid :: "room_child \<Rightarrow> room_child \<Rightarrow> bool" where
  "same_kid k k1 \<longleftrightarrow> k_idx k1 = k_idx k \<and> k_connfd k1 = k_connfd k \<and> k_pipefd k1 = k_pipefd k"

definition kid_moves :: "nat \<Rightarrow> room_child \<Rightarrow> nat \<Rightarrow> room_system \<Rightarrow> room_system" where
  "kid_moves j k1 n s = s\<lparr>rs_kids := (rs_kids s)[j := k1], rs_left := (rs_left s)[j := n]\<rparr>"

definition segment_text :: "char list \<Rightarrow> buf" where
  "segment_text bs = bs @ replicate (ROOM_BUFFER_SIZE - length bs) NUL"

lemma client_acts_outcome:
  assumes ok: "room_ok listenfd sig_pipefd s" and en: "room_enabled listenfd sig_pipefd (Client j e refused) s"
  shows "\<exists>l k1 s1. client_acts j e refused s = Inr (l, kid_moves j k1 (rs_left s ! j - 1) s1) \<and> same_kid (rs_kids s ! j) k1 \<and>
    ((\<exists>bs. l = Stored j bs (\<not> refused) \<and> length bs < ROOM_BUFFER_SIZE \<and>
        s1 = s\<lparr>rs_memory := (rs_memory s)[j := segment_text bs], rs_up := (rs_up s)[j := rs_up s ! j @ (if refused then [] else [int j])]\<rparr>) \<or>
     l = Cleared j \<and> s1 = s\<lparr>rs_memory := (rs_memory s)[j := segment_text []]\<rparr> \<or>
     (\<exists>i. l = Shown j i [rs_memory s ! i] \<and> rs_down s ! j = int i # tl (rs_down s ! j) \<and>
        s1 = s\<lparr>rs_down := (rs_down s)[j := tl (rs_down s ! j)]\<rparr>) \<or>
     l = Other \<and> s1 = s)"
proof -
  let ?k = "rs_kids s ! j" and ?n = "nat (room_count (rs_server s))"
  have j: "j < ?n" "j < length (rs_memory s)" and idx: "k_idx ?k = int j" and ne: "k_connfd ?k \<noteq> k_pipefd ?k"
    and down: "set (rs_down s ! j) \<subseteq> int ` ({..<?n} - {j})" and mem: "int (length (rs_memory s)) = ROOM_USER_LIMIT"
    and inv: "room_inv (rs_server s)"
    using ok en by (auto simp: room_ok_def Let_def room_inv_def)
  have seg: "segment_at (int i) (rs_memory s) = Inr (rs_memory s ! i)" if "i < ?n" for i
    using that mem inv by (auto simp: segment_at_def room_inv_def)
  consider (hears) "client_hears e ?k" | (reads) "client_reads e ?k" "\<not> client_hears e ?k" | (idle) "\<not> client_hears e ?k" "\<not> client_reads e ?k"
    by blast
  then show ?thesis
  proof cases
    case hears
    then have h: "room_child_handle e ?k (rs_memory s) = room_child_read (rk_data e) ?k (rs_memory s)" and nr: "\<not> client_reads e ?k"
      by (auto simp: room_child_handle_def client_hears_def client_reads_def)
    show ?thesis
    proof (cases "rk_data e")
      case (Recv_bytes bs)
      then have len: "length bs < ROOM_BUFFER_SIZE" using en by (simp add: Let_def)
      then have put: "put_bytes (replicate ROOM_BUFFER_SIZE NUL) 0 bs = Inr (segment_text bs)" by (simp add: put_bytes_def segment_text_def)
      let ?k1 = "?k\<lparr>k_net := emit (Send_int (k_pipefd ?k) (int j)) (k_net ?k)\<rparr>"
      have "room_child_handle e ?k (rs_memory s) = Inr (?k1, (rs_memory s)[j := segment_text bs])"
        unfolding h using seg [OF j(1)] put Recv_bytes by (simp add: room_child_read_def idx Let_def)
      moreover have "sent_to (k_pipefd ?k) (k_net ?k) (k_net ?k1) = [int j]" by (simp add: sent_to_def reports_def)
      ultimately have "client_acts j e refused s = Inr (Stored j bs (\<not> refused), kid_moves j ?k1 (rs_left s ! j - 1)
          (s\<lparr>rs_memory := (rs_memory s)[j := segment_text bs], rs_up := (rs_up s)[j := rs_up s ! j @ (if refused then [] else [int j])]\<rparr>))"
        using hears nr Recv_bytes by (simp add: client_acts_def Let_def kid_moves_def split: number_answer.split)
      then show ?thesis using len by (auto simp: same_kid_def)
    next
      case Recv_eof
      let ?k1 = "?k\<lparr>stop_child := True\<rparr>"
      have "room_child_handle e ?k (rs_memory s) = Inr (?k1, (rs_memory s)[j := segment_text []])"
        unfolding h using seg [OF j(1)] Recv_eof by (simp add: room_child_read_def idx Let_def segment_text_def)
      then have "client_acts j e refused s = Inr (Cleared j, kid_moves j ?k1 (rs_left s ! j - 1) (s\<lparr>rs_memory := (rs_memory s)[j := segment_text []]\<rparr>))"
        using hears nr Recv_eof by (simp add: client_acts_def Let_def kid_moves_def sent_to_def reports_def split: number_answer.split)
      then show ?thesis by (auto simp: same_kid_def)
    next
      case Recv_again
      let ?k1 = "?k"
      have "room_child_handle e ?k (rs_memory s) = Inr (?k1, (rs_memory s)[j := segment_text []])"
        unfolding h using seg [OF j(1)] Recv_again by (simp add: room_child_read_def idx Let_def segment_text_def)
      then have "client_acts j e refused s = Inr (Cleared j, kid_moves j ?k1 (rs_left s ! j - 1) (s\<lparr>rs_memory := (rs_memory s)[j := segment_text []]\<rparr>))"
        using hears nr Recv_again by (simp add: client_acts_def Let_def kid_moves_def sent_to_def reports_def split: number_answer.split)
      then show ?thesis by (auto simp: same_kid_def)
    next
      case Recv_error
      let ?k1 = "?k\<lparr>stop_child := True\<rparr>"
      have "room_child_handle e ?k (rs_memory s) = Inr (?k1, (rs_memory s)[j := segment_text []])"
        unfolding h using seg [OF j(1)] Recv_error by (simp add: room_child_read_def idx Let_def segment_text_def)
      then have "client_acts j e refused s = Inr (Cleared j, kid_moves j ?k1 (rs_left s ! j - 1) (s\<lparr>rs_memory := (rs_memory s)[j := segment_text []]\<rparr>))"
        using hears nr Recv_error by (simp add: client_acts_def Let_def kid_moves_def sent_to_def reports_def split: number_answer.split)
      then show ?thesis by (auto simp: same_kid_def)
    qed
  next
    case reads
    then have h: "room_child_handle e ?k (rs_memory s) = map_res (\<lambda>s1. (s1, rs_memory s)) (room_child_notified (rk_number e) ?k (rs_memory s))"
      by (auto simp: room_child_handle_def client_hears_def client_reads_def)
    show ?thesis
    proof (cases "rk_number e")
      case (Number v)
      have "rs_down s ! j \<noteq> []" "v = hd (rs_down s ! j)" using en reads Number by (simp_all add: Let_def)
      then have d: "rs_down s ! j = v # tl (rs_down s ! j)" by simp
      then have "v \<in> int ` ({..<?n} - {j})" using down by (metis list.set_intros(1) subsetD)
      then obtain i where i: "v = int i" "i < ?n" by auto
      let ?k1 = "?k\<lparr>k_net := emit (Send (k_connfd ?k) (rs_memory s ! i)) (k_net ?k)\<rparr>"
      have "room_child_handle e ?k (rs_memory s) = Inr (?k1, rs_memory s)"
        unfolding h using seg [OF i(2)] by (simp add: Number i room_child_notified_def)
      then have "client_acts j e refused s = Inr (Shown j i [rs_memory s ! i], kid_moves j ?k1 (rs_left s ! j - 1) (s\<lparr>rs_down := (rs_down s)[j := tl (rs_down s ! j)]\<rparr>))"
        using reads i by (simp add: client_acts_def Let_def kid_moves_def Number sent_to_def reports_def texts_sent_def)
      then show ?thesis using d i by (auto simp: same_kid_def)
    next
      case Number_again
      then have "room_child_handle e ?k (rs_memory s) = Inr (?k, rs_memory s)" unfolding h by (simp add: room_child_notified_def)
      then have "client_acts j e refused s = Inr (Other, kid_moves j ?k (rs_left s ! j - 1) s)"
        using reads Number_again by (simp add: client_acts_def Let_def kid_moves_def sent_to_def reports_def)
      then show ?thesis by (auto simp: same_kid_def)
    next
      case Number_end
      then have "room_child_handle e ?k (rs_memory s) = Inr (?k\<lparr>stop_child := True\<rparr>, rs_memory s)" unfolding h by (simp add: room_child_notified_def)
      then have "client_acts j e refused s = Inr (Other, kid_moves j (?k\<lparr>stop_child := True\<rparr>) (rs_left s ! j - 1) s)"
        using reads Number_end by (simp add: client_acts_def Let_def kid_moves_def sent_to_def reports_def)
      then show ?thesis by (auto simp: same_kid_def)
    qed
  next
    case idle
    then have "room_child_handle e ?k (rs_memory s) = Inr (?k, rs_memory s)"
      by (auto simp: room_child_handle_def client_hears_def client_reads_def)
    then have "client_acts j e refused s = Inr (Other, kid_moves j ?k (rs_left s ! j - 1) s)"
      using idle by (simp add: client_acts_def Let_def kid_moves_def sent_to_def reports_def split: number_answer.split)
    then show ?thesis by (auto simp: same_kid_def)
  qed
qed

section \<open>The invariant\<close>

lemma nth_appended: "j < length xs \<Longrightarrow> map (\<lambda>(j, vs). vs @ f j) (enumerate 0 xs) ! j = xs ! j @ f j"
  by (simp add: nth_enumerate_eq)

lemma ok_passes_on:
  assumes ok: "room_ok listenfd sig_pipefd s" and i: "i < nat (room_count (rs_server s))" "rs_up s ! i \<noteq> []"
  shows "room_ok listenfd sig_pipefd (passes_on i refused s ((rs_server s)\<lparr>room_net := w\<rparr>))"
proof -
  let ?n = "nat (room_count (rs_server s))"
  have down: "length (rs_down s) = ?n" "\<And>j. j < ?n \<Longrightarrow> set (rs_down s ! j) \<subseteq> int ` ({..<?n} - {j})"
    and up: "length (rs_up s) = ?n" "\<And>k. k < ?n \<Longrightarrow> set (rs_up s ! k) \<subseteq> {int k}"
    using ok by (simp_all add: room_ok_def Let_def)
  have "set (rs_down (passes_on i refused s sv1) ! j) \<subseteq> int ` ({..<?n} - {j})" if "j < ?n" for j sv1
    using down(2) [OF that] i(1) that down(1) nth_appended [of j "rs_down s" "\<lambda>j. if j = i \<or> j \<in> set refused then [] else [int i]"]
    by (auto simp: passes_on_def)
  moreover have "set (rs_up (passes_on i refused s sv1) ! k) \<subseteq> {int k}" if "k < ?n" for k sv1
    using up(2) [OF that] up(1) that i(2) by (cases "k = i") (auto simp: passes_on_def dest: list.set_sel(2))
  moreover have "user_pipe ((rs_server s)\<lparr>room_net := w\<rparr>) = user_pipe (rs_server s)"
    "user_pipes ((rs_server s)\<lparr>room_net := w\<rparr>) = user_pipes (rs_server s)" by (simp_all add: user_pipe_def user_pipes_def fun_eq_iff)
  ultimately show ?thesis using ok by (simp add: room_ok_def Let_def) (simp add: passes_on_def)
qed

lemma ok_same_users:
  assumes ok: "room_ok listenfd sig_pipefd s" and after: "room_inv sv1" "room_count sv1 = room_count (rs_server s)"
    and same: "\<forall>i < nat (room_count (rs_server s)). user_pipe sv1 i = user_pipe (rs_server s) i"
  shows "room_ok listenfd sig_pipefd (lets_in [] s sv1)"
proof -
  have "user_pipes sv1 = user_pipes (rs_server s)" using same after by (auto simp: user_pipes_def image_def)
  moreover have "inj_on (user_pipe sv1) {..<nat (room_count (rs_server s))} \<longleftrightarrow> inj_on (user_pipe (rs_server s)) {..<nat (room_count (rs_server s))}"
    using same by (auto intro!: inj_on_cong)
  ultimately show ?thesis using ok after by (simp add: room_ok_def Let_def lets_in_def)
qed

lemma ok_new_kid:
  assumes ok: "room_ok listenfd sig_pipefd s" and after: "room_inv sv1" "room_count sv1 = room_count (rs_server s) + 1"
    and same: "\<forall>i < nat (room_count (rs_server s)). user_pipe sv1 i = user_pipe (rs_server s) i"
    and new: "user_pipe sv1 (nat (room_count (rs_server s))) \<notin> {listenfd, fst sig_pipefd} \<union> user_pipes (rs_server s)"
    and k: "k_idx k = room_count (rs_server s)" "k_connfd k \<noteq> k_pipefd k"
  shows "room_ok listenfd sig_pipefd (lets_in [k] s sv1)"
proof -
  let ?n = "nat (room_count (rs_server s))"
  have len: "length (rs_kids s) = ?n" "length (rs_up s) = ?n" "length (rs_down s) = ?n" and p: "0 \<le> room_count (rs_server s)"
    using ok by (auto simp: room_ok_def Let_def room_inv_def)
  have n1: "nat (room_count sv1) = Suc ?n" using after p by simp
  have pipes: "user_pipes sv1 = insert (user_pipe sv1 ?n) (user_pipes (rs_server s))"
    using same unfolding user_pipes_def n1 lessThan_Suc image_insert by auto
  have "inj_on (user_pipe (rs_server s)) {..<?n}" using ok by (simp add: room_ok_def Let_def)
  then have "inj_on (user_pipe sv1) {..<?n}" using same by (auto simp: inj_on_def)
  moreover have "user_pipe sv1 ?n \<notin> user_pipe sv1 ` {..<?n}" using new same by (auto simp: user_pipes_def)
  ultimately have "inj_on (user_pipe sv1) {..<Suc ?n}" by (auto simp: lessThan_Suc)
  moreover have "\<forall>i < Suc ?n. k_idx ((rs_kids s @ [k]) ! i) = int i \<and> k_connfd ((rs_kids s @ [k]) ! i) \<noteq> k_pipefd ((rs_kids s @ [k]) ! i)"
    using ok k len p by (auto simp: room_ok_def Let_def nth_append less_Suc_eq)
  moreover have "\<forall>i < Suc ?n. set ((rs_up s @ [[]]) ! i) \<subseteq> {int i}"
    using ok len by (auto simp: room_ok_def Let_def nth_append less_Suc_eq)
  moreover have "\<forall>j < Suc ?n. set ((rs_down s @ [[]]) ! j) \<subseteq> int ` ({..<Suc ?n} - {j})"
  proof (intro allI impI)
    fix j assume j: "j < Suc ?n"
    show "set ((rs_down s @ [[]]) ! j) \<subseteq> int ` ({..<Suc ?n} - {j})"
    proof (cases "j = ?n")
      case False
      then have "set (rs_down s ! j) \<subseteq> int ` ({..<?n} - {j})" using ok j by (simp add: room_ok_def Let_def)
      also have "\<dots> \<subseteq> int ` ({..<Suc ?n} - {j})" by (intro image_mono) auto
      finally show ?thesis using False j len by (simp add: nth_append)
    qed (simp add: nth_append len)
  qed
  ultimately show ?thesis using ok new after(1) len by (simp add: room_ok_def Let_def lets_in_def n1 pipes)
qed

lemma ok_kid_moves:
  assumes ok: "room_ok listenfd sig_pipefd s" and j: "j < nat (room_count (rs_server s))" and same: "same_kid (rs_kids s ! j) k1"
    and s1: "rs_server s1 = rs_server s" "rs_kids s1 = rs_kids s" "rs_left s1 = rs_left s" "length (rs_memory s1) = length (rs_memory s)"
      "\<forall>b \<in> set (rs_memory s1). length b = ROOM_BUFFER_SIZE"
    and up: "length (rs_up s1) = length (rs_up s)" "\<forall>i < nat (room_count (rs_server s)). set (rs_up s1 ! i) \<subseteq> insert (int i) (set (rs_up s ! i))"
    and down: "length (rs_down s1) = length (rs_down s)" "\<forall>i < nat (room_count (rs_server s)). set (rs_down s1 ! i) \<subseteq> set (rs_down s ! i)"
  shows "room_ok listenfd sig_pipefd (kid_moves j k1 m s1)"
proof -
  let ?n = "nat (room_count (rs_server s))"
  have "\<forall>i < ?n. set (rs_up s1 ! i) \<subseteq> {int i}" using ok up(2) by (fastforce simp: room_ok_def Let_def)
  moreover have "\<forall>i < ?n. set (rs_down s1 ! i) \<subseteq> int ` ({..<?n} - {i})"
  proof (intro allI impI)
    fix i assume i: "i < ?n"
    with down(2) have "set (rs_down s1 ! i) \<subseteq> set (rs_down s ! i)" by blast
    also have "\<dots> \<subseteq> int ` ({..<?n} - {i})" using ok i by (simp add: room_ok_def Let_def)
    finally show "set (rs_down s1 ! i) \<subseteq> int ` ({..<?n} - {i})" .
  qed
  ultimately show ?thesis using ok j same s1 up(1) down(1)
    by (simp add: room_ok_def Let_def kid_moves_def) (auto simp: nth_list_update same_kid_def)
qed

section \<open>Counting\<close>

text \<open>
  The announcements of client i that reached its pipe and those the server read, the numbers i the server wrote to client
  j, and those client j was shown the segment for.
\<close>

definition stores :: "nat \<Rightarrow> room_happens list \<Rightarrow> nat" where
  "stores i ls = length (filter (\<lambda>l. case l of Stored k bs announced \<Rightarrow> k = i \<and> announced | _ \<Rightarrow> False) ls)"

definition relays :: "nat \<Rightarrow> room_happens list \<Rightarrow> nat" where
  "relays i ls = length (filter (\<lambda>l. case l of Relayed k got lost \<Rightarrow> k = i | _ \<Rightarrow> False) ls)"

definition relayed_to :: "nat \<Rightarrow> nat \<Rightarrow> room_happens list \<Rightarrow> nat" where
  "relayed_to j i ls = length (filter (\<lambda>l. case l of Relayed k got lost \<Rightarrow> k = i \<and> j \<in> set got | _ \<Rightarrow> False) ls)"

definition shows_to :: "nat \<Rightarrow> nat \<Rightarrow> room_happens list \<Rightarrow> nat" where
  "shows_to j i ls = length (filter (\<lambda>l. case l of Shown k m ts \<Rightarrow> k = j \<and> m = i | _ \<Rightarrow> False) ls)"

text \<open>The clients that have joined.\<close>

definition joined :: "room_happens list \<Rightarrow> nat" where
  "joined ls = count_list ls (Arrived Joined)"

text \<open>What segment i holds after a trace.\<close>

definition written :: "nat \<Rightarrow> buf \<Rightarrow> room_happens \<Rightarrow> buf" where
  "written i b l = (case l of Stored k bs announced \<Rightarrow> if k = i then segment_text bs else b
     | Cleared k \<Rightarrow> if k = i then segment_text [] else b | _ \<Rightarrow> b)"

definition segment :: "buf list \<Rightarrow> room_happens list \<Rightarrow> nat \<Rightarrow> buf" where
  "segment memory ls i = foldl (written i) (memory ! i) ls"

lemma counts_snoc:
  "stores i (ls @ [l]) = stores i ls + (case l of Stored k bs announced \<Rightarrow> of_bool (k = i \<and> announced) | _ \<Rightarrow> 0)"
  "relays i (ls @ [l]) = relays i ls + (case l of Relayed k got lost \<Rightarrow> of_bool (k = i) | _ \<Rightarrow> 0)"
  "relayed_to j i (ls @ [l]) = relayed_to j i ls + (case l of Relayed k got lost \<Rightarrow> of_bool (k = i \<and> j \<in> set got) | _ \<Rightarrow> 0)"
  "shows_to j i (ls @ [l]) = shows_to j i ls + (case l of Shown k m ts \<Rightarrow> of_bool (k = j \<and> m = i) | _ \<Rightarrow> 0)"
  "joined (ls @ [l]) = joined ls + of_bool (l = Arrived Joined)"
  "segment memory (ls @ [l]) i = written i (segment memory ls i) l"
  by (simp_all add: stores_def relays_def relayed_to_def shows_to_def joined_def segment_def split: room_happens.splits)

definition up_counted :: "room_happens list \<Rightarrow> room_system \<Rightarrow> bool" where
  "up_counted ls s \<longleftrightarrow> (\<forall>i. stores i ls = relays i ls + (if i < length (rs_up s) then length (rs_up s ! i) else 0))"

definition down_counted :: "room_happens list \<Rightarrow> room_system \<Rightarrow> bool" where
  "down_counted ls s \<longleftrightarrow> (\<forall>j i. shows_to j i ls + (if j < length (rs_down s) then count_list (rs_down s ! j) (int i) else 0) =
     relayed_to j i ls)"

definition memory_counted :: "buf list \<Rightarrow> room_happens list \<Rightarrow> room_system \<Rightarrow> bool" where
  "memory_counted memory ls s \<longleftrightarrow> joined ls = length (rs_up s) \<and>
     length memory = length (rs_memory s) \<and> (\<forall>i < length (rs_memory s). rs_memory s ! i = segment memory ls i)"

definition room_counted :: "buf list \<Rightarrow> room_happens list \<Rightarrow> room_system \<Rightarrow> bool" where
  "room_counted memory ls s \<longleftrightarrow> up_counted ls s \<and> down_counted ls s \<and> memory_counted memory ls s"

lemma counted_passes_on:
  assumes c: "room_counted memory ls s" and i: "i < length (rs_up s)" "rs_up s ! i \<noteq> []"
    and got: "\<And>j. j \<in> set got \<longleftrightarrow> j < length (rs_down s) \<and> j \<noteq> i \<and> j \<notin> set refused"
  shows "room_counted memory (ls @ [Relayed i got lost]) (passes_on i refused s sv1)"
proof -
  let ?s = "passes_on i refused s sv1"
  have st: "stores k ls = relays k ls + (if k < length (rs_up s) then length (rs_up s ! k) else 0)"
    and sh: "shows_to j k ls + (if j < length (rs_down s) then count_list (rs_down s ! j) (int k) else 0) = relayed_to j k ls" for j k
    using c by (simp_all add: room_counted_def up_counted_def down_counted_def)
  have "up_counted (ls @ [Relayed i got lost]) ?s" unfolding up_counted_def
  proof
    fix k show "stores k (ls @ [Relayed i got lost]) = relays k (ls @ [Relayed i got lost]) + (if k < length (rs_up ?s) then length (rs_up ?s ! k) else 0)"
      using st [of k] i by (cases "k = i") (auto simp: counts_snoc passes_on_def)
  qed
  moreover have "down_counted (ls @ [Relayed i got lost]) ?s" unfolding down_counted_def
  proof (intro allI)
    fix j k
    have len: "length (rs_down ?s) = length (rs_down s)" by (simp add: passes_on_def)
    have "rs_down ?s ! j = rs_down s ! j @ (if j = i \<or> j \<in> set refused then [] else [int i])" if "j < length (rs_down s)"
      using nth_appended [OF that, of "\<lambda>j. if j = i \<or> j \<in> set refused then [] else [int i]"] by (simp add: passes_on_def)
    then show "shows_to j k (ls @ [Relayed i got lost]) + (if j < length (rs_down ?s) then count_list (rs_down ?s ! j) (int k) else 0) =
        relayed_to j k (ls @ [Relayed i got lost])"
      using sh [of j k] unfolding len counts_snoc by (cases "j < length (rs_down s)") (auto simp: got)
  qed
  moreover have "memory_counted memory (ls @ [Relayed i got lost]) ?s"
    using c by (simp add: room_counted_def memory_counted_def counts_snoc written_def) (simp add: passes_on_def)
  ultimately show ?thesis by (simp add: room_counted_def)
qed

lemma counted_lets_in:
  assumes c: "room_counted memory ls s" and ks: "length ks = of_bool (l = Joined)"
  shows "room_counted memory (ls @ [Arrived l]) (lets_in ks s sv1)"
proof -
  let ?s = "lets_in ks s sv1"
  have st: "stores k ls = relays k ls + (if k < length (rs_up s) then length (rs_up s ! k) else 0)"
    and sh: "shows_to j k ls + (if j < length (rs_down s) then count_list (rs_down s ! j) (int k) else 0) = relayed_to j k ls" for j k
    using c by (simp_all add: room_counted_def up_counted_def down_counted_def)
  have new: "map (\<lambda>_. []) ks ! m = []" if "m < length ks" for m using that by simp
  have "up_counted (ls @ [Arrived l]) ?s" unfolding up_counted_def
  proof
    fix k show "stores k (ls @ [Arrived l]) = relays k (ls @ [Arrived l]) + (if k < length (rs_up ?s) then length (rs_up ?s ! k) else 0)"
      using st [of k] by (auto simp: counts_snoc lets_in_def nth_append)
  qed
  moreover have "down_counted (ls @ [Arrived l]) ?s" unfolding down_counted_def
  proof (intro allI)
    fix j k show "shows_to j k (ls @ [Arrived l]) + (if j < length (rs_down ?s) then count_list (rs_down ?s ! j) (int k) else 0) =
        relayed_to j k (ls @ [Arrived l])"
      using sh [of j k] by (auto simp: counts_snoc lets_in_def nth_append)
  qed
  moreover have "memory_counted memory (ls @ [Arrived l]) ?s"
    using c ks by (simp add: room_counted_def memory_counted_def counts_snoc written_def lets_in_def)
  ultimately show ?thesis by (simp add: room_counted_def)
qed

lemma counted_kid:
  assumes c: "room_counted memory ls s" and j: "j < length (rs_up s)" "j < length (rs_down s)" "j < length (rs_memory s)"
  shows "room_counted memory (ls @ [Stored j bs (\<not> refused)]) (kid_moves j k1 n
      (s\<lparr>rs_memory := (rs_memory s)[j := segment_text bs], rs_up := (rs_up s)[j := rs_up s ! j @ (if refused then [] else [int j])]\<rparr>))"
    and "room_counted memory (ls @ [Cleared j]) (kid_moves j k1 n (s\<lparr>rs_memory := (rs_memory s)[j := segment_text []]\<rparr>))"
    and "rs_down s ! j = int i # tl (rs_down s ! j) \<Longrightarrow>
      room_counted memory (ls @ [Shown j i ts]) (kid_moves j k1 n (s\<lparr>rs_down := (rs_down s)[j := tl (rs_down s ! j)]\<rparr>))"
    and "room_counted memory (ls @ [Other]) (kid_moves j k1 n s)"
proof -
  have st: "stores k ls = relays k ls + (if k < length (rs_up s) then length (rs_up s ! k) else 0)"
    and sh: "shows_to m k ls + (if m < length (rs_down s) then count_list (rs_down s ! m) (int k) else 0) = relayed_to m k ls"
    and seg: "joined ls = length (rs_up s)" "length memory = length (rs_memory s)" "\<And>k. k < length (rs_memory s) \<Longrightarrow> rs_memory s ! k = segment memory ls k" for m k
    using c by (simp_all add: room_counted_def up_counted_def down_counted_def memory_counted_def)
  have sh1: "m < length (rs_down s) \<Longrightarrow> shows_to m k ls + count_list (rs_down s ! m) (int k) = relayed_to m k ls"
    and sh2: "\<not> m < length (rs_down s) \<Longrightarrow> shows_to m k ls = relayed_to m k ls" for m k
    using sh [of m k] by simp_all
  note parts = room_counted_def up_counted_def down_counted_def memory_counted_def counts_snoc kid_moves_def
  show "room_counted memory (ls @ [Stored j bs (\<not> refused)]) (kid_moves j k1 n
      (s\<lparr>rs_memory := (rs_memory s)[j := segment_text bs], rs_up := (rs_up s)[j := rs_up s ! j @ (if refused then [] else [int j])]\<rparr>))"
    using st sh1 sh2 seg j by (simp add: parts) (auto simp: nth_list_update written_def)
  show "room_counted memory (ls @ [Cleared j]) (kid_moves j k1 n (s\<lparr>rs_memory := (rs_memory s)[j := segment_text []]\<rparr>))"
    using st sh1 sh2 seg j by (simp add: parts) (auto simp: nth_list_update written_def)
  show "room_counted memory (ls @ [Other]) (kid_moves j k1 n s)"
    using st sh1 sh2 seg j by (simp add: parts) (auto simp: written_def)
  assume d: "rs_down s ! j = int i # tl (rs_down s ! j)"
  have cnt: "count_list (rs_down s ! j) (int k) = (if k = i then 1 else 0) + count_list (tl (rs_down s ! j)) (int k)" for k
    by (subst d) simp
  let ?s = "kid_moves j k1 n (s\<lparr>rs_down := (rs_down s)[j := tl (rs_down s ! j)]\<rparr>)"
  have "down_counted (ls @ [Shown j i ts]) ?s" unfolding down_counted_def
  proof (intro allI)
    fix m k show "shows_to m k (ls @ [Shown j i ts]) + (if m < length (rs_down ?s) then count_list (rs_down ?s ! m) (int k) else 0) =
        relayed_to m k (ls @ [Shown j i ts])"
      using sh [of m k] cnt [of k] j by (cases "m = j"; cases "k = i") (auto simp: counts_snoc kid_moves_def)
  qed
  moreover have "up_counted (ls @ [Shown j i ts]) ?s" and "memory_counted memory (ls @ [Shown j i ts]) ?s"
    using st seg by (simp_all add: parts written_def)
  ultimately show "room_counted memory (ls @ [Shown j i ts]) ?s" by (simp add: room_counted_def)
qed

text \<open>Every enabled action is defined and keeps the invariant and the counts; a text that is shown is the segment's.\<close>

lemma room_move_outcome:
  assumes mv: "room_moves os listenfd sig_pipefd s l r" and ok: "room_ok listenfd sig_pipefd s"
  shows "\<exists>s'. r = Some s' \<and> room_ok listenfd sig_pipefd s' \<and>
    (\<forall>memory ls. room_counted memory ls s \<longrightarrow> room_counted memory (ls @ [l]) s' \<and>
       (\<forall>j i ts. l = Shown j i ts \<longrightarrow> ts = [segment memory ls i]) \<and>
       (\<forall>i got lost. l = Relayed i got lost \<longrightarrow> reaches (joined ls) i got lost))"
proof -
  let ?sv = "rs_server s"
  have len: "length (rs_up s) = nat (room_count ?sv)" "length (rs_down s) = nat (room_count ?sv)" "length (rs_kids s) = nat (room_count ?sv)"
    and mem: "nat (room_count ?sv) \<le> length (rs_memory s)" and b: "\<forall>b \<in> set (rs_memory s). length b = ROOM_BUFFER_SIZE"
    using ok by (auto simp: room_ok_def Let_def room_inv_def)
  define good where "good l1 s1 \<longleftrightarrow> room_ok listenfd sig_pipefd s1 \<and>
    (\<forall>memory ls. room_counted memory ls s \<longrightarrow> room_counted memory (ls @ [l1]) s1 \<and>
       (\<forall>j i ts. l1 = Shown j i ts \<longrightarrow> ts = [segment memory ls i]) \<and>
       (\<forall>i got lost. l1 = Relayed i got lost \<longrightarrow> reaches (joined ls) i got lost))" for l1 s1
  have jo: "joined ls = nat (room_count ?sv)" if "room_counted memory ls s" for memory ls
    using that len(1) by (simp add: room_counted_def memory_counted_def)
  have "\<exists>l1 s1. room_act os listenfd sig_pipefd a s = Inr (l1, s1) \<and> good l1 s1" if en: "room_enabled listenfd sig_pipefd a s" for a
  proof (cases a)
    case (Server e pid ep refused)
    note en = en [unfolded Server]
    show ?thesis
    proof (cases "server_reads listenfd sig_pipefd e ?sv = None \<or> re_recv e = None")
      case False
      then obtain i v where rd: "server_reads listenfd sig_pipefd e ?sv = Some i" "re_recv e = Some v" by auto
      from server_relays [OF ok en rd] obtain w got lost where
        acts: "server_acts os listenfd sig_pipefd e pid ep refused s = Inr (Relayed i got lost, passes_on i refused s (?sv\<lparr>room_net := w\<rparr>))"
        and re: "reaches (nat (room_count ?sv)) i got lost"
        and got: "\<And>j. j \<in> set got \<longleftrightarrow> j < length (rs_down s) \<and> j \<noteq> i \<and> j \<notin> set refused" and ne: "rs_up s ! i \<noteq> []"
        unfolding len by blast
      have i: "i < nat (room_count ?sv)" using re by (simp add: reaches_def)
      from i len have "i < length (rs_up s)" by simp
      from counted_passes_on [OF _ this ne got] ok_passes_on [OF ok i ne] re jo
      have "good (Relayed i got lost) (passes_on i refused s (?sv\<lparr>room_net := w\<rparr>))" by (simp add: good_def)
      with acts Server show ?thesis by auto
    next
      case True
      from server_lets_in [OF ok en True, of os] obtain l1 sv1 ks where
        acts: "server_acts os listenfd sig_pipefd e pid ep refused s = Inr (Arrived l1, lets_in ks s sv1)" and after: "room_after l1 ?sv sv1"
        and same: "\<forall>i < nat (room_count ?sv). user_pipe sv1 i = user_pipe ?sv i"
        and new: "if l1 = Joined then user_pipe sv1 (nat (room_count ?sv)) \<notin> {listenfd, fst sig_pipefd} \<union> user_pipes ?sv \<and>
            (\<exists>k. ks = [k] \<and> k_idx k = room_count ?sv \<and> k_connfd k \<noteq> k_pipefd k) else ks = []" by blast
      have "room_ok listenfd sig_pipefd (lets_in ks s sv1)"
      proof (cases "l1 = Joined")
        case True
        with new obtain k where k: "ks = [k]" "k_idx k = room_count ?sv" "k_connfd k \<noteq> k_pipefd k"
          "user_pipe sv1 (nat (room_count ?sv)) \<notin> {listenfd, fst sig_pipefd} \<union> user_pipes ?sv" by auto
        from after True have "room_inv sv1" "room_count sv1 = room_count ?sv + 1" by (simp_all add: room_after_def)
        from ok_new_kid [OF ok this same k(4,2,3)] k(1) show ?thesis by simp
      next
        case False
        from after False have "room_inv sv1" "room_count sv1 = room_count ?sv" by (simp_all add: room_after_def)
        from ok_same_users [OF ok this same] new False show ?thesis by simp
      qed
      moreover have "length ks = of_bool (l1 = Joined)" using new by (auto split: if_splits)
      ultimately have "good (Arrived l1) (lets_in ks s sv1)" using counted_lets_in [of _ _ s ks l1 sv1] by (simp add: good_def)
      with acts Server show ?thesis by auto
    qed
  next
    case (Awaits j n)
    with en len have j: "j < nat (room_count ?sv)" by simp
    then have "j < length (rs_up s)" "j < length (rs_down s)" "j < length (rs_memory s)" using len mem by simp_all
    note counted = counted_kid(4) [OF _ this]
    have "room_ok listenfd sig_pipefd (kid_moves j (rs_kids s ! j) n s)"
      by (rule ok_kid_moves [OF ok j]) (use b in \<open>auto simp: same_kid_def\<close>)
    with counted have "good Other (kid_moves j (rs_kids s ! j) n s)" by (simp add: good_def)
    with Awaits show ?thesis by (simp add: kid_moves_def)
  next
    case (Terminated j)
    with en len have j: "j < nat (room_count ?sv)" by simp
    then have "j < length (rs_up s)" "j < length (rs_down s)" "j < length (rs_memory s)" using len mem by simp_all
    note counted = counted_kid(4) [OF _ this]
    have "room_ok listenfd sig_pipefd (kid_moves j (child_term_handler (rs_kids s ! j)) (rs_left s ! j) s)"
      by (rule ok_kid_moves [OF ok j]) (use b in \<open>auto simp: same_kid_def child_term_handler_def\<close>)
    with counted have "good Other (kid_moves j (child_term_handler (rs_kids s ! j)) (rs_left s ! j) s)" by (simp add: good_def)
    with Terminated show ?thesis by (simp add: kid_moves_def)
  next
    case (Client j e refused)
    note en = en [unfolded Client]
    have j: "j < nat (room_count ?sv)" using en len by simp
    then have jm: "j < length (rs_memory s)" using mem by simp
    note counted = counted_kid [OF _ j [folded len(1)] j [folded len(2)] jm]
    from client_acts_outcome [OF ok en] obtain l1 k1 s1 where acts: "client_acts j e refused s = Inr (l1, kid_moves j k1 (rs_left s ! j - 1) s1)"
      and same: "same_kid (rs_kids s ! j) k1"
      and cases: "(\<exists>bs. l1 = Stored j bs (\<not> refused) \<and> length bs < ROOM_BUFFER_SIZE \<and>
          s1 = s\<lparr>rs_memory := (rs_memory s)[j := segment_text bs], rs_up := (rs_up s)[j := rs_up s ! j @ (if refused then [] else [int j])]\<rparr>) \<or>
        l1 = Cleared j \<and> s1 = s\<lparr>rs_memory := (rs_memory s)[j := segment_text []]\<rparr> \<or>
        (\<exists>i. l1 = Shown j i [rs_memory s ! i] \<and> rs_down s ! j = int i # tl (rs_down s ! j) \<and>
          s1 = s\<lparr>rs_down := (rs_down s)[j := tl (rs_down s ! j)]\<rparr>) \<or> l1 = Other \<and> s1 = s" by blast
    have padded: "length (segment_text bs) = ROOM_BUFFER_SIZE" if "length bs < ROOM_BUFFER_SIZE" for bs
      using that by (simp add: segment_text_def)
    have pos: "0 < ROOM_BUFFER_SIZE" by (simp add: ROOM_BUFFER_SIZE_def)
    note move = ok_kid_moves [OF ok j same]
    from cases have "good l1 (kid_moves j k1 (rs_left s ! j - 1) s1)"
    proof (elim disjE exE conjE)
      fix bs assume l1: "l1 = Stored j bs (\<not> refused)" "length bs < ROOM_BUFFER_SIZE"
        and s1: "s1 = s\<lparr>rs_memory := (rs_memory s)[j := segment_text bs], rs_up := (rs_up s)[j := rs_up s ! j @ (if refused then [] else [int j])]\<rparr>"
      have "room_ok listenfd sig_pipefd (kid_moves j k1 (rs_left s ! j - 1) s1)"
        by (rule move) (use s1 b padded [OF l1(2)] set_update_subset_insert [of "rs_memory s" j "segment_text bs"] len j in \<open>auto simp: nth_list_update split: if_splits\<close>)
      with counted(1) show ?thesis unfolding good_def l1 s1 by blast
    next
      assume l1: "l1 = Cleared j" and s1: "s1 = s\<lparr>rs_memory := (rs_memory s)[j := segment_text []]\<rparr>"
      have "room_ok listenfd sig_pipefd (kid_moves j k1 (rs_left s ! j - 1) s1)"
        by (rule move) (use s1 b padded [of "[]"] pos set_update_subset_insert [of "rs_memory s" j "segment_text []"] in auto)
      with counted(2) show ?thesis unfolding good_def l1 s1 by blast
    next
      fix i assume l1: "l1 = Shown j i [rs_memory s ! i]" and d: "rs_down s ! j = int i # tl (rs_down s ! j)"
        and s1: "s1 = s\<lparr>rs_down := (rs_down s)[j := tl (rs_down s ! j)]\<rparr>"
      have "set (tl (rs_down s ! j)) \<subseteq> set (rs_down s ! j)" by (metis d set_subset_Cons)
      then have "room_ok listenfd sig_pipefd (kid_moves j k1 (rs_left s ! j - 1) s1)"
        by (intro move) (use s1 b len j in \<open>auto simp: nth_list_update\<close>)
      moreover have "set (rs_down s ! j) \<subseteq> int ` ({..<nat (room_count ?sv)} - {j})" using ok j by (simp add: room_ok_def Let_def)
      then have "int i \<in> int ` ({..<nat (room_count ?sv)} - {j})" by (metis d list.set_intros(1) subsetD)
      then have "i < length (rs_memory s)" using mem by auto
      then have "room_counted memory ls s \<Longrightarrow> rs_memory s ! i = segment memory ls i" for memory ls by (simp add: room_counted_def memory_counted_def)
      ultimately show ?thesis using counted(3) [OF _ d] unfolding good_def l1 s1 by simp
    next
      assume l1: "l1 = Other" and s1: "s1 = s"
      have "room_ok listenfd sig_pipefd (kid_moves j k1 (rs_left s ! j - 1) s1)" by (rule move) (use s1 b in auto)
      with counted(4) show ?thesis unfolding good_def l1 s1 by blast
    qed
    with acts Client show ?thesis by auto
  qed
  with mv show ?thesis unfolding good_def by cases fastforce+
qed

interpretation room_safe: safe_system "room_moves os listenfd sig_pipefd" "room_ok listenfd sig_pipefd" "\<lambda>_. True"
  for os listenfd sig_pipefd
  by unfold_locales (use room_move_outcome in blast)

definition room_history :: "int \<Rightarrow> int \<times> int \<Rightarrow> room_system \<Rightarrow> room_happens list \<Rightarrow> room_system \<Rightarrow> bool" where
  "room_history listenfd sig_pipefd s ls s' \<longleftrightarrow>
     (room_ok listenfd sig_pipefd s \<and> rs_up s = [] \<and> rs_down s = [] \<longrightarrow>
       room_ok listenfd sig_pipefd s' \<and> room_counted (rs_memory s) ls s' \<and>
       (\<forall>ls1 j i ts ls2. ls = ls1 @ Shown j i ts # ls2 \<longrightarrow> ts = [segment (rs_memory s) ls1 i]) \<and>
       (\<forall>ls1 i got lost ls2. ls = ls1 @ Relayed i got lost # ls2 \<longrightarrow> reaches (joined ls1) i got lost))"

interpretation room_traced: traced_system "room_moves os listenfd sig_pipefd" "room_history listenfd sig_pipefd"
  for os listenfd sig_pipefd
proof unfold_locales
  show "room_history listenfd sig_pipefd s [] s" for s
    by (simp add: room_history_def room_counted_def up_counted_def down_counted_def memory_counted_def
        stores_def relays_def relayed_to_def shows_to_def segment_def joined_def)
next
  fix s ls s1 l s2
  assume h: "room_history listenfd sig_pipefd s ls s1" and mv: "room_moves os listenfd sig_pipefd s1 l (Some s2)"
  show "room_history listenfd sig_pipefd s (ls @ [l]) s2" unfolding room_history_def
  proof (rule impI)
    assume "room_ok listenfd sig_pipefd s \<and> rs_up s = [] \<and> rs_down s = []"
    with h have ok: "room_ok listenfd sig_pipefd s1" and c: "room_counted (rs_memory s) ls s1"
      and old: "\<And>ls1 j i ts ls2. ls = ls1 @ Shown j i ts # ls2 \<Longrightarrow> ts = [segment (rs_memory s) ls1 i]"
        "\<And>ls1 i got lost ls2. ls = ls1 @ Relayed i got lost # ls2 \<Longrightarrow> reaches (joined ls1) i got lost"
      by (simp_all add: room_history_def)
    from room_move_outcome [OF mv ok] c have step: "room_ok listenfd sig_pipefd s2" "room_counted (rs_memory s) (ls @ [l]) s2"
      "\<And>j i ts. l = Shown j i ts \<Longrightarrow> ts = [segment (rs_memory s) ls i]"
      "\<And>i got lost. l = Relayed i got lost \<Longrightarrow> reaches (joined ls) i got lost" by auto
    have "ts = [segment (rs_memory s) ls1 i]" if "ls @ [l] = ls1 @ Shown j i ts # ls2" for ls1 j i ts ls2
      using that old(1) step(3) by (cases ls2 rule: rev_cases) auto
    moreover have "reaches (joined ls1) i got lost" if "ls @ [l] = ls1 @ Relayed i got lost # ls2" for ls1 i got lost ls2
      using that old(2) step(4) by (cases ls2 rule: rev_cases) auto
    ultimately show "room_ok listenfd sig_pipefd s2 \<and> room_counted (rs_memory s) (ls @ [l]) s2 \<and>
      (\<forall>ls1 j i ts ls2. ls @ [l] = ls1 @ Shown j i ts # ls2 \<longrightarrow> ts = [segment (rs_memory s) ls1 i]) \<and>
      (\<forall>ls1 i got lost ls2. ls @ [l] = ls1 @ Relayed i got lost # ls2 \<longrightarrow> reaches (joined ls1) i got lost)"
      using step(1,2) by blast
  qed
qed

lemma room_system_start_ok:
  assumes "int (length junk) = ROOM_USER_LIMIT" "int (length memory) = ROOM_USER_LIMIT" "\<forall>b \<in> set memory. length b = ROOM_BUFFER_SIZE"
  shows "room_ok listenfd sig_pipefd (room_system_start os listenfd epollfd sig_pipefd junk memory)"
  using assms room_start_inv [OF assms(1), of os listenfd epollfd sig_pipefd]
  by (simp add: room_ok_def Let_def room_system_start_def user_pipes_def) (simp add: room_start_def)

section \<open>Properties\<close>

text \<open>C27. The chat room as a whole, in every interleaving of the server and the clients' processes, with clients that
  join at any time and writes to pipes that fail at any time: nothing is undefined. Every announcement that got into the
  pipe of client i is read by the server once, or still lies there. Each time the server has read one it writes its number
  once to every other client that has joined, and to nobody else; got are those whose pipe takes it, lost the others.
  Client j is shown a segment i exactly once for each number i its pipe has taken, unless the number still lies there.
  But what it is shown is the segment as it is then: the last text that was stored, or
  nothing once the segment has been cleared, whichever message the number was announced for.\<close>

theorem room_relays:
  assumes "int (length junk) = ROOM_USER_LIMIT" "int (length memory) = ROOM_USER_LIMIT" "\<forall>b \<in> set memory. length b = ROOM_BUFFER_SIZE"
    and "run (room_moves os listenfd sig_pipefd) (room_system_start os listenfd epollfd sig_pipefd junk memory) ls r"
  shows "\<exists>s. r = Some s \<and>
    (\<forall>i. stores i ls = relays i ls + (if i < length (rs_up s) then length (rs_up s ! i) else 0)) \<and>
    (\<forall>ls1 i got lost ls2. ls = ls1 @ Relayed i got lost # ls2 \<longrightarrow>
       i < joined ls1 \<and> distinct (got @ lost) \<and> set (got @ lost) = {..<joined ls1} - {i}) \<and>
    (\<forall>j i. shows_to j i ls + (if j < length (rs_down s) then count_list (rs_down s ! j) (int i) else 0) = relayed_to j i ls) \<and>
    (\<forall>ls1 j i ts ls2. ls = ls1 @ Shown j i ts # ls2 \<longrightarrow> ts = [segment memory ls1 i])"
proof -
  let ?s0 = "room_system_start os listenfd epollfd sig_pipefd junk memory"
  note ok = room_system_start_ok [OF assms(1-3), of listenfd sig_pipefd os epollfd]
  from room_safe.run_safe [OF assms(4) ok] obtain s where r: "r = Some s" by auto
  have "rs_memory ?s0 = memory" "rs_up ?s0 = []" "rs_down ?s0 = []" by (simp_all add: room_system_start_def)
  with room_traced.run_rel [OF assms(4) [unfolded r]] ok have "up_counted ls s" "down_counted ls s"
    "\<forall>ls1 j i ts ls2. ls = ls1 @ Shown j i ts # ls2 \<longrightarrow> ts = [segment memory ls1 i]"
    "\<forall>ls1 i got lost ls2. ls = ls1 @ Relayed i got lost # ls2 \<longrightarrow> reaches (joined ls1) i got lost"
    by (simp_all add: room_history_def room_counted_def)
  with r show ?thesis unfolding reaches_def up_counted_def down_counted_def by (intro exI [of _ s] conjI) assumption+
qed

text \<open>A sequence of actions, executed.\<close>

fun room_exec :: "os \<Rightarrow> int \<Rightarrow> int \<times> int \<Rightarrow> room_action list \<Rightarrow> room_system \<Rightarrow> (room_happens list \<times> room_system) option" where
  "room_exec os listenfd sig_pipefd [] s = Some ([], s)"
| "room_exec os listenfd sig_pipefd (a # as) s =
     (if room_enabled listenfd sig_pipefd a s then
        (case room_act os listenfd sig_pipefd a s of
           Inl u \<Rightarrow> None
         | Inr (l, s1) \<Rightarrow> map_option (\<lambda>(ls, s2). (l # ls, s2)) (room_exec os listenfd sig_pipefd as s1))
      else None)"

lemma room_exec_run:
  "room_exec os listenfd sig_pipefd as s = Some (ls, s') \<Longrightarrow> run (room_moves os listenfd sig_pipefd) s ls (Some s')"
proof (induction as arbitrary: s ls)
  case (Cons a as)
  then obtain l s1 ls1 where en: "room_enabled listenfd sig_pipefd a s" and act: "room_act os listenfd sig_pipefd a s = Inr (l, s1)"
    and rest: "room_exec os listenfd sig_pipefd as s1 = Some (ls1, s')" and ls: "ls = l # ls1"
    by (auto split: if_splits sum.splits)
  show ?case unfolding ls by (rule run_Cons [OF room_moves.act [OF en act] Cons.IH [OF rest]])
qed simp

text \<open>Three clients join, and the first sends two messages before the server reads its pipe; the pipe of the third is full at first.\<close>

definition quiet_room :: room_system where
  "quiet_room = room_system_start sample_os 3 4 (5, 6) (replicate 5 \<lparr>rc_address = 0, rc_connfd = 0, rc_pid = 0, rc_pipefd = (0, 0)\<rparr>)
     (replicate 5 (replicate ROOM_BUFFER_SIZE NUL))"

definition joins :: "int \<Rightarrow> int \<times> int \<Rightarrow> nat list \<Rightarrow> room_action" where
  "joins connfd pipefd refused = Server \<lparr>re_fd = 3, re_flags = EPOLLIN,
     re_arrival = \<lparr>ra_connfd = connfd, ra_address = 0, ra_pipefd = pipefd, ra_fork = 0\<rparr>, re_signals = [], re_recv = None\<rparr> 101 40 refused"

definition reads_number :: "int \<Rightarrow> int \<Rightarrow> nat list \<Rightarrow> room_action" where
  "reads_number fd i refused = Server \<lparr>re_fd = fd, re_flags = EPOLLIN,
     re_arrival = \<lparr>ra_connfd = -1, ra_address = 0, ra_pipefd = (-1, 0), ra_fork = 0\<rparr>, re_signals = [], re_recv = Some i\<rparr> 101 40 refused"

definition types :: "nat \<Rightarrow> int \<Rightarrow> char list \<Rightarrow> room_action" where
  "types j connfd bs = Client j \<lparr>rk_fd = connfd, rk_flags = EPOLLIN, rk_data = Recv_bytes bs, rk_number = Number_again\<rparr> False"

definition gets_number :: "nat \<Rightarrow> int \<Rightarrow> int \<Rightarrow> room_action" where
  "gets_number j pipefd i = Client j \<lparr>rk_fd = pipefd, rk_flags = EPOLLIN, rk_data = Recv_again, rk_number = Number i\<rparr> False"

definition two_messages :: "room_action list" where
  "two_messages = [joins 20 (10, 30) [], joins 21 (11, 31) [], joins 22 (12, 32) [], Awaits 0 2, types 0 20 ''one'', types 0 20 ''two'',
     reads_number 10 0 [2], reads_number 10 0 [], Awaits 1 2, gets_number 1 31 0, gets_number 1 31 0]"

lemma two_messages_run:
  "case room_exec sample_os 3 (5, 6) two_messages quiet_room of None \<Rightarrow> False | Some (ls, s) \<Rightarrow>
     map (\<lambda>l. case l of Shown j i ts \<Rightarrow> Shown j i [] | _ \<Rightarrow> l) ls =
       [Arrived Joined, Arrived Joined, Arrived Joined, Other, Stored 0 ''one'' True, Stored 0 ''two'' True,
        Relayed 0 [1] [2], Relayed 0 [1, 2] [], Other, Shown 1 0 [], Shown 1 0 []]"
  by code_simp

lemma without_texts:
  "(case l of Shown j i ts \<Rightarrow> Shown j i [] | _ \<Rightarrow> l) = l1 \<longleftrightarrow>
     (case l1 of Shown j i ts \<Rightarrow> ts = [] \<and> (\<exists>ts'. l = Shown j i ts') | _ \<Rightarrow> l = l1)"
  by (cases l; cases l1) auto

text \<open>Client 1 is shown the second message twice and never the first; the pipe of client 2 took one of the two numbers.\<close>

lemma room_relays_witness:
  "\<exists>s. run (room_moves sample_os 3 (5, 6)) quiet_room
     [Arrived Joined, Arrived Joined, Arrived Joined, Other, Stored 0 ''one'' True, Stored 0 ''two'' True,
      Relayed 0 [1] [2], Relayed 0 [1, 2] [], Other,
      Shown 1 0 [segment_text ''two''], Shown 1 0 [segment_text ''two'']] (Some s)"
proof -
  let ?ls = "[Arrived Joined, Arrived Joined, Arrived Joined, Other, Stored 0 ''one'' True, Stored 0 ''two'' True,
      Relayed 0 [1] [2], Relayed 0 [1, 2] [], Other]"
  let ?memory = "replicate 5 (replicate ROOM_BUFFER_SIZE NUL)"
  obtain ls s where ex: "room_exec sample_os 3 (5, 6) two_messages quiet_room = Some (ls, s)"
    using two_messages_run by (cases "room_exec sample_os 3 (5, 6) two_messages quiet_room") (simp only: option.case, fastforce)
  obtain ts us where ls: "ls = ?ls @ [Shown 1 0 ts, Shown 1 0 us]"
    using two_messages_run unfolding ex option.case prod.case by (auto simp: map_eq_Cons_conv without_texts)
  note r = room_exec_run [OF ex]
  have "int (length (replicate 5 \<lparr>rc_address = 0, rc_connfd = 0, rc_pid = 0, rc_pipefd = (0, 0)\<rparr>)) = ROOM_USER_LIMIT"
    "int (length ?memory) = ROOM_USER_LIMIT" "\<forall>b \<in> set ?memory. length b = ROOM_BUFFER_SIZE" by (simp_all add: ROOM_USER_LIMIT_def)
  from room_relays [OF this r [unfolded quiet_room_def]]
  have shown: "ts' = [segment ?memory ls1 i]" if "ls = ls1 @ Shown j i ts' # ls2" for ls1 j i ts' ls2 using that by blast
  have "ts = [segment ?memory ?ls 0]" by (rule shown [of ?ls 1 0 ts "[Shown 1 0 us]"]) (simp add: ls)
  moreover have "us = [segment ?memory (?ls @ [Shown 1 0 ts]) 0]" by (rule shown [of "?ls @ [Shown 1 0 ts]" 1 0 us "[]"]) (simp add: ls)
  ultimately have "ts = [segment_text ''two'']" "us = [segment_text ''two'']" by (simp_all add: segment_def written_def)
  with r ls show ?thesis by auto
qed

end
