(* ===== verification/Epoll_Demos.thy ===== *)
theory Epoll_Demos
  imports Http_Types Transitions
begin

unbundle bit_operations_syntax

text \<open>
  The two demonstrations of epoll: \<^verbatim>\<open>src/src/execution/LT_ET_in_epoll.c\<close>, which reads its clients level
  or edge triggered, and \<^verbatim>\<open>src/src/execution/epoll_oneshot.c\<close>, which starts a thread for each event. What they
  print is part of the model as the list of the texts received.
\<close>

section \<open>Level and edge triggering\<close>

definition demo_addfd :: "int \<Rightarrow> int \<Rightarrow> int \<Rightarrow> world \<Rightarrow> world" where
  "demo_addfd epollfd fd enable_et w =
     emit (Epoll_add epollfd fd (if enable_et \<noteq> 1 then EPOLLIN OR EPOLLET else EPOLLIN)) w"

record demo =
  printed :: "char list list"
  demo_net :: world

record demo_event =
  de_fd :: int
  de_flags :: flags
  de_accept :: int
  de_recv :: "nat \<Rightarrow> recv_answer"

text \<open>One event in lt: the text is printed up to its first NUL, or not at all when recv failed or ended.\<close>

definition printed_text :: "char list \<Rightarrow> char list" where
  "printed_text bs = takeWhile (\<lambda>c. c \<noteq> NUL) bs"

definition lt_event :: "int \<Rightarrow> int \<Rightarrow> demo_event \<Rightarrow> demo \<Rightarrow> demo" where
  "lt_event epollfd listenfd e s =
     (if de_fd e = listenfd then s\<lparr>demo_net := demo_addfd epollfd (de_accept e) 0 (demo_net s)\<rparr>
      else if de_flags e AND EPOLLIN \<noteq> 0
        then (case de_recv e 0 of
                Recv_bytes bs \<Rightarrow> s\<lparr>printed := printed s @ [printed_text bs]\<rparr>
              | _ \<Rightarrow> s\<lparr>demo_net := emit (Close (de_fd e)) (demo_net s)\<rparr>)
      else s)"

definition lt_events :: "int \<Rightarrow> int \<Rightarrow> demo_event list \<Rightarrow> demo \<Rightarrow> demo" where
  "lt_events epollfd listenfd es s = foldl (\<lambda>s e. lt_event epollfd listenfd e s) s es"

text \<open>
  The loop in et. After the end of the stream the descriptor is closed and the loop goes on: recv then fails,
  since this process has closed the descriptor and has opened no other.
\<close>

partial_function (option) et_loop :: "int \<Rightarrow> (nat \<Rightarrow> recv_answer) \<Rightarrow> nat \<Rightarrow> bool \<Rightarrow> demo \<Rightarrow> demo option" where
  "et_loop sockfd recv k closed s =
     (case (if closed then Recv_error else recv k) of
        Recv_again \<Rightarrow> Some s
      | Recv_error \<Rightarrow> Some (s\<lparr>demo_net := emit (Close sockfd) (demo_net s)\<rparr>)
      | Recv_eof \<Rightarrow> et_loop sockfd recv (k + 1) True (s\<lparr>demo_net := emit (Close sockfd) (demo_net s)\<rparr>)
      | Recv_bytes bs \<Rightarrow> et_loop sockfd recv (k + 1) closed (s\<lparr>printed := printed s @ [printed_text bs]\<rparr>))"

declare et_loop.simps [code]

definition et_event :: "int \<Rightarrow> int \<Rightarrow> demo_event \<Rightarrow> demo \<Rightarrow> demo option" where
  "et_event epollfd listenfd e s =
     (if de_fd e = listenfd then Some (s\<lparr>demo_net := demo_addfd epollfd (de_accept e) 1 (demo_net s)\<rparr>)
      else if de_flags e AND EPOLLIN \<noteq> 0 then et_loop (de_fd e) (de_recv e) 0 False s
      else Some s)"

definition demo_start :: "int \<Rightarrow> int \<Rightarrow> demo" where
  "demo_start epollfd listenfd =
     \<lparr>printed = [], demo_net = demo_addfd epollfd listenfd 1 \<lparr>m_epollfd = epollfd, m_user_count = 0, calls = []\<rparr>\<rparr>"

fun et_events :: "int \<Rightarrow> int \<Rightarrow> demo_event list \<Rightarrow> demo \<Rightarrow> demo option" where
  "et_events epollfd listenfd [] s = Some s"
| "et_events epollfd listenfd (e # es) s = Option.bind (et_event epollfd listenfd e s) (et_events epollfd listenfd es)"

section \<open>One thread per event\<close>

definition ONESHOT_BUFFER_SIZE :: nat where "ONESHOT_BUFFER_SIZE = 1024"

definition oneshot_addfd :: "os \<Rightarrow> int \<Rightarrow> int \<Rightarrow> int \<Rightarrow> world \<Rightarrow> world" where
  "oneshot_addfd os epollfd fd enable_oneshot w =
     snd (setnonblocking os fd (emit (Epoll_add epollfd fd
       (if enable_oneshot = 1 then (EPOLLIN OR EPOLLET) OR EPOLLONESHOT else EPOLLIN OR EPOLLET)) w))"

definition reset_oneshot :: "int \<Rightarrow> int \<Rightarrow> world \<Rightarrow> world" where
  "reset_oneshot epollfd fd w = emit (Epoll_mod epollfd fd (EPOLLIN OR EPOLLET OR EPOLLONESHOT)) w"

text \<open>The loop of a worker: an error other than EAGAIN does not end it. The buffer is not cleared between reads.\<close>

partial_function (option) worker_loop :: "int \<Rightarrow> int \<Rightarrow> (nat \<Rightarrow> recv_answer) \<Rightarrow> nat \<Rightarrow> buf \<Rightarrow> demo \<Rightarrow> demo option" where
  "worker_loop epollfd sockfd recv k b s =
     (case recv k of
        Recv_eof \<Rightarrow> Some (s\<lparr>demo_net := emit (Close sockfd) (demo_net s)\<rparr>)
      | Recv_again \<Rightarrow> Some (s\<lparr>demo_net := reset_oneshot epollfd sockfd (demo_net s)\<rparr>)
      | Recv_error \<Rightarrow> worker_loop epollfd sockfd recv (k + 1) b s
      | Recv_bytes bs \<Rightarrow> worker_loop epollfd sockfd recv (k + 1) (bs @ drop (length bs) b)
          (s\<lparr>printed := printed s @ [printed_text (bs @ drop (length bs) b)]\<rparr>))"

declare worker_loop.simps [code]

text \<open>
  main and its threads. An event of a connection makes main enter a block with a local variable fds\_for\_new\_worker,
  write the descriptor to it and start a thread with its address; the variable is gone when main leaves the block.
  The thread reads it when it first runs. reported are the events of main's round, the current one first; local\_fds is the
  variable, with a number of its own; unread are the numbers of the variables whose threads have not read them; workers the
  descriptors of the threads that have. What is not of the code is the kernel's set of disabled descriptors: one
  registered with EPOLLONESHOT is disabled when it is reported, until it is armed again or closed.
\<close>

record oneshot =
  reported :: "(int \<times> flags) list"
  local_fds :: "(nat \<times> int) option"
  created :: nat
  unread :: "nat list"
  workers :: "int list"
  disabled :: "int set"
  oneshot_demo :: demo

definition oneshot_start :: "os \<Rightarrow> int \<Rightarrow> int \<Rightarrow> oneshot" where
  "oneshot_start os epollfd listenfd =
     \<lparr>reported = [], local_fds = None, created = 0, unread = [], workers = [], disabled = {},
      oneshot_demo = \<lparr>printed = [],
        demo_net = oneshot_addfd os epollfd listenfd 0 \<lparr>m_epollfd = epollfd, m_user_count = 0, calls = []\<rparr>\<rparr>\<rparr>"

definition oneshot_table :: "int \<Rightarrow> oneshot \<Rightarrow> int \<Rightarrow> flags option" where
  "oneshot_table epollfd s = epoll_table epollfd (calls (demo_net (oneshot_demo s)))"

text \<open>epoll\_wait, which disables what it reports of the descriptors registered with EPOLLONESHOT.\<close>

definition oneshot_report :: "int \<Rightarrow> (int \<times> flags) list \<Rightarrow> oneshot \<Rightarrow> oneshot" where
  "oneshot_report epollfd es s = s\<lparr>reported := es, disabled := disabled s \<union>
     Set.filter (\<lambda>fd. case oneshot_table epollfd s fd of Some f \<Rightarrow> f AND EPOLLONESHOT \<noteq> 0 | None \<Rightarrow> False) (set (map fst es))\<rparr>"

definition oneshot_accept :: "os \<Rightarrow> int \<Rightarrow> int \<Rightarrow> oneshot \<Rightarrow> oneshot" where
  "oneshot_accept os epollfd connfd s = s\<lparr>reported := tl (reported s), oneshot_demo := (oneshot_demo s)
     \<lparr>demo_net := oneshot_addfd os epollfd connfd 1 (demo_net (oneshot_demo s))\<rparr>\<rparr>"

text \<open>The block of a new worker, which pthread\_create starts or not, and its end.\<close>

definition start_worker :: "bool \<Rightarrow> int \<Rightarrow> oneshot \<Rightarrow> oneshot" where
  "start_worker starts sockfd s = s\<lparr>local_fds := Some (created s, sockfd), created := created s + 1,
     unread := unread s @ (if starts then [created s] else [])\<rparr>"

definition leave_block :: "oneshot \<Rightarrow> oneshot" where
  "leave_block s = s\<lparr>local_fds := None, reported := tl (reported s)\<rparr>"

text \<open>The first statements of a worker, which has the address of the variable number n.\<close>

definition read_argument :: "nat \<Rightarrow> oneshot \<Rightarrow> oneshot res" where
  "read_argument n s =
     (case local_fds s of
        None \<Rightarrow> Inl UseAfterFree
      | Some (m, sockfd) \<Rightarrow>
          if m = n then Inr (s\<lparr>unread := remove1 n (unread s), workers := workers s @ [sockfd]\<rparr>) else Inl UseAfterFree)"

text \<open>The rest of a worker.\<close>

definition worker :: "int \<Rightarrow> int \<Rightarrow> (nat \<Rightarrow> recv_answer) \<Rightarrow> oneshot \<Rightarrow> oneshot option" where
  "worker epollfd sockfd recv s =
     map_option (\<lambda>d. s\<lparr>workers := remove1 sockfd (workers s), disabled := disabled s - {sockfd}, oneshot_demo := d\<rparr>)
       (worker_loop epollfd sockfd recv 0 (replicate ONESHOT_BUFFER_SIZE NUL) (oneshot_demo s))"

datatype oneshot_label = Reported | Accepted int | Skipped | Started int | Leaves | Reads nat | Ended int

text \<open>
  epoll\_wait reports registered descriptors that are not disabled, each once; accept returns one that is not in
  use, or fails, and then the calls of addfd fail as well.
\<close>

inductive oneshot_step :: "os \<Rightarrow> int \<Rightarrow> int \<Rightarrow> oneshot \<Rightarrow> oneshot_label \<Rightarrow> oneshot option \<Rightarrow> bool"
  for os :: os and epollfd :: int and listenfd :: int where
  report: "reported s = [] \<Longrightarrow> local_fds s = None \<Longrightarrow> distinct (map fst es) \<Longrightarrow>
    \<forall>fd \<in> set (map fst es). oneshot_table epollfd s fd \<noteq> None \<and> fd \<notin> disabled s \<Longrightarrow>
    oneshot_step os epollfd listenfd s Reported (Some (oneshot_report epollfd es s))"
| connection: "reported s = (listenfd, fl) # es \<Longrightarrow> local_fds s = None \<Longrightarrow> oneshot_table epollfd s connfd = None \<Longrightarrow>
    oneshot_step os epollfd listenfd s (Accepted connfd) (Some (oneshot_accept os epollfd connfd s))"
| no_connection: "reported s = (listenfd, fl) # es \<Longrightarrow> local_fds s = None \<Longrightarrow>
    oneshot_step os epollfd listenfd s Skipped (Some (s\<lparr>reported := es\<rparr>))"
| trigger: "reported s = (sockfd, fl) # es \<Longrightarrow> local_fds s = None \<Longrightarrow> sockfd \<noteq> listenfd \<Longrightarrow> fl AND EPOLLIN \<noteq> 0 \<Longrightarrow>
    oneshot_step os epollfd listenfd s (Started sockfd) (Some (start_worker starts sockfd s))"
| other_event: "reported s = (sockfd, fl) # es \<Longrightarrow> local_fds s = None \<Longrightarrow> sockfd \<noteq> listenfd \<Longrightarrow> fl AND EPOLLIN = 0 \<Longrightarrow>
    oneshot_step os epollfd listenfd s Skipped (Some (s\<lparr>reported := es\<rparr>))"
| leave: "local_fds s = Some a \<Longrightarrow> oneshot_step os epollfd listenfd s Leaves (Some (leave_block s))"
| reads: "n \<in> set (unread s) \<Longrightarrow> read_argument n s = Inr s' \<Longrightarrow> oneshot_step os epollfd listenfd s (Reads n) (Some s')"
| reads_late: "n \<in> set (unread s) \<Longrightarrow> read_argument n s = Inl u \<Longrightarrow> oneshot_step os epollfd listenfd s (Reads n) None"
| finish: "sockfd \<in> set (workers s) \<Longrightarrow> worker epollfd sockfd recv s = Some s' \<Longrightarrow>
    oneshot_step os epollfd listenfd s (Ended sockfd) (Some s')"

inductive_cases oneshot_stepE: "oneshot_step os epollfd listenfd s l r"

section \<open>What the loops do\<close>

definition is_bytes :: "recv_answer \<Rightarrow> bool" where
  "is_bytes a \<longleftrightarrow> (case a of Recv_bytes bs \<Rightarrow> True | _ \<Rightarrow> False)"

definition bytes_of :: "recv_answer \<Rightarrow> char list" where
  "bytes_of a = (case a of Recv_bytes bs \<Rightarrow> bs | _ \<Rightarrow> [])"

lemma et_loop_bytes:
  assumes "\<forall>j < n. is_bytes (recv (k + j))"
  shows "et_loop fd recv k False s = et_loop fd recv (k + n) False (s\<lparr>printed := printed s @ map (\<lambda>j. printed_text (bytes_of (recv (k + j)))) [0..<n]\<rparr>)"
  using assms
proof (induction n)
  case (Suc n)
  let ?s = "\<lambda>n. s\<lparr>printed := printed s @ map (\<lambda>j. printed_text (bytes_of (recv (k + j)))) [0..<n]\<rparr>"
  have "is_bytes (recv (k + n))" using Suc.prems by simp
  then obtain bs where "recv (k + n) = Recv_bytes bs" by (auto simp: is_bytes_def split: recv_answer.splits)
  then have "et_loop fd recv (k + n) False (?s n) = et_loop fd recv (k + Suc n) False (?s (Suc n))"
    by (subst et_loop.simps) (simp add: bytes_of_def)
  with Suc show ?case by simp
qed simp

text \<open>The loop of et on a client: the texts of all reads up to the first that gives no bytes are printed, in
  order; the client is then kept when nothing is left, closed once after an error, and closed twice at the
  end of the stream.\<close>

theorem et_drains:
  assumes "\<forall>j < n. is_bytes (recv j)" and "\<not> is_bytes (recv n)"
  shows "et_loop fd recv 0 False s = Some (s\<lparr>printed := printed s @ map (\<lambda>j. printed_text (bytes_of (recv j))) [0..<n],
    demo_net := (case recv n of Recv_again \<Rightarrow> demo_net s | Recv_eof \<Rightarrow> emit (Close fd) (emit (Close fd) (demo_net s))
                 | _ \<Rightarrow> emit (Close fd) (demo_net s))\<rparr>)"
proof -
  have eof: "et_loop fd recv k True t = Some (t\<lparr>demo_net := emit (Close fd) (demo_net t)\<rparr>)" for k t
    by (subst et_loop.simps) simp
  show ?thesis
    using assms(2) unfolding et_loop_bytes [of n recv 0, simplified, OF assms(1)]
    by (subst et_loop.simps) (auto simp: is_bytes_def eof split: recv_answer.splits)
qed

lemma et_drains_witness:
  "et_loop 7 (\<lambda>k. if k = 0 then Recv_bytes ''hi'' else Recv_eof) 0 False \<lparr>printed = [], demo_net = sample_world\<rparr> =
     Some \<lparr>printed = [''hi''], demo_net = emit (Close 7) (emit (Close 7) sample_world)\<rparr>"
  by (subst et_drains [of 1]) (simp_all add: is_bytes_def bytes_of_def printed_text_def)

text \<open>The flags of what et registers: addfd tests its parameter the wrong way round.\<close>

definition level_triggered :: "int \<Rightarrow> demo \<Rightarrow> bool" where
  "level_triggered epollfd s \<longleftrightarrow> (\<forall>fd f. epoll_table epollfd (calls (demo_net s)) fd = Some f \<longrightarrow> f AND EPOLLET = 0) \<and>
     (\<forall>fd f. Fcntl_setfl fd f \<notin> set (calls (demo_net s)))"

lemma level_triggered_add: "level_triggered epollfd s \<Longrightarrow> level_triggered epollfd (s\<lparr>demo_net := demo_addfd epollfd fd 1 (demo_net s)\<rparr>)"
  by (auto simp: level_triggered_def demo_addfd_def flag_defs split: if_splits)

lemma level_triggered_frame:
  "level_triggered epollfd s \<Longrightarrow> level_triggered epollfd (s\<lparr>demo_net := emit (Close fd) (demo_net s)\<rparr>)"
  "level_triggered epollfd (s\<lparr>printed := p\<rparr>) = level_triggered epollfd s"
  by (auto simp: level_triggered_def split: if_splits)

lemma et_loop_level:
  assumes "et_loop fd recv k closed s = Some s'"
  shows "level_triggered epollfd s \<longrightarrow> level_triggered epollfd s'"
proof (rule et_loop.raw_induct [where P = "\<lambda>fd recv k closed s s'. level_triggered epollfd s \<longrightarrow> level_triggered epollfd s'", OF _ assms])
  fix loop fd recv k closed s and s' :: demo
  assume ih: "\<And>fd recv k closed s s'. loop fd recv k closed s = Some s' \<Longrightarrow> level_triggered epollfd s \<longrightarrow> level_triggered epollfd s'"
    and st: "(case (if closed then Recv_error else recv k) of
        Recv_bytes bs \<Rightarrow> loop fd recv (k + 1) closed (s\<lparr>printed := printed s @ [printed_text bs]\<rparr>)
      | Recv_eof \<Rightarrow> loop fd recv (k + 1) True (s\<lparr>demo_net := emit (Close fd) (demo_net s)\<rparr>)
      | Recv_again \<Rightarrow> Some s
      | Recv_error \<Rightarrow> Some (s\<lparr>demo_net := emit (Close fd) (demo_net s)\<rparr>)) = Some s'"
  show "level_triggered epollfd s \<longrightarrow> level_triggered epollfd s'"
    using st by (cases "if closed then Recv_error else recv k") (auto simp: level_triggered_frame dest!: ih)
qed

lemma et_event_level:
  assumes "et_event epollfd listenfd e s = Some s'" "level_triggered epollfd s"
  shows "level_triggered epollfd s'"
proof (cases "de_fd e = listenfd \<or> de_flags e AND EPOLLIN = 0")
  case True
  then show ?thesis using assms by (auto simp: et_event_def level_triggered_add split: if_splits)
next
  case False
  then have "et_loop (de_fd e) (de_recv e) 0 False s = Some s'" using assms(1) by (simp add: et_event_def)
  with et_loop_level assms(2) show ?thesis by blast
qed

text \<open>The edge triggered server is not: whatever its events, every descriptor in its epoll table is registered
  without EPOLLET, and no descriptor is ever made non-blocking, so that the loop of et, which reads until recv
  would have to wait, blocks the whole server instead.\<close>

theorem et_not_edge_triggered:
  assumes "et_events epollfd listenfd es (demo_start epollfd listenfd) = Some s"
  shows "(\<forall>fd f. epoll_table epollfd (calls (demo_net s)) fd = Some f \<longrightarrow> f AND EPOLLET = 0) \<and>
    (\<forall>fd f. Fcntl_setfl fd f \<notin> set (calls (demo_net s)))"
proof -
  have "level_triggered epollfd s" if "et_events epollfd listenfd es t = Some s" "level_triggered epollfd t" for t
    using that
  proof (induction es arbitrary: t)
    case (Cons e es)
    then obtain t1 where "et_event epollfd listenfd e t = Some t1" "et_events epollfd listenfd es t1 = Some s"
      by (auto simp: bind_eq_Some_conv)
    with Cons.IH et_event_level Cons.prems(2) show ?case by blast
  qed simp
  moreover have "level_triggered epollfd (demo_start epollfd listenfd)"
    by (auto simp: level_triggered_def demo_start_def demo_addfd_def epoll_table_def flag_defs split: if_splits)
  ultimately show ?thesis using assms unfolding level_triggered_def by blast
qed

lemma et_not_edge_triggered_witness:
  "\<exists>s. et_events 4 3 [\<lparr>de_fd = 3, de_flags = EPOLLIN, de_accept = 7, de_recv = \<lambda>_. Recv_eof\<rparr>] (demo_start 4 3) = Some s \<and>
     (\<forall>f. epoll_table 4 (calls (demo_net s)) 7 = Some f \<longrightarrow> f AND EPOLLET = 0)"
proof -
  obtain s where "et_events 4 3 [\<lparr>de_fd = 3, de_flags = EPOLLIN, de_accept = 7, de_recv = \<lambda>_. Recv_eof\<rparr>] (demo_start 4 3) = Some s"
    by (simp add: et_event_def)
  with et_not_edge_triggered [OF this] show ?thesis by blast
qed

section \<open>Workers\<close>

definition worker_done :: "recv_answer \<Rightarrow> bool" where
  "worker_done a \<longleftrightarrow> a = Recv_eof \<or> a = Recv_again"

lemma worker_loop_ended:
  assumes "worker_loop epollfd fd recv k b s = Some s'"
  shows "\<exists>j \<ge> k. worker_done (recv j) \<and> demo_net s' = (if recv j = Recv_eof then emit (Close fd) (demo_net s)
    else reset_oneshot epollfd fd (demo_net s))"
proof (rule worker_loop.raw_induct [where P = "\<lambda>epollfd fd recv (k :: nat) b s s'. \<exists>j \<ge> k. worker_done (recv j) \<and>
    demo_net s' = (if recv j = Recv_eof then emit (Close fd) (demo_net s) else reset_oneshot epollfd fd (demo_net s))", OF _ assms])
  fix loop epollfd fd recv b s and s' :: demo and k :: nat
  assume ih: "\<And>epollfd fd recv k b s s'. loop epollfd fd recv k b s = Some s' \<Longrightarrow> \<exists>j \<ge> k. worker_done (recv j) \<and>
      demo_net s' = (if recv j = Recv_eof then emit (Close fd) (demo_net s) else reset_oneshot epollfd fd (demo_net s))"
    and st: "(case recv k of
        Recv_bytes bs \<Rightarrow> loop epollfd fd recv (k + 1) (bs @ drop (length bs) b)
          (s\<lparr>printed := printed s @ [printed_text (bs @ drop (length bs) b)]\<rparr>)
      | Recv_eof \<Rightarrow> Some (s\<lparr>demo_net := emit (Close fd) (demo_net s)\<rparr>)
      | Recv_again \<Rightarrow> Some (s\<lparr>demo_net := reset_oneshot epollfd fd (demo_net s)\<rparr>)
      | Recv_error \<Rightarrow> loop epollfd fd recv (k + 1) b s) = Some s'"
  show "\<exists>j \<ge> k. worker_done (recv j) \<and>
      demo_net s' = (if recv j = Recv_eof then emit (Close fd) (demo_net s) else reset_oneshot epollfd fd (demo_net s))"
  proof (cases "worker_done (recv k)")
    case True
    with st show ?thesis by (auto simp: worker_done_def intro!: exI [of _ k])
  next
    case False
    then obtain b1 s1 where "loop epollfd fd recv (k + 1) b1 s1 = Some s'" "demo_net s1 = demo_net s"
      using st by (cases "recv k") (auto simp: worker_done_def)
    with ih [OF this(1)] show ?thesis by (auto dest: Suc_leD)
  qed
qed

lemma worker_loop_ends: "k \<le> j \<Longrightarrow> worker_done (recv j) \<Longrightarrow> \<exists>s'. worker_loop epollfd fd recv k b s = Some s'"
proof (induction "j - k" arbitrary: k b s)
  case 0
  then have "recv k = Recv_eof \<or> recv k = Recv_again" by (simp add: worker_done_def)
  then show ?case by (subst worker_loop.simps) auto
next
  case (Suc d)
  then have ih: "\<exists>s'. worker_loop epollfd fd recv (k + 1) b s = Some s'" for b s by simp
  then show ?case by (subst worker_loop.simps) (auto split: recv_answer.splits)
qed

text \<open>C37. A worker ends exactly when some read finds the end of the stream or nothing more to read: an error of
  any other kind that persists keeps it in its loop for ever. When it ends it has closed its descriptor or armed it
  again, and done nothing else but print.\<close>

theorem worker_ends_iff:
  "(worker epollfd sockfd recv s = None \<longleftrightarrow> (\<forall>j. \<not> worker_done (recv j))) \<and>
   (\<forall>s'. worker epollfd sockfd recv s = Some s' \<longrightarrow>
      calls (demo_net (oneshot_demo s')) = calls (demo_net (oneshot_demo s)) @ [Close sockfd] \<or>
      calls (demo_net (oneshot_demo s')) = calls (demo_net (oneshot_demo s)) @
        [Epoll_mod epollfd sockfd (EPOLLIN OR EPOLLET OR EPOLLONESHOT)])"
proof -
  let ?r = "worker_loop epollfd sockfd recv 0 (replicate ONESHOT_BUFFER_SIZE NUL) (oneshot_demo s)"
  have w: "worker epollfd sockfd recv s = None \<longleftrightarrow> ?r = None" by (simp add: worker_def)
  have n: "?r = None \<longleftrightarrow> (\<forall>j. \<not> worker_done (recv j))"
  proof (cases ?r)
    case None
    with worker_loop_ends [of 0 _ recv epollfd sockfd "replicate ONESHOT_BUFFER_SIZE NUL" "oneshot_demo s"] show ?thesis by fastforce
  next
    case (Some d)
    with worker_loop_ended [OF this] show ?thesis by auto
  qed
  have "calls (demo_net (oneshot_demo s')) = calls (demo_net (oneshot_demo s)) @ [Close sockfd] \<or>
      calls (demo_net (oneshot_demo s')) = calls (demo_net (oneshot_demo s)) @
        [Epoll_mod epollfd sockfd (EPOLLIN OR EPOLLET OR EPOLLONESHOT)]" if "worker epollfd sockfd recv s = Some s'" for s'
  proof -
    from that obtain d where "?r = Some d" "oneshot_demo s' = d" by (auto simp: worker_def)
    with worker_loop_ended [OF this(1)] show ?thesis by (auto simp: reset_oneshot_def split: if_splits)
  qed
  then show ?thesis using n w by simp
qed

lemma worker_ends_iff_witness:
  "worker 4 7 (\<lambda>_. Recv_error) (oneshot_start sample_os 4 3) = None \<and>
   worker 4 7 (\<lambda>k. if k = 0 then Recv_error else Recv_eof) (oneshot_start sample_os 4 3) \<noteq> None"
proof -
  have "worker 4 7 (\<lambda>_. Recv_error) (oneshot_start sample_os 4 3) = None"
    using worker_ends_iff [of 4 7 "\<lambda>_. Recv_error" "oneshot_start sample_os 4 3"] by (simp add: worker_done_def)
  moreover have "worker_done (if (1::nat) = 0 then Recv_error else Recv_eof)" by (simp add: worker_done_def)
  then have "worker 4 7 (\<lambda>k. if k = 0 then Recv_error else Recv_eof) (oneshot_start sample_os 4 3) \<noteq> None"
    using worker_ends_iff [of 4 7 "\<lambda>k. if k = 0 then Recv_error else Recv_eof" "oneshot_start sample_os 4 3"] by blast
  ultimately show ?thesis by blast
qed

text \<open>
  The descriptors of the workers, of the thread that can still read its argument, and of the events of the round that
  main has not handled, are disabled and each occurs once.
\<close>

definition promised :: "oneshot \<Rightarrow> int list" where
  "promised s = (case local_fds s of Some (n, fd) \<Rightarrow> if n \<in> set (unread s) then [fd] else [] | None \<Rightarrow> [])"

definition still_reported :: "int \<Rightarrow> oneshot \<Rightarrow> int list" where
  "still_reported listenfd s = filter (\<lambda>fd. fd \<noteq> listenfd) (map fst (if local_fds s = None then reported s else tl (reported s)))"

definition oneshot_inv :: "int \<Rightarrow> int \<Rightarrow> oneshot \<Rightarrow> bool" where
  "oneshot_inv epollfd listenfd s \<longleftrightarrow>
     distinct (workers s @ promised s @ still_reported listenfd s) \<and>
     set (workers s @ promised s @ still_reported listenfd s) \<subseteq> disabled s \<and>
     (\<forall>fd \<in> disabled s. fd \<noteq> listenfd \<and> oneshot_table epollfd s fd \<noteq> None) \<and>
     (\<forall>fd f. oneshot_table epollfd s fd = Some f \<longrightarrow> fd = listenfd \<or> f AND EPOLLONESHOT \<noteq> 0) \<and>
     (\<exists>f. oneshot_table epollfd s listenfd = Some f \<and> f AND EPOLLONESHOT = 0) \<and>
     distinct (unread s) \<and> (\<forall>n \<in> set (unread s). n < created s)"

lemma oneshot_worker_inv:
  assumes inv: "oneshot_inv epollfd listenfd s" and fd: "sockfd \<in> set (workers s)" and w: "worker epollfd sockfd recv s = Some s'"
  shows "oneshot_inv epollfd listenfd s'"
proof -
  from w obtain d where d: "worker_loop epollfd sockfd recv 0 (replicate ONESHOT_BUFFER_SIZE NUL) (oneshot_demo s) = Some d"
    "s' = s\<lparr>workers := remove1 sockfd (workers s), disabled := disabled s - {sockfd}, oneshot_demo := d\<rparr>"
    by (auto simp: worker_def)
  have in_use: "distinct (workers s @ promised s @ still_reported listenfd s)"
      "set (workers s @ promised s @ still_reported listenfd s) \<subseteq> disabled s"
    and dis: "\<And>fd. fd \<in> disabled s \<Longrightarrow> fd \<noteq> listenfd \<and> oneshot_table epollfd s fd \<noteq> None"
    and flag: "\<And>fd f. oneshot_table epollfd s fd = Some f \<Longrightarrow> fd = listenfd \<or> f AND EPOLLONESHOT \<noteq> 0"
    and lst: "\<exists>f. oneshot_table epollfd s listenfd = Some f \<and> f AND EPOLLONESHOT = 0"
    and un: "distinct (unread s)" "\<forall>n \<in> set (unread s). n < created s"
    using inv unfolding oneshot_inv_def by blast+
  have reg: "oneshot_table epollfd s sockfd \<noteq> None" "sockfd \<noteq> listenfd" using dis in_use(2) fd by auto
  have tab: "oneshot_table epollfd s' = (oneshot_table epollfd s)(sockfd := None) \<or>
      oneshot_table epollfd s' = (oneshot_table epollfd s)(sockfd \<mapsto> EPOLLIN OR EPOLLET OR EPOLLONESHOT)"
    using worker_loop_ended [OF d(1)] reg by (auto simp: oneshot_table_def reset_oneshot_def d(2) split: if_splits)
  have same: "oneshot_table epollfd s' fd = oneshot_table epollfd s fd" if "fd \<noteq> sockfd" for fd using tab that by auto
  have "fd = listenfd \<or> f AND EPOLLONESHOT \<noteq> 0" if "oneshot_table epollfd s' fd = Some f" for fd f
  proof (cases "fd = sockfd")
    case True
    with that tab have "f = EPOLLIN OR EPOLLET OR EPOLLONESHOT" by auto
    then show ?thesis by (simp add: flag_defs)
  next
    case False
    with that same flag show ?thesis by metis
  qed
  moreover have "promised s' = promised s" "still_reported listenfd s' = still_reported listenfd s" "unread s' = unread s" "created s' = created s"
    by (simp_all add: d(2) promised_def still_reported_def split: option.split)
  moreover have "workers s' = remove1 sockfd (workers s)" "disabled s' = disabled s - {sockfd}" by (simp_all add: d(2))
  ultimately show ?thesis using in_use dis lst un fd same reg(2) unfolding oneshot_inv_def by (auto simp: d(2))
qed

lemma oneshot_step_inv:
  assumes "oneshot_step os epollfd listenfd s l (Some s')" and inv: "oneshot_inv epollfd listenfd s"
  shows "oneshot_inv epollfd listenfd s'"
proof -
  have in_use: "distinct (workers s @ promised s @ still_reported listenfd s)"
      "set (workers s @ promised s @ still_reported listenfd s) \<subseteq> disabled s"
    and dis: "\<And>fd. fd \<in> disabled s \<Longrightarrow> fd \<noteq> listenfd \<and> oneshot_table epollfd s fd \<noteq> None"
    and flag: "\<And>fd f. oneshot_table epollfd s fd = Some f \<Longrightarrow> fd = listenfd \<or> f AND EPOLLONESHOT \<noteq> 0"
    and lst: "\<exists>f. oneshot_table epollfd s listenfd = Some f \<and> f AND EPOLLONESHOT = 0"
    and un: "distinct (unread s)" "\<forall>n \<in> set (unread s). n < created s"
    using inv unfolding oneshot_inv_def by blast+
  note parts = oneshot_inv_def promised_def still_reported_def oneshot_table_def
  from assms(1) show ?thesis
  proof cases
    case (report es)
    let ?new = "filter (\<lambda>fd. fd \<noteq> listenfd) (map fst es)"
    have n: "distinct ?new" "set ?new \<inter> disabled s = {}" using report(5,6) by auto
    have d: "disabled s' = disabled s \<union> set ?new"
    proof -
      have "(case oneshot_table epollfd s fd of Some f \<Rightarrow> f AND EPOLLONESHOT \<noteq> 0 | None \<Rightarrow> False) \<longleftrightarrow> fd \<noteq> listenfd" if "fd \<in> set (map fst es)" for fd
      proof -
        obtain f where f: "oneshot_table epollfd s fd = Some f" using report(6) \<open>fd \<in> set (map fst es)\<close> by blast
        with flag [OF f] lst show ?thesis by auto
      qed
      then have "Set.filter (\<lambda>fd. case oneshot_table epollfd s fd of Some f \<Rightarrow> f AND EPOLLONESHOT \<noteq> 0 | None \<Rightarrow> False) (set (map fst es)) = set ?new"
        by auto
      with report(2) show ?thesis by (simp add: oneshot_report_def)
    qed
    have sr: "still_reported listenfd s' = ?new" and o: "workers s' = workers s" "promised s' = promised s" "unread s' = unread s"
        "created s' = created s" "oneshot_table epollfd s' = oneshot_table epollfd s"
      using report by (simp_all add: still_reported_def promised_def oneshot_report_def oneshot_table_def)
    have "fd \<noteq> listenfd \<and> oneshot_table epollfd s fd \<noteq> None" if "fd \<in> disabled s \<union> set ?new" for fd
      using that dis report(6) by auto
    then show ?thesis using in_use n flag lst un unfolding oneshot_inv_def d sr o by (auto 4 4)
  next
    case (connection fl es connfd)
    then show ?thesis using inv
      by (auto simp: parts oneshot_accept_def oneshot_addfd_def setnonblocking_def Let_def flag_defs)
  next
    case (no_connection fl es)
    then show ?thesis using inv by (auto simp: parts)
  next
    case (trigger sockfd fl es starts)
    have "created s \<notin> set (unread s)" using un(2) by blast
    with trigger inv show ?thesis by (auto simp: parts start_worker_def less_Suc_eq)
  next
    case (other_event sockfd fl es)
    then show ?thesis using inv by (auto simp: parts)
  next
    case (leave a)
    then show ?thesis using inv by (auto simp: parts leave_block_def split: if_splits)
  next
    case (reads n)
    then obtain fd where "local_fds s = Some (n, fd)"
      "s' = s\<lparr>unread := remove1 n (unread s), workers := workers s @ [fd]\<rparr>"
      by (auto simp: read_argument_def split: option.splits if_splits)
    with reads inv show ?thesis by (auto simp: parts dest: notin_set_remove1)
  next
    case (finish sockfd recv)
    with oneshot_worker_inv [OF inv] show ?thesis by blast
  qed
qed

definition oneshot_keeps :: "int \<Rightarrow> int \<Rightarrow> oneshot \<Rightarrow> oneshot_label list \<Rightarrow> oneshot \<Rightarrow> bool" where
  "oneshot_keeps epollfd listenfd s ls s' \<longleftrightarrow> (oneshot_inv epollfd listenfd s \<longrightarrow> oneshot_inv epollfd listenfd s')"

interpretation oneshot_runs: traced_system "oneshot_step os epollfd listenfd" "oneshot_keeps epollfd listenfd"
  for os epollfd listenfd
  by unfold_locales (use oneshot_step_inv in \<open>auto simp: oneshot_keeps_def\<close>)

text \<open>C36. EPOLLONESHOT keeps the workers apart that get to know their connection. In every run of main and its threads
  until a thread reads its argument too late, no two workers serve the same descriptor at the same time, each serves one
  that is still registered, and every connection is registered with EPOLLONESHOT. A run ends only with such a
  read, and every thread whose argument main has left behind before it was read is about to make one: its
  argument is the address of a local variable of main's loop.\<close>

theorem one_worker_per_connection:
  assumes "run (oneshot_step os epollfd listenfd) (oneshot_start os epollfd listenfd) ls r"
  shows "case r of
      None \<Rightarrow> \<exists>ls1 n. ls = ls1 @ [Reads n]
    | Some s \<Rightarrow> distinct (workers s) \<and> (\<forall>fd \<in> set (workers s). oneshot_table epollfd s fd \<noteq> None) \<and>
        (\<forall>fd f. oneshot_table epollfd s fd = Some f \<longrightarrow> fd = listenfd \<or> f AND EPOLLONESHOT \<noteq> 0) \<and>
        (\<forall>n \<in> set (unread s). (\<forall>fd. local_fds s \<noteq> Some (n, fd)) \<longrightarrow>
           (\<forall>r1. oneshot_step os epollfd listenfd s (Reads n) r1 \<longleftrightarrow> r1 = None))"
proof (cases r)
  case None
  with assms obtain ls1 l s1 where "ls = ls1 @ [l]" "oneshot_step os epollfd listenfd s1 l None" by (auto elim: run.cases)
  then show ?thesis by (auto simp: None elim: oneshot_stepE)
next
  case (Some s)
  have "oneshot_inv epollfd listenfd (oneshot_start os epollfd listenfd)"
    by (auto simp: oneshot_inv_def oneshot_start_def oneshot_table_def oneshot_addfd_def setnonblocking_def Let_def
        promised_def still_reported_def epoll_table_def flag_defs split: if_splits)
  with oneshot_runs.run_rel [OF assms [unfolded Some]] have inv: "oneshot_inv epollfd listenfd s" by (simp add: oneshot_keeps_def)
  have late: "oneshot_step os epollfd listenfd s (Reads n) r1 \<longleftrightarrow> r1 = None"
    if n: "n \<in> set (unread s)" "\<forall>fd. local_fds s \<noteq> Some (n, fd)" for n r1
  proof -
    have "read_argument n s = Inl UseAfterFree" using n(2) by (auto simp: read_argument_def split: option.splits)
    with n(1) show ?thesis by (auto elim: oneshot_stepE intro: oneshot_step.reads_late)
  qed
  have "distinct (workers s) \<and> (\<forall>fd \<in> set (workers s). oneshot_table epollfd s fd \<noteq> None) \<and>
      (\<forall>fd f. oneshot_table epollfd s fd = Some f \<longrightarrow> fd = listenfd \<or> f AND EPOLLONESHOT \<noteq> 0)"
    using inv by (auto simp: oneshot_inv_def)
  with late show ?thesis by (simp add: Some)
qed

text \<open>A worker that reads its argument in time, and one that does not.\<close>

lemma one_worker_per_connection_witness:
  "\<exists>s s1. run (oneshot_step sample_os 4 3) (oneshot_start sample_os 4 3)
      [Reported, Accepted 7, Reported, Started 7, Reads 0, Leaves] (Some s) \<and> workers s = [7] \<and> oneshot_table 4 s 7 \<noteq> None \<and>
    run (oneshot_step sample_os 4 3) (oneshot_start sample_os 4 3) [Reported, Accepted 7, Reported, Started 7, Leaves] (Some s1) \<and>
    oneshot_step sample_os 4 3 s1 (Reads 0) None"
proof -
  let ?s0 = "oneshot_start sample_os 4 3"
  let ?s1 = "oneshot_report 4 [(3, EPOLLIN)] ?s0"
  let ?s2 = "oneshot_accept sample_os 4 7 ?s1"
  let ?s3 = "oneshot_report 4 [(7, EPOLLIN)] ?s2"
  let ?s4 = "start_worker True 7 ?s3"
  let ?s5 = "?s4\<lparr>unread := [], workers := [7]\<rparr>"
  note eval = oneshot_table_def oneshot_accept_def oneshot_start_def oneshot_report_def oneshot_addfd_def setnonblocking_def Let_def
    epoll_table_def start_worker_def
  have "oneshot_step sample_os 4 3 ?s0 Reported (Some ?s1)" by (rule oneshot_step.report) (simp_all add: eval)
  moreover have "oneshot_step sample_os 4 3 ?s1 (Accepted 7) (Some ?s2)"
    by (rule oneshot_step.connection [where fl = EPOLLIN and es = "[]"]) (simp_all add: eval)
  moreover have "oneshot_step sample_os 4 3 ?s2 Reported (Some ?s3)"
    by (rule oneshot_step.report) (simp_all add: eval flag_defs)
  moreover have "oneshot_step sample_os 4 3 ?s3 (Started 7) (Some ?s4)"
    by (rule oneshot_step.trigger [where fl = EPOLLIN and es = "[]"]) (simp_all add: eval flag_defs)
  ultimately have started: "run (oneshot_step sample_os 4 3) ?s0 [Reported, Accepted 7, Reported, Started 7] (Some ?s4)"
    by (meson run_Cons run_single)
  have "oneshot_step sample_os 4 3 ?s4 (Reads 0) (Some ?s5)"
    by (rule oneshot_step.reads) (simp_all add: eval read_argument_def)
  moreover have "oneshot_step sample_os 4 3 ?s5 Leaves (Some (leave_block ?s5))" by (rule oneshot_step.leave) (simp add: eval)
  ultimately have "run (oneshot_step sample_os 4 3) ?s0 (([Reported, Accepted 7, Reported, Started 7] @ [Reads 0]) @ [Leaves]) (Some (leave_block ?s5))"
    using started by (meson run.step)
  then have r: "run (oneshot_step sample_os 4 3) ?s0 [Reported, Accepted 7, Reported, Started 7, Reads 0, Leaves] (Some (leave_block ?s5))"
    by simp
  have "oneshot_step sample_os 4 3 ?s4 Leaves (Some (leave_block ?s4))" by (rule oneshot_step.leave) (simp add: eval)
  with started have "run (oneshot_step sample_os 4 3) ?s0 ([Reported, Accepted 7, Reported, Started 7] @ [Leaves]) (Some (leave_block ?s4))"
    by (meson run.step)
  then have r1: "run (oneshot_step sample_os 4 3) ?s0 [Reported, Accepted 7, Reported, Started 7, Leaves] (Some (leave_block ?s4))" by simp
  have "workers (leave_block ?s5) = [7]" by (simp add: leave_block_def)
  moreover have "unread (leave_block ?s4) = [0]" "local_fds (leave_block ?s4) = None" by (simp_all add: leave_block_def eval)
  ultimately have "oneshot_table 4 (leave_block ?s5) 7 \<noteq> None" "oneshot_step sample_os 4 3 (leave_block ?s4) (Reads 0) None"
    using one_worker_per_connection [OF r] one_worker_per_connection [OF r1] by simp_all
  with r r1 show ?thesis
    by (intro exI [of _ "leave_block ?s5"] exI [of _ "leave_block ?s4"] conjI) (simp_all add: leave_block_def)
qed

end
