(* ===== verification/Sockets.thy ===== *)
theory Sockets
  imports Http_Types
begin

unbundle bit_operations_syntax

text \<open>
  What the main functions share: arguments of the command line, internet addresses, and the calls that set up
  a socket. A main is a computation that records its calls in order and then exits, fails an assertion,
  runs into undefined behaviour, or goes on with a value. The functions of the C library it uses (atoi, htons,
  inet\_pton, inet\_ntop) are defined; what the system answers is a parameter.
\<close>

section \<open>Internet addresses\<close>

definition AF_INET :: int where "AF_INET = 2"

text \<open>The address as it lies in memory: the port as stored, the four bytes of the host.\<close>

record sockaddr =
  sin_family :: int
  sin_port :: "16 word"
  sin_addr :: "nat list"

text \<open>The bytes of a short in memory, on a big or a little endian machine, and the conversions to and from network order.\<close>

definition short_bytes :: "bool \<Rightarrow> 16 word \<Rightarrow> 8 word list" where
  "short_bytes big x = (if big then [ucast (drop_bit 8 x), ucast x] else [ucast x, ucast (drop_bit 8 x)])"

definition htons :: "bool \<Rightarrow> 16 word \<Rightarrow> 16 word" where
  "htons big x = (if big then x else push_bit 8 x OR drop_bit 8 x)"

definition ntohs :: "bool \<Rightarrow> 16 word \<Rightarrow> 16 word" where
  "ntohs = htons"

lemma swap_swap: "push_bit 8 (push_bit 8 x OR drop_bit 8 x) OR drop_bit 8 (push_bit 8 x OR drop_bit 8 x) = (x :: 16 word)"
proof (rule bit_word_eqI)
  fix n assume n: "n < LENGTH(16)"
  show "bit (push_bit 8 (push_bit 8 x OR drop_bit 8 x) OR drop_bit 8 (push_bit 8 x OR drop_bit 8 x)) n = bit x n"
  proof (cases "n < 8")
    case False
    have "\<not> bit x (8 + n)" using False by (intro notI) (auto dest: bit_imp_le_length)
    with False n show ?thesis by (simp add: bit_simps)
  qed (use n in \<open>simp add: bit_simps\<close>)
qed

lemma swap_low: "ucast (push_bit 8 x OR drop_bit 8 x :: 16 word) = (ucast (drop_bit 8 x) :: 8 word)"
  by (rule bit_word_eqI) (simp add: bit_simps)

lemma swap_high: "ucast (drop_bit 8 (push_bit 8 x OR drop_bit 8 x :: 16 word)) = (ucast x :: 8 word)"
proof (rule bit_word_eqI)
  fix n assume "n < LENGTH(8)"
  moreover have "\<not> bit x (8 + (8 + n))" by (intro notI) (auto dest: bit_imp_le_length)
  ultimately show "bit (ucast (drop_bit 8 (push_bit 8 x OR drop_bit 8 x :: 16 word)) :: 8 word) n = bit (ucast x :: 8 word) n"
    by (simp add: bit_simps)
qed

lemma ntohs_htons: "ntohs big (htons big x) = x"
  by (cases big; simp only: ntohs_def htons_def swap_swap if_True if_False)

text \<open>Whatever the machine, htons puts the high byte first; a port outside the range of a short loses its upper bits.\<close>

lemma bytes_htons: "short_bytes big (htons big x) = [ucast (drop_bit 8 x), ucast x]"
  by (cases big; simp only: short_bytes_def htons_def swap_low swap_high if_True if_False)

lemma uint_low: "uint (ucast y :: 8 word) = uint y mod 256" for y :: "16 word"
  by (simp add: unsigned_ucast_eq take_bit_eq_mod)

lemma uint_port: "uint (word_of_int port :: 16 word) = port mod 65536"
  by (simp add: unsigned_of_int take_bit_eq_mod)

lemma htons_port: "map uint (short_bytes big (htons big (word_of_int port))) = [port div 256 mod 256, port mod 256]"
proof -
  have "uint (drop_bit 8 (word_of_int port :: 16 word)) = port mod 65536 div 256"
    by (simp add: unsigned_drop_bit_eq uint_port drop_bit_eq_div uint_div)
  moreover have "port mod 65536 div 256 mod 256 = port div 256 mod 256"
    using zmod_zmult2_eq [of 256 port 256] by simp
  moreover have "port mod 65536 mod 256 = port mod 256" by (simp add: mod_mod_cancel)
  ultimately show ?thesis by (simp only: bytes_htons list.map uint_low uint_port)
qed

text \<open>atoi: a value that an int cannot hold makes it undefined.\<close>

definition atoi :: "char list \<Rightarrow> int res" where
  "atoi s = bind_res (atol (s @ [NUL]) 0) (\<lambda>v. if INT_MIN \<le> v \<and> v \<le> INT_MAX then Inr v else Inl SignedOverflow)"

text \<open>
  inet\_pton for the family AF\_INET: four decimal numbers below 256 without leading zeros, separated by points. On
  any other text it fails and writes nothing.
\<close>

fun split_at :: "char \<Rightarrow> char list \<Rightarrow> char list list" where
  "split_at d [] = [[]]"
| "split_at d (c # cs) = (if c = d then [] # split_at d cs
     else (case split_at d cs of w # ws \<Rightarrow> (c # w) # ws | [] \<Rightarrow> [[c]]))"

definition dec_value :: "char list \<Rightarrow> int" where
  "dec_value cs = foldl (\<lambda>n c. 10 * n + digit_val c) 0 cs"

definition octet :: "char list \<Rightarrow> nat option" where
  "octet cs = (if cs \<noteq> [] \<and> list_all is_digit cs \<and> (hd cs = CHR ''0'' \<longrightarrow> length cs = 1) \<and> dec_value cs \<le> 255
     then Some (nat (dec_value cs)) else None)"

definition inet_pton :: "char list \<Rightarrow> nat list option" where
  "inet_pton s = (let os = map octet (split_at (CHR ''.'') s) in
     if length os = 4 \<and> None \<notin> set os then Some (map the os) else None)"

definition inet_ntop :: "nat list \<Rightarrow> char list" where
  "inet_ntop a = concat (map (\<lambda>i. (if i = 0 then [] else ''.'') @ show_nat (a ! i)) [0..<length a])"

section \<open>Set-up computations\<close>

datatype sig_disposition = Sig_ignore | Sig_handler

datatype net_call =
    Socket
  | Set_linger int int int
  | Set_buffer bool int int
  | Get_buffer bool int
  | Bind int sockaddr
  | Listen int int
  | Connect int sockaddr
  | Accept int
  | Epoll_create int
  | Socketpair
  | Pipe
  | Sigaction nat sig_disposition bool
  | Signal nat
  | Shm_open
  | Ftruncate int int
  | Mmap_shared int
  | Sleep nat
  | Recv_data int nat bool
  | Send_data int "char list" bool
  | Splice int int "char list"
  | Dup int int
  | Close_fd int
  | Print "char list"

datatype 'a outcome = Exits int | Aborts | Hangs | Undefined ub | Starts 'a

type_synonym 'a startup = "net_call list \<times> 'a outcome"

definition bind_setup :: "'a startup \<Rightarrow> ('a \<Rightarrow> 'b startup) \<Rightarrow> 'b startup" where
  "bind_setup m f = (case snd m of
     Starts x \<Rightarrow> (fst m @ fst (f x), snd (f x)) | Exits n \<Rightarrow> (fst m, Exits n) | Aborts \<Rightarrow> (fst m, Aborts)
   | Hangs \<Rightarrow> (fst m, Hangs) | Undefined u \<Rightarrow> (fst m, Undefined u))"

definition return_setup :: "'a \<Rightarrow> 'a startup" where "return_setup x = ([], Starts x)"
definition exits :: "int \<Rightarrow> 'a startup" where "exits n = ([], Exits n)"
definition asserts :: "bool \<Rightarrow> unit startup" where "asserts b = ([], if b then Starts () else Aborts)"
definition does :: "net_call \<Rightarrow> 'a \<Rightarrow> 'a startup" where "does c x = ([c], Starts x)"
definition value_of :: "'a res \<Rightarrow> 'a startup" where
  "value_of r = ([], case r of Inl u \<Rightarrow> Undefined u | Inr x \<Rightarrow> Starts x)"

named_theorems setup_simps \<open>evaluation of set-up computations\<close>

lemma bind_setup_simps [setup_simps, simp]:
  "bind_setup (return_setup x) f = f x"
  "bind_setup (exits n) f1 = exits n"
  "bind_setup (asserts b) f2 = (if b then f2 () else ([], Aborts))"
  "bind_setup (does c y) f3 = (c # fst (f3 y), snd (f3 y))"
  "bind_setup (value_of (Inr z)) f4 = f4 z"
  "bind_setup (value_of (Inl u)) f5 = ([], Undefined u)"
  by (simp_all add: bind_setup_def return_setup_def exits_def asserts_def does_def value_of_def)

lemma fst_snd_setup [setup_simps, simp]:
  "fst (return_setup x) = []" "snd (return_setup x) = Starts x" "fst (exits n) = []" "snd (exits n) = Exits n"
  "fst (does c y) = [c]" "snd (does c y) = Starts y"
  by (simp_all add: return_setup_def exits_def does_def)

lemma bind_setup_assoc: "bind_setup (bind_setup m f) g = bind_setup m (\<lambda>x. bind_setup (f x) g)"
  by (simp add: bind_setup_def split: outcome.splits)

text \<open>argv has a null pointer behind its last element.\<close>

definition argument :: "char list list \<Rightarrow> nat \<Rightarrow> char list res" where
  "argument argv i = (if i < length argv then Inr (argv ! i) else if i = length argv then Inl NullDeref else Inl OutOfBounds)"

text \<open>What the system answers to the calls that set up a server or a client.\<close>

record net_env =
  ne_big :: bool
  ne_socket :: int
  ne_bind :: "sockaddr \<Rightarrow> int"
  ne_listen :: int
  ne_connect :: "sockaddr \<Rightarrow> int"
  ne_accept :: int
  ne_epoll_create :: int
  ne_socketpair :: "int \<times> int \<times> int"
  ne_sigaction :: "nat \<Rightarrow> int"

text \<open>bzero, the family, inet\_pton (whose result is not looked at) and htons.\<close>

definition address_of :: "net_env \<Rightarrow> char list \<Rightarrow> int \<Rightarrow> sockaddr" where
  "address_of env ip port = \<lparr>sin_family = AF_INET, sin_port = htons (ne_big env) (word_of_int port),
     sin_addr = (case inet_pton ip of Some a \<Rightarrow> a | None \<Rightarrow> [0, 0, 0, 0])\<rparr>"

definition open_socket :: "net_env \<Rightarrow> int startup" where
  "open_socket env = bind_setup (does Socket (ne_socket env)) (\<lambda>fd. bind_setup (asserts (fd \<ge> 0)) (\<lambda>_. return_setup fd))"

definition bind_checked :: "net_env \<Rightarrow> int \<Rightarrow> sockaddr \<Rightarrow> unit startup" where
  "bind_checked env fd addr = bind_setup (does (Bind fd addr) (ne_bind env addr)) (\<lambda>ret. asserts (ret \<noteq> -1))"

definition listen_checked :: "net_env \<Rightarrow> int \<Rightarrow> int \<Rightarrow> unit startup" where
  "listen_checked env fd backlog = bind_setup (does (Listen fd backlog) (ne_listen env)) (\<lambda>ret. asserts (ret \<noteq> -1))"

definition create_epoll :: "net_env \<Rightarrow> int \<Rightarrow> int startup" where
  "create_epoll env n = bind_setup (does (Epoll_create n) (ne_epoll_create env)) (\<lambda>fd.
     bind_setup (asserts (fd \<noteq> -1)) (\<lambda>_. return_setup fd))"

definition create_socketpair :: "net_env \<Rightarrow> (int \<times> int) startup" where
  "create_socketpair env = bind_setup (does Socketpair (ne_socketpair env)) (\<lambda>(ret, fds).
     bind_setup (asserts (ret \<noteq> -1)) (\<lambda>_. return_setup fds))"

definition SIGINT :: nat where "SIGINT = 2"
definition SIGPIPE :: nat where "SIGPIPE = 13"
definition SIGALARM :: nat where "SIGALARM = 14"
definition SIGTERMINATE :: nat where "SIGTERMINATE = 15"
definition SIGCHLD :: nat where "SIGCHLD = 17"

definition addsig :: "net_env \<Rightarrow> nat \<Rightarrow> sig_disposition \<Rightarrow> bool \<Rightarrow> unit startup" where
  "addsig env sig handler restart = bind_setup (does (Sigaction sig handler restart) (ne_sigaction env sig)) (\<lambda>ret. asserts (ret \<noteq> -1))"


section \<open>Lemmas\<close>

lemma bind_setup_Starts:
  "bind_setup m f = (cs, Starts y) \<longleftrightarrow> (\<exists>cs1 x cs2. m = (cs1, Starts x) \<and> f x = (cs2, Starts y) \<and> cs = cs1 @ cs2)"
  by (cases m; cases "f (case snd m of Starts x \<Rightarrow> x)") (auto simp: bind_setup_def split: outcome.splits)

lemma setup_Starts [setup_simps, simp]:
  "return_setup x = (cs, Starts y) \<longleftrightarrow> cs = [] \<and> x = y"
  "exits n \<noteq> (cs, Starts y1)"
  "asserts b = (cs, Starts ()) \<longleftrightarrow> cs = [] \<and> b"
  "does c x2 = (cs, Starts y2) \<longleftrightarrow> cs = [c] \<and> x2 = y2"
  "value_of r = (cs, Starts z) \<longleftrightarrow> cs = [] \<and> r = Inr z"
  by (auto simp: return_setup_def exits_def asserts_def does_def value_of_def split: sum.splits)

lemma argument_Inr [simp]: "argument argv i = Inr a \<longleftrightarrow> i < length argv \<and> a = argv ! i"
  by (auto simp: argument_def)

lemma opens_Starts:
  "open_socket env = (cs, Starts fd) \<longleftrightarrow> cs = [Socket] \<and> fd = ne_socket env \<and> fd \<ge> 0"
  "bind_checked env fd addr = (cs, Starts ()) \<longleftrightarrow> cs = [Bind fd addr] \<and> ne_bind env addr \<noteq> -1"
  "listen_checked env fd n = (cs, Starts ()) \<longleftrightarrow> cs = [Listen fd n] \<and> ne_listen env \<noteq> -1"
  "create_epoll env n = (cs, Starts ep) \<longleftrightarrow> cs = [Epoll_create n] \<and> ep = ne_epoll_create env \<and> ep \<noteq> -1"
  "create_socketpair env = (cs, Starts fds) \<longleftrightarrow> cs = [Socketpair] \<and> fds = snd (ne_socketpair env) \<and> fst (ne_socketpair env) \<noteq> -1"
  "addsig env sig h b = (cs, Starts ()) \<longleftrightarrow> cs = [Sigaction sig h b] \<and> ne_sigaction env sig \<noteq> -1"
  by (auto simp: open_socket_def bind_checked_def listen_checked_def create_epoll_def create_socketpair_def addsig_def
      bind_setup_Starts simp del: bind_setup_simps split: prod.splits)

lemma opens_simps [setup_simps]:
  "ne_socket env \<ge> 0 \<Longrightarrow> open_socket env = ([Socket], Starts (ne_socket env))"
  "ne_bind env addr \<noteq> -1 \<Longrightarrow> bind_checked env fd addr = ([Bind fd addr], Starts ())"
  "ne_listen env \<noteq> -1 \<Longrightarrow> listen_checked env fd n = ([Listen fd n], Starts ())"
  "ne_epoll_create env \<noteq> -1 \<Longrightarrow> create_epoll env n = ([Epoll_create n], Starts (ne_epoll_create env))"
  "fst (ne_socketpair env) \<noteq> -1 \<Longrightarrow> create_socketpair env = ([Socketpair], Starts (snd (ne_socketpair env)))"
  "ne_sigaction env sig \<noteq> -1 \<Longrightarrow> addsig env sig h b = ([Sigaction sig h b], Starts ())"
  by (simp_all add: opens_Starts)

lemma bind_setup_pair [setup_simps]: "bind_setup (cs, Starts x) f = (cs @ fst (f x), snd (f x))"
  "bind_setup (cs, Aborts) f1 = (cs, Aborts)" "bind_setup (cs, Hangs) f2 = (cs, Hangs)"
  "bind_setup (cs, Undefined u) f3 = (cs, Undefined u)" "bind_setup (cs, Exits n) f4 = (cs, Exits n)"
  "snd (value_of (Inl u)) = Undefined u" "fst (value_of r) = []"
  by (simp_all add: bind_setup_def value_of_def)

subsection \<open>Dotted addresses\<close>

lemma split_at_word: "d \<notin> set w \<Longrightarrow> split_at d (w @ d # cs) = w # split_at d cs"
  by (induction w) auto

lemma split_at_last: "d \<notin> set w \<Longrightarrow> split_at d w = [w]"
  by (induction w) auto

lemma show_nat_decimal: "list_all is_digit (show_nat n) \<and> show_nat n \<noteq> [] \<and> (0 < n \<longrightarrow> hd (show_nat n) \<noteq> CHR ''0'')"
proof (induction n rule: show_nat.induct)
  case (1 n)
  have d: "is_digit (char_of (48 + m))" if "m < 10" for m :: nat
    using that by (simp add: is_digit_def of_char_of)
  have z: "char_of (48 + m) = CHR ''0'' \<longleftrightarrow> m = 0" if "m < 10" for m :: nat
  proof
    assume "char_of (48 + m) = CHR ''0''"
    then have "(of_char (char_of (48 + m)) :: nat) = of_char (CHR ''0'')" by simp
    then show "m = 0" using that by (simp add: of_char_of)
  next
    have "char_of (48 :: nat) = CHR ''0''" by code_simp
    then show "m = 0 \<Longrightarrow> char_of (48 + m) = CHR ''0''" by simp
  qed
  show ?case
  proof (cases "n < 10")
    case True
    then show ?thesis using d [of n] z [of n] by (subst (1 2 3) show_nat.simps) simp
  next
    case False
    then have "0 < n div 10" by (simp add: div_greater_zero_iff)
    with 1 [OF False] False d [of "n mod 10"] show ?thesis by (subst (1 2 3) show_nat.simps) simp
  qed
qed

lemma dec_value_snoc: "dec_value (cs @ [c]) = 10 * dec_value cs + digit_val c"
  by (simp add: dec_value_def)

lemma dec_value_show_nat: "dec_value (show_nat n) = int n"
proof (induction n rule: show_nat.induct)
  case (1 n)
  have d: "digit_val (char_of (48 + m)) = int m" if "m < 10" for m :: nat
    using that by (simp add: digit_val_def of_char_of)
  show ?case
  proof (cases "n < 10")
    case True
    then show ?thesis using d [of n] by (subst show_nat.simps) (simp add: dec_value_def)
  next
    case False
    with 1 d [of "n mod 10"] show ?thesis by (subst show_nat.simps) (simp add: dec_value_snoc zdiv_int zmod_int)
  qed
qed

lemma octet_show_nat: "n < 256 \<Longrightarrow> octet (show_nat n) = Some n"
  using show_nat_decimal [of n] dec_value_show_nat [of n]
  by (cases "n = 0") (auto simp: octet_def show_nat.simps [of 0])

lemma inet_pton_ntop:
  assumes "length a = 4" "\<forall>x \<in> set a. x < 256"
  shows "inet_pton (inet_ntop a) = Some a"
proof -
  obtain i j k l where a: "a = [i, j, k, l]" using assms(1) by (auto simp: length_Suc_conv numeral_eq_Suc)
  have "\<not> is_digit (CHR ''.'')" by (simp add: is_digit_def)
  then have p: "CHR ''.'' \<notin> set (show_nat n)" for n using show_nat_decimal [of n] by (auto simp: list_all_iff)
  have "split_at (CHR ''.'') (inet_ntop a) = [show_nat i, show_nat j, show_nat k, show_nat l]"
    by (simp add: a inet_ntop_def split_at_word split_at_last p upt_rec)
  then show ?thesis using assms by (simp add: inet_pton_def a octet_show_nat Let_def)
qed

text \<open>A system on which every call succeeds.\<close>

definition sample_env :: net_env where
  "sample_env = \<lparr>ne_big = False, ne_socket = 3, ne_bind = (\<lambda>_. 0), ne_listen = 0, ne_connect = (\<lambda>_. 0), ne_accept = 4,
     ne_epoll_create = 5, ne_socketpair = (0, 6, 7), ne_sigaction = (\<lambda>_. 0)\<rparr>"

lemma sample_atoi: "atoi ''8080'' = Inr 8080" "atoi ''80'' = Inr 80"
  by code_simp+

end
