(* ===== verification/Server_Setup.thy ===== *)
theory Server_Setup
  imports Sockets Web_Server Thread_Pool Timeout_Server Pool_System Chatroom Subprocess_Chat Epoll_Demos
begin

text \<open>
  The main functions of the servers, from the command line to the state in which their loops start: each ends
  in the start state of its component's theory, or exits, fails an assertion or is undefined. The lemmas say
  which address the listening socket is bound to and what happens on every failure.
\<close>

section \<open>The servers\<close>

text \<open>\<^verbatim>\<open>httpConn/web_server.cpp\<close>; the argument pool is the outcome of the pool's constructor.\<close>

definition web_main :: "os \<Rightarrow> net_env \<Rightarrow> 'r construction \<Rightarrow> char list list \<Rightarrow> (server \<times> 'r threadpool) startup" where
  "web_main os env pool argv =
     (if length argv \<le> 2 then exits 1
      else bind_setup (value_of (argument argv 1)) (\<lambda>ip.
      bind_setup (value_of (bind_res (argument argv 2) atoi)) (\<lambda>port.
      bind_setup (addsig env SIGPIPE Sig_ignore True) (\<lambda>_.
      case pool of Misread u \<Rightarrow> ([], Undefined u) | Thrown k \<Rightarrow> exits 1 | Constructed p \<Rightarrow>
      bind_setup (open_socket env) (\<lambda>listenfd.
      bind_setup (does (Set_linger listenfd 1 0) ()) (\<lambda>_.
      bind_setup (bind_checked env listenfd (address_of env ip port)) (\<lambda>_.
      bind_setup (listen_checked env listenfd 5) (\<lambda>_.
      bind_setup (create_epoll env 5) (\<lambda>epollfd.
      return_setup (start_server os listenfd epollfd, p))))))))))"

text \<open>\<^verbatim>\<open>execution/timeout_server.cpp\<close>.\<close>

definition timeout_main :: "os \<Rightarrow> net_env \<Rightarrow> int \<Rightarrow> char list list \<Rightarrow> tserver startup" where
  "timeout_main os env now argv =
     (if length argv \<le> 2 then exits 1
      else bind_setup (value_of (argument argv 1)) (\<lambda>ip.
      bind_setup (value_of (bind_res (argument argv 2) atoi)) (\<lambda>port.
      bind_setup (open_socket env) (\<lambda>listenfd.
      bind_setup (bind_checked env listenfd (address_of env ip port)) (\<lambda>_.
      bind_setup (listen_checked env listenfd 5) (\<lambda>_.
      bind_setup (create_epoll env 5) (\<lambda>epollfd.
      bind_setup (create_socketpair env) (\<lambda>(pipefd0, pipefd1).
      bind_setup (addsig env SIGALARM Sig_handler True) (\<lambda>_.
      bind_setup (addsig env SIGTERMINATE Sig_handler True) (\<lambda>_.
      return_setup (t_start os epollfd listenfd pipefd0 pipefd1 now)))))))))))"

text \<open>
  The process pool after its constructor: create makes the pool once, setup\_sig\_pipe sets up the epoll
  instance and the signals of each process, and run goes on as a child or as the parent.
\<close>

definition create_pool :: "processpool option \<Rightarrow> int \<Rightarrow> int \<Rightarrow> int list \<Rightarrow> fork_answer list \<Rightarrow> world \<Rightarrow> processpool option" where
  "create_pool m_instance listenfd process_number junk forks w =
     (case m_instance of None \<Rightarrow> construct_pool listenfd process_number junk forks w | Some p \<Rightarrow> Some p)"

definition pool_sig_setup :: "net_env \<Rightarrow> (int \<times> int \<times> int) startup" where
  "pool_sig_setup env =
     bind_setup (create_epoll env 5) (\<lambda>epollfd.
     bind_setup (create_socketpair env) (\<lambda>(sig0, sig1).
     bind_setup (addsig env SIGCHLD Sig_handler True) (\<lambda>_.
     bind_setup (addsig env SIGTERMINATE Sig_handler True) (\<lambda>_.
     bind_setup (addsig env SIGINT Sig_handler True) (\<lambda>_.
     bind_setup (addsig env SIGPIPE Sig_ignore True) (\<lambda>_.
     return_setup (epollfd, sig0, sig1)))))))"

definition pool_run :: "os \<Rightarrow> net_env \<Rightarrow> 'u \<Rightarrow> processpool \<Rightarrow> ('u child + processpool) startup" where
  "pool_run os env raw s =
     bind_setup (pool_sig_setup env) (\<lambda>(epollfd, sig0, sig1).
     return_setup (if m_idx s \<noteq> -1 then Inl (start_child os epollfd sig0 sig1 raw s)
                   else Inr (start_parent os epollfd sig0 sig1 s)))"

text \<open>\<^verbatim>\<open>execution/echo_processpool_server.cpp\<close>: what bind returns is overwritten by what listen returns.\<close>

definition echo_main :: "net_env \<Rightarrow> int list \<Rightarrow> fork_answer list \<Rightarrow> char list list \<Rightarrow> processpool startup" where
  "echo_main env junk forks argv =
     (if length argv \<le> 2 then exits 1
      else bind_setup (value_of (argument argv 1)) (\<lambda>ip.
      bind_setup (value_of (bind_res (argument argv 2) atoi)) (\<lambda>port.
      bind_setup (open_socket env) (\<lambda>listenfd.
      let addr = address_of env ip port in
      bind_setup (does (Bind listenfd addr) (ne_bind env addr)) (\<lambda>_.
      bind_setup (listen_checked env listenfd 5) (\<lambda>_.
      case create_pool None listenfd 2 junk forks \<lparr>m_epollfd = 0, m_user_count = 0, calls = []\<rparr> of
        None \<Rightarrow> ([], Aborts)
      | Some p \<Rightarrow> return_setup p))))))"

text \<open>\<^verbatim>\<open>execution/chatroom_server.c\<close>; junk and mem stand for the memory it does not initialise.\<close>

definition chat_main :: "net_env \<Rightarrow> pollfd \<Rightarrow> (int \<Rightarrow> chat_user) \<Rightarrow> char list list \<Rightarrow> chat startup" where
  "chat_main env junk mem argv =
     (if length argv \<le> 2 then exits 1
      else bind_setup (value_of (argument argv 1)) (\<lambda>ip.
      bind_setup (value_of (bind_res (argument argv 2) atoi)) (\<lambda>port.
      bind_setup (open_socket env) (\<lambda>listenfd.
      let addr = address_of env ip port in
      bind_setup (does (Bind listenfd addr) (ne_bind env addr)) (\<lambda>_.
      bind_setup (listen_checked env listenfd 5) (\<lambda>_.
      return_setup (chat_start listenfd junk mem)))))))"

text \<open>
  \<^verbatim>\<open>execution/subprocess_chat_room.cpp\<close>: shm answers shm\_open, ftruncate (its result) and mmap (whether it
  succeeded).
\<close>

definition room_main :: "os \<Rightarrow> net_env \<Rightarrow> int \<times> int \<times> bool \<Rightarrow> room_client list \<Rightarrow> char list list \<Rightarrow> room startup" where
  "room_main os env shm junk argv =
     (if length argv \<le> 2 then exits 1
      else bind_setup (value_of (argument argv 1)) (\<lambda>ip.
      bind_setup (value_of (bind_res (argument argv 2) atoi)) (\<lambda>port.
      bind_setup (open_socket env) (\<lambda>listenfd.
      bind_setup (bind_checked env listenfd (address_of env ip port)) (\<lambda>_.
      bind_setup (listen_checked env listenfd 5) (\<lambda>_.
      bind_setup (create_epoll env ROOM_USER_LIMIT) (\<lambda>epollfd.
      bind_setup (create_socketpair env) (\<lambda>sig_pipefd.
      bind_setup (addsig env SIGCHLD Sig_handler True) (\<lambda>_.
      bind_setup (addsig env SIGTERMINATE Sig_handler True) (\<lambda>_.
      bind_setup (addsig env SIGINT Sig_handler True) (\<lambda>_.
      bind_setup (addsig env SIGPIPE Sig_ignore True) (\<lambda>_.
      let (shmfd, truncated, mapped) = shm in
      bind_setup (does Shm_open ()) (\<lambda>_. bind_setup (asserts (shmfd \<noteq> -1)) (\<lambda>_.
      bind_setup (does (Ftruncate shmfd (ROOM_USER_LIMIT * int ROOM_BUFFER_SIZE)) ()) (\<lambda>_. bind_setup (asserts (truncated \<noteq> -1)) (\<lambda>_.
      bind_setup (does (Mmap_shared shmfd) ()) (\<lambda>_. bind_setup (asserts mapped) (\<lambda>_.
      bind_setup (does (Close_fd shmfd) ()) (\<lambda>_.
      return_setup (room_start os listenfd epollfd sig_pipefd junk))))))))))))))))))))"

text \<open>\<^verbatim>\<open>execution/LT_ET_in_epoll.c\<close> and \<^verbatim>\<open>execution/epoll_oneshot.c\<close>.\<close>

definition et_main :: "net_env \<Rightarrow> char list list \<Rightarrow> demo startup" where
  "et_main env argv =
     (if length argv \<le> 2 then exits 1
      else bind_setup (value_of (argument argv 1)) (\<lambda>ip.
      bind_setup (value_of (bind_res (argument argv 2) atoi)) (\<lambda>port.
      bind_setup (open_socket env) (\<lambda>listenfd.
      bind_setup (bind_checked env listenfd (address_of env ip port)) (\<lambda>_.
      bind_setup (listen_checked env listenfd 5) (\<lambda>_.
      bind_setup (create_epoll env 5) (\<lambda>epollfd.
      return_setup (demo_start epollfd listenfd))))))))"

definition oneshot_main :: "os \<Rightarrow> net_env \<Rightarrow> char list list \<Rightarrow> oneshot startup" where
  "oneshot_main os env argv =
     (if length argv \<le> 2 then exits 1
      else bind_setup (value_of (argument argv 1)) (\<lambda>ip.
      bind_setup (value_of (bind_res (argument argv 2) atoi)) (\<lambda>port.
      bind_setup (open_socket env) (\<lambda>listenfd.
      bind_setup (bind_checked env listenfd (address_of env ip port)) (\<lambda>_.
      bind_setup (listen_checked env listenfd 5) (\<lambda>_.
      bind_setup (create_epoll env 5) (\<lambda>epollfd.
      return_setup (oneshot_start os epollfd listenfd))))))))"

text \<open>
  The signal handler of the servers with a signal pipe: it keeps errno and writes the low byte of the signal's
  number, which the loop reads as a char.
\<close>

definition sig_handler :: "int \<Rightarrow> nat \<Rightarrow> int \<times> world \<Rightarrow> int \<times> world" where
  "sig_handler pipefd1 sig = (\<lambda>(errno, w). (errno, emit (Send pipefd1 [char_of sig]) w))"

text \<open>What the mains do after their loops.\<close>

definition end_server :: "int \<Rightarrow> server \<Rightarrow> world" where
  "end_server listenfd s = emit (Close listenfd) (emit (Close (m_epollfd (net s))) (net s))"

definition end_timeout :: "int \<Rightarrow> int \<Rightarrow> int \<Rightarrow> tserver \<Rightarrow> world" where
  "end_timeout listenfd pipefd0 pipefd1 s = foldl (\<lambda>w fd. emit (Close fd) w) (twork s) [listenfd, pipefd0, pipefd1]"

definition end_chat :: "int \<Rightarrow> chat \<Rightarrow> world" where
  "end_chat listenfd s = emit (Close listenfd) (chat_net s)"

definition end_oneshot :: "int \<Rightarrow> oneshot \<Rightarrow> world" where
  "end_oneshot listenfd s = emit (Close listenfd) (demo_net (oneshot_demo s))"

section \<open>Lemmas\<close>

text \<open>The socket was bound to the address of the arguments, with the port's bytes in network order, and listens.\<close>

definition bound_to :: "net_env \<Rightarrow> char list list \<Rightarrow> net_call list \<Rightarrow> bool" where
  "bound_to env argv cs \<longleftrightarrow> (\<exists>port. atoi (argv ! 2) = Inr port \<and> ne_bind env (address_of env (argv ! 1) port) \<noteq> -1 \<and>
     Bind (ne_socket env) (address_of env (argv ! 1) port) \<in> set cs \<and> Listen (ne_socket env) 5 \<in> set cs \<and>
     map uint (short_bytes (ne_big env) (sin_port (address_of env (argv ! 1) port))) = [port div 256 mod 256, port mod 256])"

lemma port_bytes: "map uint (short_bytes (ne_big env) (sin_port (address_of env ip port))) = [port div 256 mod 256, port mod 256]"
  by (simp add: address_of_def htons_port)

lemma web_main_starts:
  assumes "web_main os env pool argv = (cs, Starts sp)"
  shows "bound_to env argv cs \<and> sp = (start_server os (ne_socket env) (ne_epoll_create env), case pool of Constructed p \<Rightarrow> p) \<and>
    (\<exists>p. pool = Constructed p)"
  using assms
  by (auto simp: web_main_def bind_setup_Starts opens_Starts bind_res_Inr_iff bound_to_def port_bytes
      simp del: bind_setup_simps split: if_splits construction.splits)

lemma timeout_main_starts:
  assumes "timeout_main os env now argv = (cs, Starts s)"
  shows "bound_to env argv cs \<and> s = t_start os (ne_epoll_create env) (ne_socket env) (fst (snd (ne_socketpair env))) (snd (snd (ne_socketpair env))) now"
  using assms
  by (auto simp: timeout_main_def bind_setup_Starts opens_Starts bind_res_Inr_iff bound_to_def port_bytes
      simp del: bind_setup_simps split: if_splits prod.splits)

lemma room_main_starts:
  assumes "room_main os env shm junk argv = (cs, Starts s)"
  shows "bound_to env argv cs \<and> s = room_start os (ne_socket env) (ne_epoll_create env) (snd (ne_socketpair env)) junk"
  using assms
  by (auto simp: room_main_def bind_setup_Starts opens_Starts bind_res_Inr_iff bound_to_def port_bytes Let_def
      simp del: bind_setup_simps split: if_splits prod.splits)

lemma demo_mains_start:
  "et_main env argv = (cs, Starts d) \<Longrightarrow> bound_to env argv cs \<and> d = demo_start (ne_epoll_create env) (ne_socket env)"
  "oneshot_main os env argv = (cs, Starts o1) \<Longrightarrow> bound_to env argv cs \<and> o1 = oneshot_start os (ne_epoll_create env) (ne_socket env)"
  by (auto simp: et_main_def oneshot_main_def bind_setup_Starts opens_Starts bind_res_Inr_iff bound_to_def port_bytes
      simp del: bind_setup_simps split: if_splits)

lemma echo_main_starts:
  assumes "echo_main env junk forks argv = (cs, Starts p)"
  shows "Listen (ne_socket env) 5 \<in> set cs \<and>
    construct_pool (ne_socket env) 2 junk forks \<lparr>m_epollfd = 0, m_user_count = 0, calls = []\<rparr> = Some p"
  using assms
  by (auto simp: echo_main_def create_pool_def bind_setup_Starts opens_Starts Let_def
      simp del: bind_setup_simps split: if_splits option.splits)

lemma pool_run_starts:
  assumes "pool_run os env raw p = (cs, Starts r)"
  shows "r = (let ep = ne_epoll_create env; (sig0, sig1) = snd (ne_socketpair env)
    in if m_idx p \<noteq> -1 then Inl (start_child os ep sig0 sig1 raw p) else Inr (start_parent os ep sig0 sig1 p))"
  using assms
  by (auto simp: pool_run_def pool_sig_setup_def bind_setup_Starts opens_Starts
      simp del: bind_setup_simps split: prod.splits)

text \<open>
  The processes of the echo server are those of Pool\_System: the parent, in which every fork returned a pid, and
  child j, which left the constructor's loop in round j and set up its own epoll instance and pipe.
\<close>

lemma echo_processes:
  assumes s: "pool_start os (ne_socket env) 2 junk forks (ne_epoll_create env) (fst (snd (ne_socketpair env))) (snd (snd (ne_socketpair env)))
      eps sigs0 sigs1 raw array = Some s"
  shows "echo_main env junk forks argv = (cs, Starts p) \<Longrightarrow> m_idx p = -1 \<Longrightarrow> pool_run os env raw p = (cs1, Starts r) \<Longrightarrow>
      r = Inr (ps_parent s)"
    and "echo_main env junk (take j forks @ [(forks ! j)\<lparr>fa_pid := 0\<rparr>]) argv = (cs, Starts k) \<Longrightarrow> m_idx k \<noteq> -1 \<Longrightarrow>
      pool_run os kid_env raw k = (cs1, Starts r) \<Longrightarrow> j < length forks \<Longrightarrow>
      ne_epoll_create kid_env = eps ! j \<Longrightarrow> snd (ne_socketpair kid_env) = (sigs0 ! j, sigs1 ! j) \<Longrightarrow> r = Inl (ps_kids s ! j)"
proof -
  obtain p1 ks where p1: "construct_pool (ne_socket env) 2 junk forks \<lparr>m_epollfd = 0, m_user_count = 0, calls = []\<rparr> = Some p1"
    and ks: "those (map (forked (ne_socket env) 2 junk forks) [0..<length forks]) = Some ks"
    using s by (auto simp: pool_start_def split: option.splits)
  note s1 = s [unfolded pool_start_def p1 ks option.case prod.case option.inject, symmetric]
  show "r = Inr (ps_parent s)"
    if "echo_main env junk forks argv = (cs, Starts p)" "m_idx p = -1" "pool_run os env raw p = (cs1, Starts r)"
    using echo_main_starts [OF that(1)] pool_run_starts [OF that(3)] that(2) p1 by (auto simp: s1 split: prod.splits)
  show "r = Inl (ps_kids s ! j)"
    if "echo_main env junk (take j forks @ [(forks ! j)\<lparr>fa_pid := 0\<rparr>]) argv = (cs, Starts k)" "m_idx k \<noteq> -1"
      "pool_run os kid_env raw k = (cs1, Starts r)" "j < length forks"
      "ne_epoll_create kid_env = eps ! j" "snd (ne_socketpair kid_env) = (sigs0 ! j, sigs1 ! j)"
  proof -
    have all: "map Some ks = map (forked (ne_socket env) 2 junk forks) [0..<length forks]" using ks by (rule those_Some)
    then have len: "length ks = length forks" by (metis diff_zero length_map length_upt)
    have "Some (ks ! j) = forked (ne_socket env) 2 junk forks j" using all that(4) len by (metis add_0 length_map map_nth nth_map nth_upt)
    with echo_main_starts [OF that(1)] have "ks ! j = k" by (simp add: forked_def)
    with pool_run_starts [OF that(3)] that(2,4-6) show ?thesis by (simp add: s1)
  qed
qed

section \<open>Properties\<close>

text \<open>
  The only Bind of a main names the host of the first argument, every interface when inet\_pton rejects it, and the port
  of the second modulo 65536, high byte first in memory; it comes directly before the only Listen, on the same socket.
\<close>

definition binds_once :: "net_env \<Rightarrow> char list list \<Rightarrow> net_call list \<Rightarrow> bool" where
  "binds_once env argv cs \<longleftrightarrow> (\<exists>cs1 a cs2 port. cs = cs1 @ Bind (ne_socket env) a # Listen (ne_socket env) 5 # cs2 \<and>
     (\<forall>c \<in> set (cs1 @ cs2). \<forall>fd b n. c \<noteq> Bind fd b \<and> c \<noteq> Listen fd n) \<and> atoi (argv ! 2) = Inr port \<and>
     sin_addr a = (case inet_pton (argv ! 1) of Some host \<Rightarrow> host | None \<Rightarrow> [0, 0, 0, 0]) \<and>
     map uint (short_bytes (ne_big env) (sin_port a)) = [port div 256 mod 256, port mod 256])"

lemma binds_onceI:
  assumes "cs = cs1 @ Bind (ne_socket env) (address_of env (argv ! 1) port) # Listen (ne_socket env) 5 # cs2"
    and "\<forall>c \<in> set (cs1 @ cs2). \<forall>fd b n. c \<noteq> Bind fd b \<and> c \<noteq> Listen fd n" and "atoi (argv ! 2) = Inr port"
  shows "binds_once env argv cs"
  unfolding binds_once_def
  by (intro exI [of _ cs1] exI [of _ "address_of env (argv ! 1) port"] exI [of _ cs2] exI [of _ port])
    (use assms port_bytes in \<open>simp add: address_of_def\<close>)

lemmas starts_simps = bind_setup_Starts opens_Starts bind_res_Inr_iff

text \<open>C29. Whatever its arguments, each of the seven servers that gets past its set-up has called bind exactly once,
  directly before its one call of listen, on the same socket, for the host of its first argument, and for the
  address of every interface when that text is not a dotted address (the result of inet\_pton is not looked at); the
  two bytes of the port in the address are those of the number modulo 65536, high byte first, on a machine of
  either byte order, so that a port of 65536 and more is silently another one.\<close>

theorem servers_bind_address:
  "(web_main os env pool argv = (cs, Starts sp) \<longrightarrow> binds_once env argv cs) \<and>
   (timeout_main os env now argv = (cs, Starts t) \<longrightarrow> binds_once env argv cs) \<and>
   (room_main os env shm junk argv = (cs, Starts r) \<longrightarrow> binds_once env argv cs) \<and>
   (et_main env argv = (cs, Starts d) \<longrightarrow> binds_once env argv cs) \<and>
   (oneshot_main os env argv = (cs, Starts o1) \<longrightarrow> binds_once env argv cs) \<and>
   (echo_main env forks_junk forks argv = (cs, Starts q) \<longrightarrow> binds_once env argv cs) \<and>
   (chat_main env pollfd_junk mem argv = (cs, Starts c) \<longrightarrow> binds_once env argv cs)"
proof (intro conjI impI)
  assume "web_main os env pool argv = (cs, Starts sp)"
  then show "binds_once env argv cs"
    by (cases pool; intro binds_onceI [where ?cs1.0 = "[Sigaction SIGPIPE Sig_ignore True, Socket, Set_linger (ne_socket env) 1 0]"
          and ?cs2.0 = "[Epoll_create 5]" and port = "case atoi (argv ! 2) of Inr p \<Rightarrow> p"])
      (auto simp: web_main_def starts_simps simp del: bind_setup_simps split: if_splits construction.splits)
next
  assume "timeout_main os env now argv = (cs, Starts t)"
  then show "binds_once env argv cs"
    by (intro binds_onceI [where ?cs1.0 = "[Socket]" and port = "case atoi (argv ! 2) of Inr p \<Rightarrow> p"
          and ?cs2.0 = "[Epoll_create 5, Socketpair, Sigaction SIGALARM Sig_handler True, Sigaction SIGTERMINATE Sig_handler True]"])
      (auto simp: timeout_main_def starts_simps simp del: bind_setup_simps split: if_splits prod.splits)
next
  assume "room_main os env shm junk argv = (cs, Starts r)"
  then show "binds_once env argv cs"
    by (intro binds_onceI [where ?cs1.0 = "[Socket]" and port = "case atoi (argv ! 2) of Inr p \<Rightarrow> p"
          and ?cs2.0 = "[Epoll_create ROOM_USER_LIMIT, Socketpair, Sigaction SIGCHLD Sig_handler True,
            Sigaction SIGTERMINATE Sig_handler True, Sigaction SIGINT Sig_handler True, Sigaction SIGPIPE Sig_ignore True,
            Shm_open, Ftruncate (fst shm) (ROOM_USER_LIMIT * int ROOM_BUFFER_SIZE), Mmap_shared (fst shm), Close_fd (fst shm)]"])
      (auto simp: room_main_def starts_simps Let_def simp del: bind_setup_simps split: if_splits prod.splits)
next
  assume "et_main env argv = (cs, Starts d)"
  then show "binds_once env argv cs"
    by (intro binds_onceI [where ?cs1.0 = "[Socket]" and ?cs2.0 = "[Epoll_create 5]" and port = "case atoi (argv ! 2) of Inr p \<Rightarrow> p"])
      (auto simp: et_main_def starts_simps simp del: bind_setup_simps split: if_splits)
next
  assume "oneshot_main os env argv = (cs, Starts o1)"
  then show "binds_once env argv cs"
    by (intro binds_onceI [where ?cs1.0 = "[Socket]" and ?cs2.0 = "[Epoll_create 5]" and port = "case atoi (argv ! 2) of Inr p \<Rightarrow> p"])
      (auto simp: oneshot_main_def starts_simps simp del: bind_setup_simps split: if_splits)
next
  assume "echo_main env forks_junk forks argv = (cs, Starts q)"
  then show "binds_once env argv cs"
    by (intro binds_onceI [where ?cs1.0 = "[Socket]" and ?cs2.0 = "[]" and port = "case atoi (argv ! 2) of Inr p \<Rightarrow> p"])
      (auto simp: echo_main_def starts_simps Let_def simp del: bind_setup_simps split: if_splits option.splits)
next
  assume "chat_main env pollfd_junk mem argv = (cs, Starts c)"
  then show "binds_once env argv cs"
    by (intro binds_onceI [where ?cs1.0 = "[Socket]" and ?cs2.0 = "[]" and port = "case atoi (argv ! 2) of Inr p \<Rightarrow> p"])
      (auto simp: chat_main_def starts_simps Let_def simp del: bind_setup_simps split: if_splits option.splits)
qed

text \<open>A user of the chat room as it lies in uninitialised memory.\<close>

definition sample_chat_user :: chat_user where
  "sample_chat_user = \<lparr>u_address = 0, u_write_buf = WUninit, u_buf = None\<rparr>"

text \<open>timeout\_server on port 65616, which is port 80; the chat room on a host that is a name, which is every interface.\<close>

lemma servers_bind_address_witness:
  "\<exists>cs t cs1 c. timeout_main sample_os sample_env 0 [''timeout_server'', ''127.0.0.1'', ''65616''] = (cs, Starts t) \<and>
     binds_once sample_env [''timeout_server'', ''127.0.0.1'', ''65616''] cs \<and> (65616 :: int) mod 65536 = 80 \<and>
     chat_main sample_env \<lparr>p_fd = 0, p_events = 0, p_revents = 0\<rparr> (\<lambda>_. sample_chat_user) [''chat'', ''localhost'', ''80''] = (cs1, Starts c) \<and>
     binds_once sample_env [''chat'', ''localhost'', ''80''] cs1 \<and> inet_pton ''localhost'' = None"
proof -
  have a: "atoi ''65616'' = Inr 65616" "inet_pton ''localhost'' = None" by code_simp+
  obtain cs t where m: "timeout_main sample_os sample_env 0 [''timeout_server'', ''127.0.0.1'', ''65616''] = (cs, Starts t)"
    by (simp add: timeout_main_def argument_def a setup_simps sample_env_def split: prod.splits)
  obtain cs1 c where m1: "chat_main sample_env \<lparr>p_fd = 0, p_events = 0, p_revents = 0\<rparr> (\<lambda>_. sample_chat_user) [''chat'', ''localhost'', ''80''] = (cs1, Starts c)"
    by (simp add: chat_main_def argument_def sample_atoi setup_simps sample_env_def Let_def split: prod.splits)
  from servers_bind_address [THEN conjunct2, THEN conjunct1, rule_format, OF m]
    servers_bind_address [THEN conjunct2, THEN conjunct2, THEN conjunct2, THEN conjunct2, THEN conjunct2, THEN conjunct2, rule_format, OF m1]
    m m1 a(2) show ?thesis by simp
qed

text \<open>C30. What happens when the address cannot be bound: five of the servers abort, but the echo server and the
  chat room over poll overwrite the result of bind with that of listen and start all the same, on a socket without
  the address that was asked for.\<close>

theorem bind_failure:
  assumes "length argv > 2" "atoi (argv ! 2) = Inr port" "ne_socket env \<ge> 0" "ne_listen env \<noteq> -1"
    and "ne_bind env (address_of env (argv ! 1) port) = -1" "ne_sigaction env SIGPIPE \<noteq> -1"
    and "construct_pool (ne_socket env) 2 forks_junk forks \<lparr>m_epollfd = 0, m_user_count = 0, calls = []\<rparr> = Some q"
  shows "snd (web_main os env (Constructed p) argv) = Aborts \<and> snd (timeout_main os env now argv) = Aborts \<and>
    snd (room_main os env shm junk argv) = Aborts \<and> snd (et_main env argv) = Aborts \<and> snd (oneshot_main os env argv) = Aborts \<and>
    snd (echo_main env forks_junk forks argv) = Starts q \<and>
    snd (chat_main env pollfd_junk mem argv) = Starts (chat_start (ne_socket env) pollfd_junk mem)"
proof -
  have "bind_checked env fd (address_of env (argv ! 1) port) = ([Bind fd (address_of env (argv ! 1) port)], Aborts)" for fd
    using assms(5) by (simp add: bind_checked_def asserts_def)
  note b = this [unfolded One_nat_def]
  show ?thesis using assms
    by (simp add: web_main_def timeout_main_def room_main_def et_main_def oneshot_main_def echo_main_def chat_main_def
        argument_def create_pool_def setup_simps b Let_def)
qed

lemma bind_failure_witness:
  "snd (et_main (sample_env\<lparr>ne_bind := \<lambda>_. -1\<rparr>) [''et'', ''x'', ''80'']) = Aborts \<and>
   snd (chat_main (sample_env\<lparr>ne_bind := \<lambda>_. -1\<rparr>) \<lparr>p_fd = 0, p_events = 0, p_revents = 0\<rparr> (\<lambda>_. sample_chat_user) [''chat'', ''x'', ''80'']) =
     Starts (chat_start 3 \<lparr>p_fd = 0, p_events = 0, p_revents = 0\<rparr> (\<lambda>_. sample_chat_user))"
proof -
  let ?env = "sample_env\<lparr>ne_bind := \<lambda>_. -1\<rparr>" and ?pfd = "\<lparr>p_fd = 0, p_events = 0, p_revents = 0\<rparr>"
  obtain q where q: "construct_pool 3 2 [0, 0] [] \<lparr>m_epollfd = 0, m_user_count = 0, calls = []\<rparr> = Some q"
    by (simp add: construct_pool_def MAX_PROCESS_NUMBER_def)
  have e: "0 \<le> ne_socket ?env" "ne_listen ?env \<noteq> -1" "ne_bind ?env a = -1" "ne_sigaction ?env SIGPIPE \<noteq> -1" "ne_socket ?env = 3" for a
    by (simp_all add: sample_env_def)
  have "snd (et_main ?env argv) = Aborts \<and> snd (chat_main ?env ?pfd (\<lambda>_. sample_chat_user) argv) = Starts (chat_start 3 ?pfd (\<lambda>_. sample_chat_user))"
    if "length argv = 3" "argv ! 2 = ''80''" for argv
  proof -
    fix p :: "nat threadpool"
    have "length argv > 2" "atoi (argv ! 2) = Inr 80" using that by (simp_all add: sample_atoi)
    from bind_failure [OF this e(1,2,3,4) q [folded e(5)], of sample_os p 0 "(8, 0, True)" "[]" ?pfd "\<lambda>_. sample_chat_user"] e(5)
    show ?thesis by simp
  qed
  from this [of "[''et'', ''x'', ''80'']"] this [of "[''chat'', ''x'', ''80'']"] show ?thesis by simp
qed

end
