(* ===== verification/Net_Tools.thy ===== *)
theory Net_Tools
  imports Sockets Chatroom
begin

unbundle bit_operations_syntax

text \<open>
  The small programs of \<^verbatim>\<open>src/src/execution\<close> that show one facility of the socket interface each, and the
  client of the chat room. They run from the command line to their exit; what accept, recv, splice and the
  other calls answer is a parameter. A splice from an empty pipe whose other end is open
  does not return, and one into a full pipe may not.
\<close>

section \<open>byteorder, checkBacklog and acceptSocket\<close>

definition byteorder :: "bool \<Rightarrow> char list list" where
  "byteorder big =
     (let bytes = short_bytes big 0x0102 in
      [''Short size '' @ show_int 2 @ [LF],
       if bytes ! 0 = 1 \<and> bytes ! 1 = 2 then ''big endian'' @ [LF]
       else if bytes ! 0 = 2 \<and> bytes ! 1 = 1 then ''little endian'' @ [LF]
       else ''unkown endian...'' @ [LF]])"

text \<open>The port is never put into the address. The loop sleeps until SIGTERM: naps rounds.\<close>

definition check_backlog :: "net_env \<Rightarrow> nat \<Rightarrow> char list list \<Rightarrow> unit startup" where
  "check_backlog env naps argv =
     bind_setup (does (Signal SIGTERMINATE) ()) (\<lambda>_.
     if length argv \<le> 3 then exits 1
      else bind_setup (value_of (argument argv 1)) (\<lambda>ip.
      bind_setup (value_of (bind_res (argument argv 2) atoi)) (\<lambda>port.
      bind_setup (value_of (bind_res (argument argv 3) atoi)) (\<lambda>backlog.
      bind_setup (open_socket env) (\<lambda>sock.
      bind_setup (bind_checked env sock ((address_of env ip port)\<lparr>sin_port := 0\<rparr>)) (\<lambda>_.
      bind_setup (does (Listen sock backlog) ()) (\<lambda>_.
      bind_setup (replicate naps (Sleep 1), Starts ()) (\<lambda>_.
      bind_setup (does (Close_fd sock) ()) (\<lambda>_. exits 0)))))))))"

text \<open>accept is given the address of the server, so the one of the client is printed without a value.\<close>

definition accept_socket :: "net_env \<Rightarrow> int \<Rightarrow> char list list \<Rightarrow> unit startup" where
  "accept_socket env errno argv =
     (if length argv \<le> 2 then exits 1
      else bind_setup (value_of (argument argv 1)) (\<lambda>ip.
      bind_setup (value_of (bind_res (argument argv 2) atoi)) (\<lambda>port.
      bind_setup (does Socket (ne_socket env)) (\<lambda>sock. bind_setup (asserts (sock > 0)) (\<lambda>_.
      bind_setup (bind_checked env sock (address_of env ip port)) (\<lambda>_.
      bind_setup (does (Listen sock 5) ()) (\<lambda>_.
      bind_setup (does (Sleep 20) ()) (\<lambda>_.
      bind_setup (does (Accept sock) (ne_accept env)) (\<lambda>connfd.
      if connfd < 0 then
        bind_setup (does (Print (''errno is: '' @ show_int errno @ [LF])) ()) (\<lambda>_.
        bind_setup (does (Close_fd sock) ()) (\<lambda>_. exits 0))
      else value_of (Inl UninitRead))))))))))"

section \<open>cgi\_server and splice\_server\<close>

definition open_listener :: "net_env \<Rightarrow> char list list \<Rightarrow> int startup" where
  "open_listener env argv =
     bind_setup (value_of (argument argv 1)) (\<lambda>ip.
     bind_setup (value_of (bind_res (argument argv 2) atoi)) (\<lambda>port.
     bind_setup (open_socket env) (\<lambda>sock.
     bind_setup (bind_checked env sock (address_of env ip port)) (\<lambda>_.
     bind_setup (listen_checked env sock 5) (\<lambda>_.
     return_setup sock)))))"

text \<open>dup returns duplicate, whatever that is: the code does not look at it.\<close>

definition cgi_server :: "net_env \<Rightarrow> int \<Rightarrow> char list list \<Rightarrow> unit startup" where
  "cgi_server env duplicate argv =
     (if length argv \<le> 2 then exits 1
      else bind_setup (open_listener env argv) (\<lambda>sock.
      bind_setup (does (Accept sock) (ne_accept env)) (\<lambda>connfd.
      bind_setup (if connfd < 0 then does (Print (''Connection failed!'' @ [LF])) ()
        else bind_setup (does (Close_fd 1) ()) (\<lambda>_.
          bind_setup (does (Dup connfd duplicate) ()) (\<lambda>_.
          bind_setup (does (Print (''abcd'' @ [LF])) ()) (\<lambda>_.
          does (Close_fd connfd) ())))) (\<lambda>_.
      bind_setup (does (Close_fd sock) ()) (\<lambda>_. exits 0)))))"

text \<open>Where what is printed goes: the descriptors open at the end, by what they stand for.\<close>

datatype channel = Terminal | Connection int

fun open_channel :: "(int \<Rightarrow> channel option) \<Rightarrow> net_call \<Rightarrow> (int \<Rightarrow> channel option)" where
  "open_channel t (Close_fd fd) = t(fd := None)"
| "open_channel t (Dup fd r) = (if r < 0 then t else t(r := t fd))"
| "open_channel t _ = t"

definition stdout_channel :: "int \<Rightarrow> net_call list \<Rightarrow> channel option" where
  "stdout_channel connfd cs = foldl open_channel [1 \<mapsto> Terminal, connfd \<mapsto> Connection connfd] cs 1"

text \<open>
  What the two calls of splice move: the first at most 32768 bytes that are there, or None when it fails; the
  second at most what the first put into the pipe.
\<close>

record splice_env =
  se_pipe :: "(int \<times> int) option"
  se_in :: "char list option"
  se_out :: "nat option"

definition splice_back :: "splice_env \<Rightarrow> int \<Rightarrow> int \<times> int \<Rightarrow> unit startup" where
  "splice_back se connfd fds =
     (case se_in se of
        None \<Rightarrow> ([Splice connfd (snd fds) []], Aborts)
      | Some bs \<Rightarrow> bind_setup (does (Splice connfd (snd fds) bs) ()) (\<lambda>_.
          if bs = [] then ([], Hangs)
          else (case se_out se of
                  None \<Rightarrow> ([Splice (fst fds) connfd []], Aborts)
                | Some n \<Rightarrow> does (Splice (fst fds) connfd (take n bs)) ())))"

definition splice_server :: "net_env \<Rightarrow> splice_env \<Rightarrow> char list list \<Rightarrow> unit startup" where
  "splice_server env se argv =
     (if length argv \<le> 2 then exits 1
      else bind_setup (open_listener env argv) (\<lambda>sock.
      bind_setup (does (Accept sock) (ne_accept env)) (\<lambda>connfd.
      bind_setup (if connfd < 0 then does (Print (''Connection failed!'' @ [LF])) ()
        else bind_setup (does Pipe (se_pipe se)) (\<lambda>fds.
          case fds of None \<Rightarrow> value_of (Inl UninitRead) | Some fds \<Rightarrow>
          bind_setup (splice_back se connfd fds) (\<lambda>_.
          does (Close_fd connfd) ()))) (\<lambda>_.
      bind_setup (does (Close_fd sock) ()) (\<lambda>_. exits 0)))))"

section \<open>Socket buffers\<close>

definition TOOL_BUFFER_SIZE :: nat where "TOOL_BUFFER_SIZE = 512"

text \<open>got is the size getsockopt reports.\<close>

definition set_send_buf :: "net_env \<Rightarrow> int \<Rightarrow> char list list \<Rightarrow> unit startup" where
  "set_send_buf env got argv =
     (if length argv \<le> 2 then exits 1
      else bind_setup (value_of (argument argv 1)) (\<lambda>ip.
      bind_setup (value_of (bind_res (argument argv 2) atoi)) (\<lambda>port.
      bind_setup (open_socket env) (\<lambda>sock.
      bind_setup (value_of (bind_res (argument argv 3) atoi)) (\<lambda>sendbuf.
      bind_setup (does (Set_buffer True sock sendbuf) ()) (\<lambda>_.
      bind_setup (does (Get_buffer True sock) ()) (\<lambda>_.
      bind_setup (does (Print (''the tcp send buffer size after setting is '' @ show_int got @ [LF])) ()) (\<lambda>_.
      let addr = address_of env ip port in
      bind_setup (does (Connect sock addr) (ne_connect env addr)) (\<lambda>ret.
      bind_setup (if ret \<noteq> -1 then does (Send_data sock (replicate TOOL_BUFFER_SIZE (CHR ''a'')) False) () else return_setup ()) (\<lambda>_.
      bind_setup (does (Close_fd sock) ()) (\<lambda>_. exits 0)))))))))))"

text \<open>The loop reads until recv returns nothing or fails; its calls are recorded.\<close>

partial_function (option) drain_loop :: "int \<Rightarrow> (nat \<Rightarrow> recv_answer) \<Rightarrow> nat \<Rightarrow> net_call list \<Rightarrow> net_call list option" where
  "drain_loop connfd recv k cs =
     (case recv k of
        Recv_bytes bs \<Rightarrow> drain_loop connfd recv (k + 1) (cs @ [Recv_data connfd 1023 False])
      | _ \<Rightarrow> Some (cs @ [Recv_data connfd 1023 False]))"

declare drain_loop.simps [code]

definition set_rec_buf :: "net_env \<Rightarrow> int \<Rightarrow> int \<Rightarrow> (nat \<Rightarrow> recv_answer) \<Rightarrow> char list list \<Rightarrow> unit startup" where
  "set_rec_buf env got errno recv argv =
     (if length argv \<le> 2 then exits 1
      else bind_setup (value_of (argument argv 1)) (\<lambda>ip.
      bind_setup (value_of (bind_res (argument argv 2) atoi)) (\<lambda>port.
      bind_setup (open_socket env) (\<lambda>sockfd.
      bind_setup (value_of (bind_res (argument argv 3) atoi)) (\<lambda>recvbuf.
      bind_setup (does (Set_buffer False sockfd recvbuf) ()) (\<lambda>_.
      bind_setup (does (Get_buffer False sockfd) ()) (\<lambda>_.
      bind_setup (does (Print (''the tcp receive buffer size after setting is '' @ show_int got @ [LF])) ()) (\<lambda>_.
      bind_setup (bind_checked env sockfd (address_of env ip port)) (\<lambda>_.
      bind_setup (listen_checked env sockfd 5) (\<lambda>_.
      bind_setup (does (Accept sockfd) (ne_accept env)) (\<lambda>connfd.
      bind_setup (if connfd < 0 then does (Print (''errno is '' @ show_int errno @ [LF])) ()
        else (case drain_loop connfd recv 0 [] of
                None \<Rightarrow> ([], Hangs)
              | Some cs \<Rightarrow> (cs @ [Close_fd connfd], Starts ()))) (\<lambda>_.
      bind_setup (does (Close_fd sockfd) ()) (\<lambda>_. exits 0)))))))))))))"

section \<open>Urgent data\<close>

definition OOB_BUF_SIZE :: nat where "OOB_BUF_SIZE = 1024"

definition msg_oob_sender :: "net_env \<Rightarrow> char list list \<Rightarrow> unit startup" where
  "msg_oob_sender env argv =
     (if length argv < 2 then exits 1
      else bind_setup (value_of (argument argv 1)) (\<lambda>ip.
      bind_setup (value_of (bind_res (argument argv 2) atoi)) (\<lambda>port.
      bind_setup (open_socket env) (\<lambda>sockfd.
      let addr = address_of env ip port; oob_data = ''abcd''; normal_data = ''1234556'' in
      bind_setup (does (Connect sockfd addr) (ne_connect env addr)) (\<lambda>ret.
      bind_setup (if ret < 0 then does (Print (''connection failed'' @ [LF])) ()
        else bind_setup (does (Send_data sockfd normal_data False) ()) (\<lambda>_.
          bind_setup (does (Send_data sockfd normal_data False) ()) (\<lambda>_.
          bind_setup (does (Send_data sockfd oob_data True) ()) (\<lambda>_.
          does (Send_data sockfd normal_data False) ())))) (\<lambda>_.
      bind_setup (does (Close_fd sockfd) ()) (\<lambda>_. exits 0)))))))"

text \<open>One recv into the cleared buffer, printed with its result and up to its first NUL.\<close>

definition recv_print :: "int \<Rightarrow> bool \<Rightarrow> recv_answer \<Rightarrow> char list \<Rightarrow> char list \<Rightarrow> char list \<Rightarrow> unit startup" where
  "recv_print connfd oob answer before between after =
     (let zero = replicate OOB_BUF_SIZE NUL in
      bind_setup (does (Recv_data connfd (OOB_BUF_SIZE - 1) oob) ()) (\<lambda>_.
      bind_setup (value_of (case answer of Recv_bytes bs \<Rightarrow> map_res (Pair (int (length bs))) (put_bytes zero 0 bs)
                            | Recv_eof \<Rightarrow> Inr (0, zero) | _ \<Rightarrow> Inr (-1, zero))) (\<lambda>(ret, b).
      bind_setup (value_of (cstr b 0)) (\<lambda>s.
      does (Print (before @ show_int ret @ between @ s @ after)) ()))))"

definition msg_oob_receiver :: "net_env \<Rightarrow> int \<Rightarrow> recv_answer \<times> recv_answer \<times> recv_answer \<Rightarrow> char list list \<Rightarrow> unit startup" where
  "msg_oob_receiver env errno answers3 argv =
     (if length argv < 2 then exits 1
      else bind_setup (open_listener env argv) (\<lambda>sock.
      bind_setup (does (Accept sock) (ne_accept env)) (\<lambda>connfd.
      let (a1, a2, a3) = answers3; q = [CHR 0x27] in
      bind_setup (if connfd < 0 then does (Print (''errno is '' @ show_int errno @ [LF])) ()
        else bind_setup (recv_print connfd False a1 ''got '' ('' bytes of normal data '' @ q) (q @ [LF])) (\<lambda>_.
          bind_setup (recv_print connfd True a2 ''got '' '' bytes of oob data '' ('' '' @ [LF])) (\<lambda>_.
          bind_setup (recv_print connfd False a3 ''got '' ('' bytes of normal data '' @ q) (q @ [LF])) (\<lambda>_.
          does (Close_fd connfd) ())))) (\<lambda>_.
      bind_setup (does (Close_fd sock) ()) (\<lambda>_. exits 0)))))"

section \<open>The client of the chat room\<close>

text \<open>
  One round of the loop: what poll returns, the revents of standard input and of the socket, what recv answers, and
  what the two splices do. Both may block: the first when the pipe is full (for ever, since only this process reads
  it), the second when the socket takes nothing, and always when the pipe is empty. The results of recv and splice
  are not looked at.
\<close>

definition CLIENT_BUFFER_SIZE :: nat where "CLIENT_BUFFER_SIZE = 64"

datatype splice_in = In_bytes "char list" | In_end | In_fails | In_blocks

datatype splice_out = Out_bytes nat | Out_fails | Out_blocks

record client_round =
  cl_poll :: int
  cl_stdin :: poll_flags
  cl_socket :: poll_flags
  cl_recv :: recv_answer
  cl_input :: splice_in
  cl_output :: splice_out

text \<open>The bytes that lie in the pipe, and the calls made so far.\<close>

record client =
  cl_pipe :: "char list"
  cl_calls :: "net_call list"

definition client_shows :: "int \<Rightarrow> recv_answer \<Rightarrow> client \<Rightarrow> client res" where
  "client_shows sockfd answer s =
     (let zero = replicate CLIENT_BUFFER_SIZE NUL in
      bind_res (case answer of Recv_bytes bs \<Rightarrow> put_bytes zero 0 bs | _ \<Rightarrow> Inr zero) (\<lambda>b.
      bind_res (cstr b 0) (\<lambda>shown.
      Inr (s\<lparr>cl_calls := cl_calls s @ [Recv_data sockfd (CLIENT_BUFFER_SIZE - 1) False, Print (shown @ [LF])]\<rparr>))))"

definition client_sends :: "int \<Rightarrow> int \<times> int \<Rightarrow> client_round \<Rightarrow> client \<Rightarrow> client option" where
  "client_sends sockfd pipefd e s =
     (case (case cl_input e of In_bytes bs \<Rightarrow> Some bs | In_end \<Rightarrow> Some [] | In_fails \<Rightarrow> Some [] | In_blocks \<Rightarrow> None) of
        None \<Rightarrow> None
      | Some moved \<Rightarrow>
          let pipe = cl_pipe s @ moved in
          if pipe = [] then None
          else (case (case cl_output e of Out_bytes n \<Rightarrow> Some n | Out_fails \<Rightarrow> Some 0 | Out_blocks \<Rightarrow> None) of
             None \<Rightarrow> None
           | Some n \<Rightarrow> Some \<lparr>cl_pipe = drop n pipe,
               cl_calls = cl_calls s @ [Splice 0 (snd pipefd) moved, Splice (fst pipefd) sockfd (take n pipe)]\<rparr>))"

definition client_handle :: "int \<Rightarrow> int \<times> int \<Rightarrow> client_round \<Rightarrow> client \<Rightarrow> (bool \<times> client) res option" where
  "client_handle sockfd pipefd e s =
     (if cl_poll e < 0 then Some (Inr (False, s\<lparr>cl_calls := cl_calls s @ [Print (''poll failure '' @ [LF])]\<rparr>))
      else if cl_socket e AND POLLRDHUP \<noteq> 0
        then Some (Inr (False, s\<lparr>cl_calls := cl_calls s @ [Print (''server close the connection'' @ [LF])]\<rparr>))
      else bind_run (Some (if cl_socket e AND POLLIN \<noteq> 0 then client_shows sockfd (cl_recv e) s else Inr s)) (\<lambda>s1.
        if cl_stdin e AND POLLIN \<noteq> 0 then map_option (\<lambda>s2. Inr (True, s2)) (client_sends sockfd pipefd e s1)
        else Some (Inr (True, s1))))"

partial_function (option) client_loop :: "int \<Rightarrow> int \<times> int \<Rightarrow> (nat \<Rightarrow> client_round) \<Rightarrow> nat \<Rightarrow> client \<Rightarrow> client res option" where
  "client_loop sockfd pipefd rounds k s =
     (case client_handle sockfd pipefd (rounds k) s of
        None \<Rightarrow> None
      | Some (Inl u) \<Rightarrow> Some (Inl u)
      | Some (Inr (go, s1)) \<Rightarrow> if go then client_loop sockfd pipefd rounds (k + 1) s1 else Some (Inr s1))"

declare client_loop.simps [code]

definition chatroom_client :: "net_env \<Rightarrow> int \<times> int \<times> int \<Rightarrow> (nat \<Rightarrow> client_round) \<Rightarrow> char list list \<Rightarrow> unit startup" where
  "chatroom_client env pipe_answer rounds argv =
     (if length argv \<le> 2 then exits 1
      else bind_setup (value_of (argument argv 1)) (\<lambda>ip.
      bind_setup (value_of (bind_res (argument argv 2) atoi)) (\<lambda>port.
      bind_setup (open_socket env) (\<lambda>sockfd.
      let addr = address_of env ip port in
      bind_setup (does (Connect sockfd addr) (ne_connect env addr)) (\<lambda>ret.
      if ret < 0 then
        bind_setup (does (Print (''Connection failed!'' @ [LF])) ()) (\<lambda>_.
        bind_setup (does (Close_fd sockfd) ()) (\<lambda>_. exits 1))
      else
        bind_setup (does Pipe ()) (\<lambda>_.
        bind_setup (asserts (fst pipe_answer \<noteq> -1)) (\<lambda>_.
        bind_setup (case client_loop sockfd (snd pipe_answer) rounds 0 \<lparr>cl_pipe = [], cl_calls = []\<rparr> of
            None \<Rightarrow> ([], Hangs) | Some (Inl u) \<Rightarrow> ([], Undefined u) | Some (Inr s) \<Rightarrow> (cl_calls s, Starts ())) (\<lambda>_.
        bind_setup (does (Close_fd sockfd) ()) (\<lambda>_. exits 0)))))))))"

section \<open>Lemmas\<close>

text \<open>The bytes moved out of standard input, and those moved to a socket.\<close>

definition stdin_data :: "net_call list \<Rightarrow> char list" where
  "stdin_data cs = concat (map (\<lambda>c. case c of Splice fd out bs \<Rightarrow> if fd = 0 then bs else [] | _ \<Rightarrow> []) cs)"

definition sent_data :: "int \<Rightarrow> net_call list \<Rightarrow> char list" where
  "sent_data sockfd cs = concat (map (\<lambda>c. case c of Splice fd out bs \<Rightarrow> if out = sockfd then bs else [] | _ \<Rightarrow> []) cs)"

lemma data_simps [simp]:
  "stdin_data [] = []" "stdin_data (cs @ ds) = stdin_data cs @ stdin_data ds"
  "sent_data sockfd [] = []" "sent_data sockfd (cs @ ds) = sent_data sockfd cs @ sent_data sockfd ds"
  "stdin_data (c # cs) = (case c of Splice fd out bs \<Rightarrow> if fd = 0 then bs else [] | _ \<Rightarrow> []) @ stdin_data cs"
  "sent_data sockfd (c # cs) = (case c of Splice fd out bs \<Rightarrow> if out = sockfd then bs else [] | _ \<Rightarrow> []) @ sent_data sockfd cs"
  by (simp_all add: stdin_data_def sent_data_def)

text \<open>
  What a round finds in standard input; whether its second splice moves at least as much as the first; and the
  rounds in which the loop ends.
\<close>

definition typed :: "client_round \<Rightarrow> char list" where
  "typed e = (if cl_stdin e AND POLLIN \<noteq> 0 then case cl_input e of In_bytes bs \<Rightarrow> bs | _ \<Rightarrow> [] else [])"

definition keeps_up :: "client_round \<Rightarrow> bool" where
  "keeps_up e \<longleftrightarrow> (case cl_output e of Out_bytes n \<Rightarrow> length (typed e) \<le> n | _ \<Rightarrow> typed e = [])"

definition leaves :: "client_round \<Rightarrow> bool" where
  "leaves e \<longleftrightarrow> cl_poll e < 0 \<or> cl_socket e AND POLLRDHUP \<noteq> 0"

text \<open>What the rounds with the inputs ts make of a client: all went into the pipe, and out of it in the same order.\<close>

definition moves_on :: "int \<Rightarrow> char list \<Rightarrow> client \<Rightarrow> client \<Rightarrow> bool" where
  "moves_on sockfd t s s' \<longleftrightarrow> stdin_data (cl_calls s') = stdin_data (cl_calls s) @ t \<and>
     sent_data sockfd (cl_calls s') @ cl_pipe s' = sent_data sockfd (cl_calls s) @ cl_pipe s @ t"

lemma client_shows_moves:
  assumes "client_shows sockfd answer s = Inr s1"
  shows "moves_on sockfd0 [] s s1 \<and> cl_pipe s1 = cl_pipe s"
  using assms by (auto simp: client_shows_def moves_on_def Let_def bind_res_Inr_iff)

lemma client_sends_moves:
  assumes "client_sends sockfd pipefd e s = Some s1" and "cl_stdin e AND POLLIN \<noteq> 0" and "fst pipefd \<noteq> 0" "snd pipefd \<noteq> sockfd"
  shows "moves_on sockfd (typed e) s s1 \<and> (keeps_up e \<and> cl_pipe s = [] \<longrightarrow> cl_pipe s1 = [])"
proof -
  obtain n where n: "cl_output e = Out_bytes n \<or> cl_output e = Out_fails \<and> n = 0"
    and s1: "s1 = \<lparr>cl_pipe = drop n (cl_pipe s @ typed e),
      cl_calls = cl_calls s @ [Splice 0 (snd pipefd) (typed e), Splice (fst pipefd) sockfd (take n (cl_pipe s @ typed e))]\<rparr>"
    using assms(1,2) by (auto simp: client_sends_def typed_def Let_def split: splice_in.splits splice_out.splits if_splits)
  have "stdin_data (cl_calls s1) = stdin_data (cl_calls s) @ typed e"
    and "sent_data sockfd (cl_calls s1) = sent_data sockfd (cl_calls s) @ take n (cl_pipe s @ typed e)"
    using assms(3,4) by (simp_all add: s1)
  moreover have "take n (cl_pipe s @ typed e) @ cl_pipe s1 = cl_pipe s @ typed e" by (simp only: s1 client.simps append_take_drop_id)
  moreover have "cl_pipe s1 = []" if "keeps_up e" "cl_pipe s = []" using that n by (auto simp: s1 keeps_up_def)
  ultimately show ?thesis by (simp add: moves_on_def)
qed

lemma client_handle_moves:
  assumes "client_handle sockfd pipefd e s = Some (Inr (go, s1))" and "fst pipefd \<noteq> 0" "snd pipefd \<noteq> sockfd"
  shows "go = (\<not> leaves e) \<and> moves_on sockfd (if go then typed e else []) s s1 \<and>
    (cl_pipe s = [] \<and> (go \<longrightarrow> keeps_up e) \<longrightarrow> cl_pipe s1 = [])"
proof (cases "leaves e")
  case True
  then show ?thesis using assms(1) by (auto simp: client_handle_def leaves_def moves_on_def split: if_splits)
next
  case False
  define sh where "sh = (if cl_socket e AND POLLIN \<noteq> 0 then client_shows sockfd (cl_recv e) s else Inr s)"
  have h: "bind_run (Some sh) (\<lambda>s1. if cl_stdin e AND POLLIN \<noteq> 0 then map_option (\<lambda>s2. Inr (True, s2)) (client_sends sockfd pipefd e s1)
      else Some (Inr (True, s1))) = Some (Inr (go, s1))"
    using assms(1) False by (simp add: client_handle_def sh_def leaves_def)
  then obtain s2 where s2: "sh = Inr s2" by (cases sh) auto
  then have f2: "moves_on sockfd [] s s2" "cl_pipe s2 = cl_pipe s"
    using client_shows_moves [of sockfd "cl_recv e" s s2 sockfd] by (auto simp: sh_def moves_on_def split: if_splits)
  show ?thesis
  proof (cases "cl_stdin e AND POLLIN \<noteq> 0")
    case True
    with h s2 have "client_sends sockfd pipefd e s2 = Some s1" "go" by auto
    with client_sends_moves [OF this(1) True assms(2,3)] f2 False show ?thesis by (simp add: moves_on_def)
  next
    case n: False
    with h s2 f2 False show ?thesis by (simp add: typed_def moves_on_def)
  qed
qed

lemma client_loop_moves:
  assumes "client_loop sockfd pipefd rounds k s = Some r"
  shows "fst pipefd \<noteq> 0 \<and> snd pipefd \<noteq> sockfd \<longrightarrow> (\<forall>s'. r = Inr s' \<longrightarrow> (\<exists>m \<ge> k. (\<forall>i. k \<le> i \<and> i < m \<longrightarrow> \<not> leaves (rounds i)) \<and>
    leaves (rounds m) \<and> moves_on sockfd (concat (map (\<lambda>i. typed (rounds i)) [k..<m])) s s' \<and>
    (cl_pipe s = [] \<and> (\<forall>i. k \<le> i \<and> i < m \<longrightarrow> keeps_up (rounds i)) \<longrightarrow> cl_pipe s' = [])))"
proof (rule client_loop.raw_induct [where P = "\<lambda>sockfd pipefd rounds k s r.
    fst pipefd \<noteq> 0 \<and> snd pipefd \<noteq> sockfd \<longrightarrow> (\<forall>s'. r = Inr s' \<longrightarrow> (\<exists>m \<ge> k. (\<forall>i. k \<le> i \<and> i < m \<longrightarrow> \<not> leaves (rounds i)) \<and>
    leaves (rounds m) \<and> moves_on sockfd (concat (map (\<lambda>i. typed (rounds i)) [k..<m])) s s' \<and>
    (cl_pipe s = [] \<and> (\<forall>i. k \<le> i \<and> i < m \<longrightarrow> keeps_up (rounds i)) \<longrightarrow> cl_pipe s' = [])))", OF _ assms])
  fix loop sockfd pipefd rounds and k :: nat and s and r :: "client res"
  assume ih: "\<And>sockfd pipefd rounds k s r. loop sockfd pipefd rounds k s = Some r \<Longrightarrow>
      fst pipefd \<noteq> 0 \<and> snd pipefd \<noteq> sockfd \<longrightarrow> (\<forall>s'. r = Inr s' \<longrightarrow> (\<exists>m \<ge> k. (\<forall>i. k \<le> i \<and> i < m \<longrightarrow> \<not> leaves (rounds i)) \<and>
      leaves (rounds m) \<and> moves_on sockfd (concat (map (\<lambda>i. typed (rounds i)) [k..<m])) s s' \<and>
      (cl_pipe s = [] \<and> (\<forall>i. k \<le> i \<and> i < m \<longrightarrow> keeps_up (rounds i)) \<longrightarrow> cl_pipe s' = [])))"
    and step: "(case client_handle sockfd pipefd (rounds k) s of
        None \<Rightarrow> None
      | Some (Inl u) \<Rightarrow> Some (Inl u)
      | Some (Inr (go, s1)) \<Rightarrow> if go then loop sockfd pipefd rounds (k + 1) s1 else Some (Inr s1)) = Some r"
  show "fst pipefd \<noteq> 0 \<and> snd pipefd \<noteq> sockfd \<longrightarrow> (\<forall>s'. r = Inr s' \<longrightarrow> (\<exists>m \<ge> k. (\<forall>i. k \<le> i \<and> i < m \<longrightarrow> \<not> leaves (rounds i)) \<and>
    leaves (rounds m) \<and> moves_on sockfd (concat (map (\<lambda>i. typed (rounds i)) [k..<m])) s s' \<and>
    (cl_pipe s = [] \<and> (\<forall>i. k \<le> i \<and> i < m \<longrightarrow> keeps_up (rounds i)) \<longrightarrow> cl_pipe s' = [])))"
  proof (intro impI allI)
    fix s' assume f: "fst pipefd \<noteq> 0 \<and> snd pipefd \<noteq> sockfd" and r: "r = Inr s'"
    then obtain go s1 where h: "client_handle sockfd pipefd (rounds k) s = Some (Inr (go, s1))"
      using step by (auto split: option.splits sum.splits)
    note m1 = client_handle_moves [OF h conjunct1 [OF f] conjunct2 [OF f]]
    show "\<exists>m \<ge> k. (\<forall>i. k \<le> i \<and> i < m \<longrightarrow> \<not> leaves (rounds i)) \<and>
      leaves (rounds m) \<and> moves_on sockfd (concat (map (\<lambda>i. typed (rounds i)) [k..<m])) s s' \<and>
      (cl_pipe s = [] \<and> (\<forall>i. k \<le> i \<and> i < m \<longrightarrow> keeps_up (rounds i)) \<longrightarrow> cl_pipe s' = [])"
    proof (cases go)
      case True
      then have "loop sockfd pipefd rounds (k + 1) s1 = Some r" using step by (simp add: h)
      from ih [OF this] f r obtain m where m: "m \<ge> k + 1" "\<forall>i. k + 1 \<le> i \<and> i < m \<longrightarrow> \<not> leaves (rounds i)" "leaves (rounds m)"
        "moves_on sockfd (concat (map (\<lambda>i. typed (rounds i)) [k + 1..<m])) s1 s'"
        "cl_pipe s1 = [] \<and> (\<forall>i. k + 1 \<le> i \<and> i < m \<longrightarrow> keeps_up (rounds i)) \<longrightarrow> cl_pipe s' = []" by blast
      have ks: "[k..<m] = k # [k + 1..<m]" using m(1) by (simp add: upt_conv_Cons)
      have "\<not> leaves (rounds i)" if "k \<le> i" "i < m" for i using that m(2) m1 True by (cases "i = k") auto
      moreover have "moves_on sockfd (concat (map (\<lambda>i. typed (rounds i)) [k..<m])) s s'"
        using m1 m(4) True unfolding ks by (simp add: moves_on_def)
      moreover have "cl_pipe s' = []" if "cl_pipe s = []" "\<forall>i. k \<le> i \<and> i < m \<longrightarrow> keeps_up (rounds i)" using that m1 m(1,5) by auto
      ultimately show ?thesis using m(1,3) by (intro exI [of _ m]) auto
    next
      case False
      then have "s' = s1" using step by (simp add: h r)
      with m1 False show ?thesis by (intro exI [of _ k]) auto
    qed
  qed
qed

section \<open>Properties\<close>

text \<open>C28. The chat client passes its standard input on in order. When its loop ends, in round m, it has read from standard
  input what the rounds before found there with POLLIN, all of it went into the pipe, and what was sent to
  the server is that input but for the end that still lies in the pipe, which is lost; nothing is left when
  every second splice moved at least as much as the first. But the results of splice are not looked at, and in a
  round with POLLIN in which the pipe is empty and standard input has ended or cannot be spliced, or in which the
  first splice blocks on a full pipe, the client waits for ever: it no longer shows what the server sends and does
  not notice when it leaves.\<close>

theorem client_input:
  assumes "fst pipefd \<noteq> 0" "snd pipefd \<noteq> sockfd"
  shows "(\<forall>s. client_loop sockfd pipefd rounds 0 \<lparr>cl_pipe = [], cl_calls = []\<rparr> = Some (Inr s) \<longrightarrow>
      (\<exists>m. (\<forall>k < m. \<not> leaves (rounds k)) \<and> leaves (rounds m) \<and>
        stdin_data (cl_calls s) = concat (map (\<lambda>k. typed (rounds k)) [0..<m]) \<and>
        sent_data sockfd (cl_calls s) @ cl_pipe s = concat (map (\<lambda>k. typed (rounds k)) [0..<m]) \<and>
        ((\<forall>k < m. keeps_up (rounds k)) \<longrightarrow> cl_pipe s = []))) \<and>
    (\<forall>k s. \<not> leaves (rounds k) \<and> cl_socket (rounds k) AND POLLIN = 0 \<and> cl_stdin (rounds k) AND POLLIN \<noteq> 0 \<and>
      (cl_pipe s = [] \<and> cl_input (rounds k) \<in> {In_end, In_fails} \<or> cl_input (rounds k) = In_blocks) \<longrightarrow>
      client_loop sockfd pipefd rounds k s = None)"
proof (intro conjI allI impI)
  fix s assume "client_loop sockfd pipefd rounds 0 \<lparr>cl_pipe = [], cl_calls = []\<rparr> = Some (Inr s)"
  from client_loop_moves [OF this] assms show "\<exists>m. (\<forall>k < m. \<not> leaves (rounds k)) \<and> leaves (rounds m) \<and>
        stdin_data (cl_calls s) = concat (map (\<lambda>k. typed (rounds k)) [0..<m]) \<and>
        sent_data sockfd (cl_calls s) @ cl_pipe s = concat (map (\<lambda>k. typed (rounds k)) [0..<m]) \<and>
        ((\<forall>k < m. keeps_up (rounds k)) \<longrightarrow> cl_pipe s = [])"
    by (auto simp: moves_on_def)
next
  fix k and s :: client
  assume e: "\<not> leaves (rounds k) \<and> cl_socket (rounds k) AND POLLIN = 0 \<and> cl_stdin (rounds k) AND POLLIN \<noteq> 0 \<and>
      (cl_pipe s = [] \<and> cl_input (rounds k) \<in> {In_end, In_fails} \<or> cl_input (rounds k) = In_blocks)"
  then have "client_sends sockfd pipefd (rounds k) s = None" by (auto simp: client_sends_def)
  with e have "client_handle sockfd pipefd (rounds k) s = None" by (simp add: client_handle_def leaves_def)
  then show "client_loop sockfd pipefd rounds k s = None" by (subst client_loop.simps) simp
qed

text \<open>A client that sends one line, of which the socket takes three bytes before the server leaves: the end of the line is
  lost. And one that finds the end of its input at once.\<close>

definition sample_round :: "splice_in \<Rightarrow> client_round" where
  "sample_round input = \<lparr>cl_poll = 1, cl_stdin = POLLIN, cl_socket = 0, cl_recv = Recv_again, cl_input = input, cl_output = Out_bytes 3\<rparr>"

lemma client_input_witness:
  "(\<exists>s. client_loop 3 (4, 5) (\<lambda>k. if k = 0 then sample_round (In_bytes ''hello'') else (sample_round In_end)\<lparr>cl_socket := POLLRDHUP\<rparr>) 0
      \<lparr>cl_pipe = [], cl_calls = []\<rparr> = Some (Inr s) \<and> sent_data 3 (cl_calls s) = ''hel'' \<and> cl_pipe s = ''lo'') \<and>
   client_loop 3 (4, 5) (\<lambda>k. sample_round In_end) 0 \<lparr>cl_pipe = [], cl_calls = []\<rparr> = None"
proof -
  let ?rounds = "\<lambda>k. if k = 0 then sample_round (In_bytes ''hello'') else (sample_round In_end)\<lparr>cl_socket := POLLRDHUP\<rparr>"
  have p: "POLLIN \<noteq> 0" "POLLRDHUP \<noteq> 0" by (simp_all add: POLLIN_def POLLRDHUP_def)
  have last: "client_loop 3 (4, 5) ?rounds (Suc 0) s = Some (Inr (s\<lparr>cl_calls := cl_calls s @ [Print (''server close the connection'' @ [LF])]\<rparr>))" for s
    by (subst client_loop.simps) (simp add: client_handle_def sample_round_def p)
  have "\<exists>s. client_loop 3 (4, 5) ?rounds 0 \<lparr>cl_pipe = [], cl_calls = []\<rparr> = Some (Inr s) \<and> cl_pipe s = ''lo''"
    by (subst client_loop.simps) (simp add: client_handle_def client_sends_def sample_round_def p last)
  then obtain s where s: "client_loop 3 (4, 5) ?rounds 0 \<lparr>cl_pipe = [], cl_calls = []\<rparr> = Some (Inr s)" "cl_pipe s = ''lo''" by blast
  have l: "leaves (?rounds k) \<longleftrightarrow> k \<noteq> 0" for k by (simp add: leaves_def sample_round_def p)
  from client_input [of "(4, 5)" 3 ?rounds, THEN conjunct1, rule_format, OF _ _ s(1)] obtain m where
    m: "\<forall>k < m. \<not> leaves (?rounds k)" "leaves (?rounds m)"
      "sent_data 3 (cl_calls s) @ cl_pipe s = concat (map (\<lambda>k. typed (?rounds k)) [0..<m])" by auto
  have "m = 1" using m(1,2) unfolding l by (metis less_one nat_neq_iff)
  with m(3) s(2) have "sent_data 3 (cl_calls s) @ ''lo'' = ''hel'' @ ''lo''" by (simp add: typed_def sample_round_def p)
  then have "sent_data 3 (cl_calls s) = ''hel''" by (simp only: append_same_eq)
  moreover have "client_loop 3 (4, 5) (\<lambda>k. sample_round In_end) 0 \<lparr>cl_pipe = [], cl_calls = []\<rparr> = None"
    using client_input [of "(4, 5)" 3 "\<lambda>k. sample_round In_end"] by (auto simp: sample_round_def leaves_def p)
  ultimately show ?thesis using s by blast
qed

text \<open>The outcome of splice\_server once a client is connected: what the one splice back moves of the one splice in.\<close>

text \<open>The splice server sends back a prefix of the first data it receives and exits; a splice that fails aborts
  it, and a client that leaves without having sent anything blocks it for ever in the second splice.\<close>

theorem splice_outcome:
  assumes "length argv > 2" "atoi (argv ! 2) = Inr port" "ne_socket env \<ge> 0" "ne_listen env \<noteq> -1"
    and "ne_bind env (address_of env (argv ! 1) port) \<noteq> -1" "ne_accept env \<ge> 0" "ne_accept env \<noteq> p1" "se_pipe se = Some (p0, p1)"
  shows "case se_in se of
      None \<Rightarrow> snd (splice_server env se argv) = Aborts
    | Some bs \<Rightarrow> if bs = [] then snd (splice_server env se argv) = Hangs
        else (case se_out se of
          None \<Rightarrow> snd (splice_server env se argv) = Aborts
        | Some n \<Rightarrow> snd (splice_server env se argv) = Exits 0 \<and>
            sent_data (ne_accept env) (fst (splice_server env se argv)) = take n bs)"
proof -
  have l: "open_listener env argv = ([Socket, Bind (ne_socket env) (address_of env (argv ! 1) port), Listen (ne_socket env) 5], Starts (ne_socket env))"
    using assms by (simp add: open_listener_def argument_def setup_simps)
  show ?thesis
  proof (cases "se_in se")
    case None
    then show ?thesis using assms(1,6,8) by (simp add: splice_server_def l splice_back_def setup_simps)
  next
    case (Some bs)
    then show ?thesis using assms(1,6-8)
      by (cases "bs = []"; cases "se_out se") (simp_all add: splice_server_def l splice_back_def setup_simps)
  qed
qed

lemma splice_outcome_witness:
  "snd (splice_server sample_env \<lparr>se_pipe = Some (8, 9), se_in = Some [], se_out = Some 0\<rparr> [''splice'', ''x'', ''80'']) = Hangs \<and>
   sent_data 4 (fst (splice_server sample_env \<lparr>se_pipe = Some (8, 9), se_in = Some ''echo'', se_out = Some 2\<rparr> [''splice'', ''x'', ''80''])) = ''ec''"
  using splice_outcome [of "[''splice'', ''x'', ''80'']" 80 sample_env 9 "\<lparr>se_pipe = Some (8, 9), se_in = Some [], se_out = Some 0\<rparr>" 8]
    splice_outcome [of "[''splice'', ''x'', ''80'']" 80 sample_env 9 "\<lparr>se_pipe = Some (8, 9), se_in = Some ''echo'', se_out = Some 2\<rparr>" 8]
  by (simp add: sample_atoi sample_env_def)

text \<open>The number of arguments that the four programs require is one less than they use: msg\_oob\_sender and
  msg\_oob\_receiver called with a host alone, and set\_send\_buf and set\_rec\_buf called without a size, hand the null
  pointer at the end of argv to atoi. With the required number or less they exit with 1 before any call.\<close>

theorem argument_checks:
  assumes "atoi (argv3 ! 2) = Inr port" "ne_socket env \<ge> 0" "length argv3 = 3" "length argv2 = 2"
  shows "snd (msg_oob_sender env argv2) = Undefined NullDeref \<and>
    snd (msg_oob_receiver env errno as argv2) = Undefined NullDeref \<and>
    set_send_buf env got argv3 = ([Socket], Undefined NullDeref) \<and>
    set_rec_buf env got errno recv argv3 = ([Socket], Undefined NullDeref) \<and>
    (\<forall>argv. length argv < 2 \<longrightarrow> msg_oob_sender env argv = exits 1 \<and> msg_oob_receiver env errno as argv = exits 1) \<and>
    (\<forall>argv. length argv \<le> 2 \<longrightarrow> set_send_buf env got argv = exits 1 \<and> set_rec_buf env got errno recv argv = exits 1)"
  using assms
  by (simp add: msg_oob_sender_def msg_oob_receiver_def open_listener_def set_send_buf_def set_rec_buf_def argument_def setup_simps)

lemma argument_checks_witness:
  "snd (msg_oob_sender sample_env [''msg_oob_sender'', ''127.0.0.1'']) = Undefined NullDeref \<and>
   set_send_buf sample_env 2048 [''set_send_buf'', ''127.0.0.1'', ''80''] = ([Socket], Undefined NullDeref)"
  using argument_checks [of "[''set_send_buf'', ''127.0.0.1'', ''80'']" 80 sample_env "[''msg_oob_sender'', ''127.0.0.1'']"]
  by (simp add: sample_atoi sample_env_def)

section \<open>The other programs\<close>

text \<open>check\_backlog listens on a port of the system's choice, whatever port it was given.\<close>

lemma check_backlog_port:
  assumes "length argv > 3" "atoi (argv ! 2) = Inr port" "atoi (argv ! 3) = Inr backlog" "ne_socket env \<ge> 0"
    and "\<forall>addr. ne_bind env addr \<noteq> -1"
  shows "snd (check_backlog env naps argv) = Exits 0 \<and>
    (\<forall>fd addr. Bind fd addr \<in> set (fst (check_backlog env naps argv)) \<longrightarrow> sin_port addr = 0)"
  using assms by (simp add: check_backlog_def argument_def setup_simps)

text \<open>A connection that acceptSocket takes leads to a read of the address of the client, which was never written.\<close>

lemma accept_socket_undefined:
  assumes "length argv > 2" "atoi (argv ! 2) = Inr port" "ne_socket env > 0" "\<forall>addr. ne_bind env addr \<noteq> -1" "ne_accept env \<ge> 0"
  shows "snd (accept_socket env errno argv) = Undefined UninitRead"
  using assms by (simp add: accept_socket_def argument_def setup_simps)

text \<open>What cgi\_server prints goes to the client exactly when dup returns 1, the descriptor just closed.\<close>

lemma cgi_stdout:
  assumes "length argv > 2" "atoi (argv ! 2) = Inr port" "ne_socket env > 2" "ne_bind env (address_of env (argv ! 1) port) \<noteq> -1"
    and "ne_listen env \<noteq> -1" "ne_accept env > 2" "ne_accept env \<noteq> ne_socket env"
  shows "snd (cgi_server env duplicate argv) = Exits 0 \<and>
    (stdout_channel (ne_accept env) (fst (cgi_server env duplicate argv)) = Some (Connection (ne_accept env)) \<longleftrightarrow> duplicate = 1)"
proof -
  have l: "open_listener env argv = ([Socket, Bind (ne_socket env) (address_of env (argv ! 1) port), Listen (ne_socket env) 5], Starts (ne_socket env))"
    using assms by (simp add: open_listener_def argument_def setup_simps)
  show ?thesis using assms by (auto simp: cgi_server_def l setup_simps stdout_channel_def)
qed

text \<open>The loop of set\_rec\_buf ends exactly when some recv gives nothing.\<close>

lemma drain_loop_ends:
  assumes "\<not> (case recv (k + n) of Recv_bytes bs \<Rightarrow> True | _ \<Rightarrow> False)"
  shows "\<exists>cs'. drain_loop connfd recv k cs = Some cs'"
  using assms
proof (induction n arbitrary: k cs)
  case 0
  then show ?case by (subst drain_loop.simps) (auto split: recv_answer.splits)
next
  case (Suc n)
  then have "\<exists>cs'. drain_loop connfd recv (k + 1) cs = Some cs'" for cs by simp
  then show ?case by (subst drain_loop.simps) (auto split: recv_answer.splits)
qed

lemma byteorder_prints: "byteorder True ! 1 = ''big endian'' @ [LF] \<and> byteorder False ! 1 = ''little endian'' @ [LF]"
  by (simp add: byteorder_def short_bytes_def)

end
