(* ===== verification/Spec2Isabelle.thy ===== *)
theory Spec2Isabelle
  imports Web_Server Http_Typing Thread_Pool Cond_Var Time_Wheel Time_Heap Timeout_Server Pool_System Chatroom Room_System
    Epoll_Demos Server_Setup Net_Tools
begin

text \<open>
  A verification of HPLinuxServer, a collection of Linux servers: an HTTP server on epoll with a pool of
  worker threads, and the timers and small servers that lead up to it. The sources are the C++ files
  under \<^verbatim>\<open>src/src\<close>.

  \<^bold>\<open>The program.\<close> \<^verbatim>\<open>httpConn/web_server.cpp\<close> is the event loop of the HTTP server. It keeps an
  array of \<^verbatim>\<open>http_conn\<close> objects (\<^verbatim>\<open>httpConn/http_conn.h\<close>, \<^verbatim>\<open>http_conn.cpp\<close>), reads from and
  writes to the connections epoll reports, and hands a connection with input to the thread pool of
  \<^verbatim>\<open>include/thread_pool.hpp\<close>, whose workers call \<open>process\<close> on it. The pool is built on the semaphore
  and mutex of \<^verbatim>\<open>include/locker.h\<close>. \<^verbatim>\<open>execution/timeout_server.cpp\<close> is a second server, the client
  of the sorted timer list of \<^verbatim>\<open>include/lst_timer.h\<close>; \<^verbatim>\<open>include/time_wheel_timer.h\<close> and
  \<^verbatim>\<open>include/time_heap.h\<close> are other timer containers. \<^verbatim>\<open>include/process_pool.hpp\<close> is a pool of
  processes, whose parent hands each new connection to a child over a pipe;
  \<^verbatim>\<open>execution/echo_processpool_server.cpp\<close> is its client. \<^verbatim>\<open>execution/chatroom_server.c\<close> is a chat room
  in one process over poll, \<^verbatim>\<open>execution/subprocess_chat_room.cpp\<close> one with a process for each client and
  shared memory. The other programs of \<^verbatim>\<open>execution\<close> show one facility each: level and edge triggering, one-shot
  events, socket buffers, urgent data, splice, a client of the chat room.

  \<^bold>\<open>Conventions.\<close> An expression whose behaviour C++ leaves undefined evaluates to an element of
  \<open>ub\<close> (theory \<open>Prelude\<close>); an operation returns \<open>Inl\<close> of it or \<open>Inr\<close> of its result
  and the new state. A loop that need not end is a \<open>partial_function (option)\<close>, so that None means it
  does not return; no fuel is used anywhere. Integers of type int are HOL integers with the overflow of
  signed addition as undefined behaviour and the narrowing of long written out; flags are 32-bit words.
  System calls that only have an effect are recorded in a trace (theory \<open>Kernel\<close>), from which the
  table of an epoll instance is computed; calls whose answer matters are parameters. The values the
  documents of a call guarantee (recv returns at most the space offered, accept a descriptor that is not
  in use) are named hypotheses of the theorems that need them. Output with printf is modelled in the
  programs that exist to print something, and not in the servers.

  \<^bold>\<open>The theories.\<close>
  \<^item> \<open>Prelude\<close>: undefined behaviour, composition, the type int, lists.
  \<^item> \<open>CStrings\<close>: the functions of string.h, atol and vsnprintf that the parser and the writer
    use, on byte buffers with bounds; they return \<open>OutOfBounds\<close> exactly where the scan leaves the buffer.
  \<^item> \<open>Kernel\<close>: flags, system calls, the epoll table.
  \<^item> \<open>Http_Types\<close>: the class http_conn, its constants, init, close_conn and the epoll helpers.
  \<^item> \<open>Http_Parser\<close>: read, parse_line, parse_request_line, parse_headers, parse_content,
    do_request, process_read; the invariant of the parser and what each function does on a terminated
    string. \<open>Http_Request\<close>: the properties of the parser, up to the outcome of process_read on
    the data of a connection in its initial state whose buffer is not full.
  \<^item> \<open>Http_Response\<close>: add_response and its callers, process_write, unmap, write, process.
    \<open>Http_Reply\<close>: the properties of the response side and of process. \<open>Http_Typing\<close>: the type of a
    connection, kept by every member function.
  \<^item> \<open>Web_Server\<close>: the event loop over the array of connections, as a step relation with the
    workers' calls of process interleaved.
  \<^item> \<open>Locker\<close>, \<open>Transitions\<close>, \<open>Thread_Pool\<close>: the semaphore and mutex, runs of a step
    relation with the locales of a safe system and of a traced system, and the pool as threads that step
    over its shared state, until the destructor destroys it under them. Signals may interrupt a wait. What
    m_max_requests, initialised with itself, holds is an argument of the constructor. \<open>Cond_Var\<close>: threads on a condition variable.
  \<^item> \<open>Linked_Lists\<close>: heaps of doubly linked nodes and the locale of their pointer manipulations,
    interpreted on the nodes of both timers.
  \<^item> \<open>Timed_Queue\<close>: the abstract queue sorted by expiry and the locale of its implementations.
    \<open>Lst_Timer\<close>: the timer list pointer by pointer, interpreted as a timed queue.
  \<^item> \<open>Time_Wheel\<close>: the time wheel pointer by pointer, a refinement of a countdown per timer.
  \<^item> \<open>Time_Heap\<close>: the timer heap over its array of pointers, and where it departs from a heap.
  \<^item> \<open>Timeout_Server\<close>: the server on top of the timer list, a refinement of a table of deadlines
    under every sequence of events its environment can produce.
  \<^item> \<open>Process_Pool\<close>: the pool's constructor and parent; the choice of a child as a search, runs of
    the parent with a release between any two connections of a child, and the loop of wait that blocks it. \<open>Pool_Child\<close>: the children over any class of
    connections, with the locale of the contract between the pool and such a class. \<open>Echo_Conn\<close>: the class
    of the echo server, interpreted as one. \<open>Pool_System\<close>: parent and children as one system over their pipes.
  \<^item> \<open>Chatroom\<close>: the poll set of the chat room, its users and their pointers into each other's buffers.
  \<^item> \<open>Subprocess_Chat\<close>: the server that forks, the clients' processes and the segments they share.
    \<open>Room_System\<close>: all of them as one system over shared memory and pipes that may refuse what is written; a
    process that is to stop finishes its batch of events, as the code does.
  \<^item> \<open>Epoll_Demos\<close>: the programs that show level and edge triggering and one-shot events, with the
    latter's threads as a step relation in which a thread reads its argument in a step of its own, too late once
    main has left the block of the variable it points to.
  \<^item> \<open>Sockets\<close>, \<open>Server_Setup\<close>: arguments, addresses and the calls that open a socket, and the main
    functions of the servers, from the command line to the start state of their loops.
  \<^item> \<open>Net_Tools\<close>: byteorder, checkBacklog, acceptSocket, cgi\_server, splice\_server, set\_send\_buf,
    set\_rec\_buf, the two programs for urgent data and chatroom\_client, each up to its exit. A call of splice may move part of
    the data, fail or block, on an empty pipe and on a full one.

  \<^bold>\<open>What the theorems show.\<close> The timer list and the wheel do what they
  promise, the latter one tick late, and so does the thread pool until its destructor runs, which leaves the workers
  on a destroyed object; the timeout server closes exactly the connections that were silent for three time slots. The
  HTTP server does not work as meant, and the theorems say how: the loop condition of process_read is
  inverted, so a complete request line is ignored, and rejected when more arrives, and a prepared input hangs a worker, while a
  request that arrives without its line end is served; write stops at half the head; and the event loop
  registers the listening socket in place of each new connection, so no connection is ever read. The
  timer heap is one only while its timers are added in order. The process pool assigns every connection
  to a child that counts as free, but sees the end of a connection only when its notification stands at the child's
  own index among the events; its children keep the contract whatever the class does. Parent and children
  together bound the connections of a child by its releases, but one report may release a child twice, and the end of one
  child blocks the parent until all have ended. Every server that starts has called bind once, for the address it was
  given, except that a malformed host stands for every interface and the port is taken modulo 65536; two of
  them ignore a failing bind. The chat room over poll
  always keeps its set of clients in order and delivers a message to one receiver after the other, unless the sender leaves first. The
  one with processes writes the number of every announced message once to each other client, but a full pipe loses it,
  the text is shown from segments that may have been overwritten, and it tests the result of fork the wrong way round, so that it never forgets a client and
  serves five in all. epoll\_oneshot keeps its workers apart as long as each has read its argument in time. The chat
  client sends its input in order, loses what its pipe holds when the server leaves, and hangs when its input
  ends.

  \<^bold>\<open>Not modelled.\<close> The output of the servers with printf; a failing new; the release of memory by
  delete and free at the end of the main functions, where it has no effect that is seen (in
  subprocess\_chat\_room it is delete[] on memory from malloc, which is undefined); sleep in epoll\_oneshot. The
  time heap's header does not compile and is modelled with its slips of syntax corrected; the variable its second
  constructor does not declare is an argument there.
\<close>

end
